(* ===== verification/Prelude.thy ===== *)
theory Prelude
  imports Main "HOL-Library.Word" "HOL-Library.List_Lexorder"
begin

text \<open>
  Shared vocabulary of the development.

  \<^item> Machine integers: \<open>u8\<close> to \<open>u128\<close> are words of HOL-Library.Word; a signed integer of the
    source (\<open>i32\<close>, \<open>i64\<close>, \<open>i128\<close>) is the word with the same bits, read by \<open>sint\<close>.
    \<open>usize\<close> values that index into memory are \<open>nat\<close>.
  \<^item> A \<open>Vec<u8>\<close> or byte slice is a \<open>bytes\<close> value; the lexicographic order of HOL-Library.List_Lexorder
    is Rust's \<open>Ord\<close> on byte slices.
  \<^item> \<open>Result<T, CoreError>\<close> is \<open>core_error + 'a\<close>; a Rust panic (slice index out of range) is the
    extra error \<open>Panic\<close>, so that the absence of panics is part of what is proved.
  \<^item> \<open>rd_range\<close> and \<open>wr_range\<close> are the range read \<open>data[a..a+n]\<close> and \<open>copy_from_slice\<close>;
    \<open>le_enc\<close>/\<open>le_dec\<close> are \<open>to_le_bytes\<close>/\<open>from_le_bytes\<close>.
  \<^item> The locale \<open>codec\<close> is the contract between the writers and the readers of the
    stream formats: reading back what was written returns the value and the rest of the stream.
\<close>

section \<open>Machine types\<close>

type_synonym u8 = "8 word"
type_synonym u16 = "16 word"
type_synonym u32 = "32 word"
type_synonym u64 = "64 word"
type_synonym u128 = "128 word"
type_synonym bytes = "u8 list"

text \<open>The lemmas that read and write byte ranges, for \<open>simp add: byte_simps\<close>.\<close>

named_theorems byte_simps

section \<open>Errors and results\<close>

datatype core_error =
    Io string
  | PageNotFound u32
  | BufferPoolFull
  | ChecksumMismatch u32
  | KeyNotFound
  | DuplicateKey
  | TransactionAborted u64
  | TransactionNotFound u64
  | Deadlock
  | SerializationConflict
  | WriteConflict
  | LockTimeout u64
  | TransactionTimeout u64
  | WalCorrupted u64
  | TableNotFound string
  | TableAlreadyExists string
  | ColumnNotFound string
  | TypeMismatch string string
  | ValueTooLarge nat
  | Internal string
  | Panic

type_synonym 'a result = "core_error + 'a"

text \<open>The \<open>?\<close> operator.\<close>

definition rbind :: "'e + 'a \<Rightarrow> ('a \<Rightarrow> 'e + 'b) \<Rightarrow> 'e + 'b" where
  "rbind m f = (case m of Inl e \<Rightarrow> Inl e | Inr x \<Rightarrow> f x)"

lemma rbind_simps [simp]:
  "rbind (Inl e) f = Inl e"
  "rbind (Inr x) f = f x"
  by (simp_all add: rbind_def)

lemma rbind_eq_Inr [simp]: "rbind m f = Inr y \<longleftrightarrow> (\<exists>x. m = Inr x \<and> f x = Inr y)"
  by (cases m) auto

lemma rbind_cong [fundef_cong]:
  "m = m' \<Longrightarrow> (\<And>x. m' = Inr x \<Longrightarrow> f x = f' x) \<Longrightarrow> rbind m f = rbind m' f'"
  by (cases m') auto

section \<open>Ranges of byte arrays\<close>

definition rd_range :: "nat \<Rightarrow> nat \<Rightarrow> 'a list \<Rightarrow> 'a list" where
  "rd_range a n xs = take n (drop a xs)"

definition wr_range :: "nat \<Rightarrow> 'a list \<Rightarrow> 'a list \<Rightarrow> 'a list" where
  "wr_range a ys xs = take a xs @ ys @ drop (a + length ys) xs"

text \<open>The checked forms: an out-of-range access is a panic.\<close>

definition get_range :: "'a list \<Rightarrow> nat \<Rightarrow> nat \<Rightarrow> 'a list result" where
  "get_range xs a n = (if a + n \<le> length xs then Inr (rd_range a n xs) else Inl Panic)"

definition put_range :: "'a list \<Rightarrow> nat \<Rightarrow> 'a list \<Rightarrow> 'a list result" where
  "put_range xs a ys = (if a + length ys \<le> length xs then Inr (wr_range a ys xs) else Inl Panic)"

lemma length_rd_range [byte_simps]: "a + n \<le> length xs \<Longrightarrow> length (rd_range a n xs) = n"
  by (simp add: rd_range_def)

lemma length_wr_range [byte_simps]: "a + length ys \<le> length xs \<Longrightarrow> length (wr_range a ys xs) = length xs"
  by (simp add: wr_range_def)

lemma nth_rd_range: "i < n \<Longrightarrow> a + n \<le> length xs \<Longrightarrow> rd_range a n xs ! i = xs ! (a + i)"
  by (simp add: rd_range_def)

lemma nth_wr_range:
  "a + length ys \<le> length xs \<Longrightarrow> i < length xs \<Longrightarrow>
   wr_range a ys xs ! i = (if i < a then xs ! i else if i < a + length ys then ys ! (i - a) else xs ! i)"
  by (auto simp: wr_range_def nth_append)

lemma rd_wr_same [byte_simps]:
  "a + length ys \<le> length xs \<Longrightarrow> n = length ys \<Longrightarrow> rd_range a n (wr_range a ys xs) = ys"
  by (simp add: rd_range_def wr_range_def)

lemma rd_wr_other [byte_simps]:
  assumes "b + n \<le> a \<or> a + length ys \<le> b" and "a + length ys \<le> length xs" and "b + n \<le> length xs"
  shows "rd_range b n (wr_range a ys xs) = rd_range b n xs"
proof (rule nth_equalityI)
  show "length (rd_range b n (wr_range a ys xs)) = length (rd_range b n xs)"
    using assms by (simp add: length_rd_range length_wr_range)
  fix i assume "i < length (rd_range b n (wr_range a ys xs))"
  then have i: "i < n" using assms by (simp add: length_rd_range length_wr_range)
  with assms show "rd_range b n (wr_range a ys xs) ! i = rd_range b n xs ! i"
    by (auto simp: nth_rd_range length_wr_range nth_wr_range)
qed

lemma rd_range_eqI:
  assumes "a + n \<le> length xs" and "b + n \<le> length ys"
    and "\<And>i. i < n \<Longrightarrow> xs ! (a + i) = ys ! (b + i)"
  shows "rd_range a n xs = rd_range b n ys"
  by (rule nth_equalityI) (use assms in \<open>auto simp: length_rd_range nth_rd_range\<close>)

lemma rd_range_append_left [simp]: "a + n \<le> length xs \<Longrightarrow> rd_range a n (xs @ ys) = rd_range a n xs"
  by (simp add: rd_range_def)

lemma rd_range_append_right [simp]: "a = length xs \<Longrightarrow> rd_range a n (xs @ ys) = take n ys"
  by (simp add: rd_range_def)

lemma get_range_ok [simp]: "a + n \<le> length xs \<Longrightarrow> get_range xs a n = Inr (rd_range a n xs)"
  by (simp add: get_range_def)

lemma put_range_ok [simp]: "a + length ys \<le> length xs \<Longrightarrow> put_range xs a ys = Inr (wr_range a ys xs)"
  by (simp add: put_range_def)

section \<open>Little-endian and big-endian integers\<close>

fun le_enc :: "nat \<Rightarrow> nat \<Rightarrow> bytes" where
  "le_enc 0 x = []"
| "le_enc (Suc n) x = of_nat (x mod 256) # le_enc n (x div 256)"

fun le_dec :: "bytes \<Rightarrow> nat" where
  "le_dec [] = 0"
| "le_dec (b # bs) = unat b + 256 * le_dec bs"

lemma length_le_enc [simp]: "length (le_enc n x) = n"
  by (induction n x rule: le_enc.induct) auto

lemma le_dec_enc_mod: "le_dec (le_enc n x) = x mod 256 ^ n"
proof (induction n x rule: le_enc.induct)
  case (2 n x)
  have "unat (of_nat (x mod 256) :: u8) = x mod 256"
    by (simp add: unat_of_nat)
  with 2 show ?case
    by (simp add: mod_mult2_eq)
qed simp

lemma le_dec_bound: "le_dec bs < 256 ^ length bs"
proof (induction bs)
  case (Cons b bs)
  have "unat b < 2 ^ LENGTH(8)" by (rule unsigned_less)
  then have "unat b < 256" by simp
  moreover have "le_dec bs + 1 \<le> 256 ^ length bs" using Cons by simp
  then have "256 * (le_dec bs + 1) \<le> 256 * 256 ^ length bs" by (rule mult_le_mono2)
  ultimately show ?case by simp
qed simp

lemma le_enc_dec: "n = length bs \<Longrightarrow> le_enc n (le_dec bs) = bs"
proof (induction bs arbitrary: n)
  case (Cons b bs)
  have "unat b < 2 ^ LENGTH(8)" by (rule unsigned_less)
  then have "unat b < 256" by simp
  with Cons show ?case by simp
qed simp

text \<open>\<open>uN::to_le_bytes\<close> and \<open>uN::from_le_bytes\<close>; the width comes from the word type.\<close>

definition to_le :: "'a::len word \<Rightarrow> bytes" where
  "to_le w = le_enc (LENGTH('a) div 8) (unat w)"

definition from_le :: "bytes \<Rightarrow> 'a::len word" where
  "from_le bs = of_nat (le_dec bs)"

definition to_be :: "'a::len word \<Rightarrow> bytes" where
  "to_be w = rev (to_le w)"

lemma length_to_le: "length (to_le (w :: 'a::len word)) = LENGTH('a) div 8"
  by (simp add: to_le_def)

lemma length_to_be: "length (to_be (w :: 'a::len word)) = LENGTH('a) div 8"
  by (simp add: to_be_def length_to_le)

lemma length_to_le_u [simp]:
  "length (to_le (a :: u8)) = 1" "length (to_le (b :: u16)) = 2" "length (to_le (c :: u32)) = 4"
  "length (to_le (d :: u64)) = 8" "length (to_le (e :: u128)) = 16"
  by (simp_all add: length_to_le)

lemma from_le_to_le:
  assumes "LENGTH('a::len) = 8 * n"
  shows "from_le (to_le w) = (w :: 'a word)"
proof -
  have "unat w < 2 ^ LENGTH('a)" by (rule unsigned_less)
  also have "(2::nat) ^ LENGTH('a) = 256 ^ n"
    by (simp add: assms power_mult)
  finally have "le_dec (le_enc n (unat w)) = unat w"
    by (simp add: le_dec_enc_mod)
  then show ?thesis
    by (simp add: from_le_def to_le_def assms)
qed

lemma from_le_to_le_u [simp]:
  "from_le (to_le a) = (a :: u8)" "from_le (to_le b) = (b :: u16)" "from_le (to_le c) = (c :: u32)"
  "from_le (to_le d) = (d :: u64)" "from_le (to_le e) = (e :: u128)"
  by (rule from_le_to_le, simp)+

lemma to_le_from_le:
  assumes "LENGTH('a::len) = 8 * length bs"
  shows "to_le (from_le bs :: 'a word) = bs"
proof -
  have "le_dec bs < 2 ^ LENGTH('a)"
    using le_dec_bound [of bs] by (simp add: assms power_mult)
  then have "unat (of_nat (le_dec bs) :: 'a word) = le_dec bs"
    by (simp add: unat_of_nat)
  then show ?thesis
    by (simp add: to_le_def from_le_def assms le_enc_dec)
qed

section \<open>Streams: \<open>Read::read_exact\<close> and the codec contract\<close>

definition read_exact :: "nat \<Rightarrow> bytes \<Rightarrow> (bytes \<times> bytes) result" where
  "read_exact n s = (if n \<le> length s then Inr (take n s, drop n s) else Inl (Io ''UnexpectedEof''))"

lemma read_exact_append [simp]: "n = length bs \<Longrightarrow> read_exact n (bs @ s) = Inr (bs, s)"
  by (simp add: read_exact_def)

lemma read_exact_all [simp]: "n = length bs \<Longrightarrow> read_exact n bs = Inr (bs, [])"
  by (simp add: read_exact_def)

lemma read_exact_Inr_length: "read_exact n s = Inr (bs, s') \<Longrightarrow> s = bs @ s' \<and> length bs = n"
  by (auto simp: read_exact_def split: if_splits)

text \<open>The loop \<open>for _ in 0..n\<close> around a reader.\<close>

fun read_many :: "(bytes \<Rightarrow> ('a \<times> bytes) result) \<Rightarrow> nat \<Rightarrow> bytes \<Rightarrow> ('a list \<times> bytes) result" where
  "read_many r 0 s = Inr ([], s)"
| "read_many r (Suc n) s =
     rbind (r s) (\<lambda>(x, s1). rbind (read_many r n s1) (\<lambda>(xs, s2). Inr (x # xs, s2)))"

locale codec =
  fixes enc :: "'a \<Rightarrow> bytes"
    and dec :: "bytes \<Rightarrow> ('a \<times> bytes) result"
    and ok :: "'a \<Rightarrow> bool"
  assumes dec_enc: "ok x \<Longrightarrow> dec (enc x @ s) = Inr (x, s)"
begin

lemma dec_enc_end: "ok x \<Longrightarrow> dec (enc x) = Inr (x, [])"
  using dec_enc [of x "[]"] by simp

text \<open>A sequence of encoded values is read back by the counted loop.\<close>

lemma read_many_enc:
  assumes "\<forall>x \<in> set xs. ok x" and "n = length xs"
  shows "read_many dec n (concat (map enc xs) @ s) = Inr (xs, s)"
  using assms by (induction xs arbitrary: n) (auto simp: dec_enc)

text \<open>Different values never share an encoding, even with different continuations.\<close>

lemma enc_inj: "ok x \<Longrightarrow> ok y \<Longrightarrow> enc x @ s = enc y @ t \<Longrightarrow> x = y \<and> s = t"
  using dec_enc [of x s] dec_enc [of y t] by (metis Inr_inject Pair_inject)

end

definition read_le :: "nat \<Rightarrow> bytes \<Rightarrow> ('a::len word \<times> bytes) result" where
  "read_le n s = rbind (read_exact n s) (\<lambda>(b, s'). Inr (from_le b, s'))"

interpretation u32c: codec "to_le :: u32 \<Rightarrow> bytes" "read_le 4" "\<lambda>_. True"
  by unfold_locales (simp add: read_le_def)

interpretation u64c: codec "to_le :: u64 \<Rightarrow> bytes" "read_le 8" "\<lambda>_. True"
  by unfold_locales (simp add: read_le_def)

text \<open>A byte string with its length in front (\<open>u32\<close>), as every format of the source writes it.\<close>

definition put_lp :: "bytes \<Rightarrow> bytes" where
  "put_lp b = to_le (of_nat (length b) :: u32) @ b"

definition read_lp :: "bytes \<Rightarrow> (bytes \<times> bytes) result" where
  "read_lp s = rbind (read_le 4 s) (\<lambda>(n :: u32, s1). read_exact (unat n) s1)"

definition fits32 :: "'a list \<Rightarrow> bool" where
  "fits32 b \<longleftrightarrow> length b < 2 ^ 32"

lemma unat_len32 [simp]: "fits32 b \<Longrightarrow> unat (of_nat (length b) :: u32) = length b"
  by (simp add: fits32_def unat_of_nat)

interpretation lpc: codec put_lp read_lp fits32
  by unfold_locales (simp add: put_lp_def read_lp_def u32c.dec_enc)

text \<open>A pair of codecs read one after the other.\<close>

definition put_pair :: "('a \<Rightarrow> bytes) \<Rightarrow> ('b \<Rightarrow> bytes) \<Rightarrow> 'a \<times> 'b \<Rightarrow> bytes" where
  "put_pair f g p = f (fst p) @ g (snd p)"

definition read_pair ::
  "(bytes \<Rightarrow> ('a \<times> bytes) result) \<Rightarrow> (bytes \<Rightarrow> ('b \<times> bytes) result) \<Rightarrow> bytes \<Rightarrow> (('a \<times> 'b) \<times> bytes) result"
where
  "read_pair f g s = rbind (f s) (\<lambda>(a, s1). rbind (g s1) (\<lambda>(b, s2). Inr ((a, b), s2)))"

lemma codec_pair:
  assumes "codec f df okf" and "codec g dg okg"
  shows "codec (put_pair f g) (read_pair df dg) (\<lambda>p. okf (fst p) \<and> okg (snd p))"
  using assms by (auto simp: codec_def put_pair_def read_pair_def)

text \<open>Key/value entries: two length-prefixed byte strings.\<close>

interpretation kvc: codec "put_pair put_lp put_lp" "read_pair read_lp read_lp"
  "\<lambda>p. fits32 (fst p) \<and> fits32 (snd p)"
  by (rule codec_pair) (rule lpc.codec_axioms)+

section \<open>Generic lemmas on lists and ordered keys\<close>

lemma sorted_wrt_less_distinct: "sorted_wrt (<) (xs :: 'a::linorder list) \<Longrightarrow> distinct xs"
  by (simp add: strict_sorted_iff)

lemma map_of_append_right: "k \<notin> fst ` set xs \<Longrightarrow> map_of (xs @ ys) k = map_of ys k"
  by (simp add: map_of_eq_None_iff [symmetric] map_add_def)

lemma map_of_append_left: "k \<notin> fst ` set ys \<Longrightarrow> map_of (xs @ ys) k = map_of xs k"
  by (simp add: map_of_eq_None_iff [symmetric] map_add_def split: option.splits)

section \<open>Operations that either take effect or leave the abstract state alone\<close>

text \<open>Runs a sequence of fallible operations, going on after an error, and records the operations
  that succeeded.\<close>

fun run_ops :: "('op \<Rightarrow> 's \<Rightarrow> 's \<times> 'r result) \<Rightarrow> 'op list \<Rightarrow> 's \<Rightarrow> 's \<times> 'op list" where
  "run_ops step [] s = (s, [])"
| "run_ops step (x # xs) s =
     (case step x s of (s1, r) \<Rightarrow>
        (case run_ops step xs s1 of (s2, oks) \<Rightarrow> (s2, if isl r then oks else x # oks)))"

locale atomic_ops =
  fixes inv :: "'s \<Rightarrow> bool" and view :: "'s \<Rightarrow> 'v"
    and step :: "'op \<Rightarrow> 's \<Rightarrow> 's \<times> 'r result" and spec :: "'op \<Rightarrow> 'v \<Rightarrow> 'v"
  assumes step_ok: "inv s \<Longrightarrow> step x s = (s', Inr r) \<Longrightarrow> inv s' \<and> view s' = spec x (view s)"
    and step_err: "inv s \<Longrightarrow> step x s = (s', Inl e) \<Longrightarrow> inv s' \<and> view s' = view s \<and> e \<noteq> Panic"
begin

lemma run_ops_view:
  "inv s \<Longrightarrow> run_ops step xs s = (s', oks) \<Longrightarrow> inv s' \<and> view s' = fold spec oks (view s)"
proof (induction xs arbitrary: s s' oks)
  case (Cons x xs)
  obtain s1 r where st: "step x s = (s1, r)" by fastforce
  obtain s2 oks2 where rest: "run_ops step xs s1 = (s2, oks2)" by fastforce
  have s1: "inv s1 \<and> view s1 = (if isl r then view s else spec x (view s))"
  proof (cases r)
    case (Inl e)
    then show ?thesis using step_err [OF Cons.prems(1)] st by auto
  next
    case (Inr v)
    then show ?thesis using step_ok [OF Cons.prems(1)] st by auto
  qed
  moreover have "s' = s2" "oks = (if isl r then oks2 else x # oks2)" using Cons.prems(2) st rest by auto
  ultimately show ?case using Cons.IH [OF _ rest] by simp
qed simp

lemma no_panic: "inv s \<Longrightarrow> snd (step x s) \<noteq> Inl Panic"
  using step_err by (metis prod.collapse)

end

end
