(* ===== verification/Page.thy ===== *)
theory Page
  imports Prelude
begin

unbundle bit_operations_syntax

text \<open>
  The slotted page of \<open>bytedb-core/src/storage/page.rs\<close>: an array of 8192 bytes with a 32-byte
  header, a slot directory growing upwards from byte 32 and tuples growing downwards from the end.
  The operations work on the bytes exactly as the source does; a mutator returns the page it
  leaves behind together with its result, because \<open>update_slot\<close> can fail after it has compacted
  the page. \<open>page_wf\<close> is the representation invariant and \<open>slots\<close> the abstraction: the list of
  slot contents, \<open>None\<close> for a tombstone. Each operation is shown to keep \<open>page_wf\<close>, never to panic
  and to act on \<open>slots\<close> as append, overwrite or identity.
\<close>

section \<open>Layout\<close>

definition PAGE_SIZE :: nat where [simp]: "PAGE_SIZE = 8192"
definition PAGE_HEADER_SIZE :: nat where [simp]: "PAGE_HEADER_SIZE = 32"
definition SLOT_ENTRY_SIZE :: nat where [simp]: "SLOT_ENTRY_SIZE = 5"
definition SLOT_FLAG_DEAD :: u8 where "SLOT_FLAG_DEAD = 1"
definition PAGE_FORMAT_VERSION :: u16 where "PAGE_FORMAT_VERSION = 2"
definition INVALID_PAGE_ID :: u32 where "INVALID_PAGE_ID = 0"

datatype page_type = PtFree | PtData | PtBTreeInternal | PtBTreeLeaf | PtOverflow | PtFreeList | PtMeta

definition page_type_from :: "u8 \<Rightarrow> page_type" where
  "page_type_from v =
     (if v = 0 then PtFree else if v = 1 then PtData else if v = 2 then PtBTreeInternal
      else if v = 3 then PtBTreeLeaf else if v = 4 then PtOverflow else if v = 5 then PtFreeList
      else if v = 6 then PtMeta else PtFree)"

fun page_type_as_u8 :: "page_type \<Rightarrow> u8" where
  "page_type_as_u8 PtFree = 0"
| "page_type_as_u8 PtData = 1"
| "page_type_as_u8 PtBTreeInternal = 2"
| "page_type_as_u8 PtBTreeLeaf = 3"
| "page_type_as_u8 PtOverflow = 4"
| "page_type_as_u8 PtFreeList = 5"
| "page_type_as_u8 PtMeta = 6"

record slot_entry =
  se_offset :: u16
  se_length :: u16
  se_flags :: u8

definition slot_encode :: "slot_entry \<Rightarrow> bytes" where
  "slot_encode e = to_le (se_offset e) @ to_le (se_length e) @ [se_flags e]"

definition slot_decode :: "bytes \<Rightarrow> slot_entry" where
  "slot_decode b = \<lparr>se_offset = from_le (rd_range 0 2 b), se_length = from_le (rd_range 2 2 b), se_flags = b ! 4\<rparr>"

definition is_dead :: "slot_entry \<Rightarrow> bool" where
  "is_dead e \<longleftrightarrow> se_flags e AND SLOT_FLAG_DEAD \<noteq> 0"

record page =
  page_id :: u32
  pdata :: bytes

section \<open>Header fields\<close>

definition get16 :: "nat \<Rightarrow> page \<Rightarrow> u16" where
  "get16 off p = from_le (rd_range off 2 (pdata p))"

definition set_bytes :: "nat \<Rightarrow> bytes \<Rightarrow> page \<Rightarrow> page" where
  "set_bytes off b p = p\<lparr>pdata := wr_range off b (pdata p)\<rparr>"

definition page_type_of :: "page \<Rightarrow> page_type" where "page_type_of p = page_type_from (pdata p ! 4)"
definition set_page_type :: "page_type \<Rightarrow> page \<Rightarrow> page" where
  "set_page_type t p = set_bytes 4 [page_type_as_u8 t] p"
definition format_version :: "page \<Rightarrow> u8" where "format_version p = pdata p ! 5"
definition set_page_id :: "u32 \<Rightarrow> page \<Rightarrow> page" where
  "set_page_id i p = (set_bytes 0 (to_le i) p)\<lparr>page_id := i\<rparr>"
definition get_page_id :: "page \<Rightarrow> u32" where "get_page_id p = from_le (rd_range 0 4 (pdata p))"
definition page_lsn :: "page \<Rightarrow> u64" where "page_lsn p = from_le (rd_range 8 8 (pdata p))"
definition set_lsn :: "u64 \<Rightarrow> page \<Rightarrow> page" where "set_lsn l p = set_bytes 8 (to_le l) p"
definition page_checksum :: "page \<Rightarrow> u32" where "page_checksum p = from_le (rd_range 16 4 (pdata p))"
definition set_checksum :: "u32 \<Rightarrow> page \<Rightarrow> page" where "set_checksum c p = set_bytes 16 (to_le c) p"
definition slot_count :: "page \<Rightarrow> u16" where "slot_count p = get16 20 p"
definition set_slot_count :: "u16 \<Rightarrow> page \<Rightarrow> page" where "set_slot_count c p = set_bytes 20 (to_le c) p"
definition live_count :: "page \<Rightarrow> u16" where "live_count p = get16 22 p"
definition set_live_count :: "u16 \<Rightarrow> page \<Rightarrow> page" where "set_live_count c p = set_bytes 22 (to_le c) p"
definition free_start :: "page \<Rightarrow> u16" where "free_start p = get16 24 p"
definition set_free_start :: "u16 \<Rightarrow> page \<Rightarrow> page" where "set_free_start v p = set_bytes 24 (to_le v) p"
definition free_end :: "page \<Rightarrow> u16" where "free_end p = get16 26 p"
definition set_free_end :: "u16 \<Rightarrow> page \<Rightarrow> page" where "set_free_end v p = set_bytes 26 (to_le v) p"

text \<open>\<open>saturating_sub\<close> on \<open>u16\<close> is subtraction on \<open>nat\<close>.\<close>

definition free_space :: "page \<Rightarrow> nat" where
  "free_space p = unat (free_end p) - unat (free_start p)"

definition item_count :: "page \<Rightarrow> u16" where "item_count p = live_count p"

definition new_page :: "u32 \<Rightarrow> page" where
  "new_page i =
     (let p0 = \<lparr>page_id = i, pdata = replicate PAGE_SIZE 0\<rparr>;
          p1 = set_page_id i p0;
          p2 = set_bytes 5 [ucast PAGE_FORMAT_VERSION] p1;
          p3 = set_slot_count 0 p2;
          p4 = set_live_count 0 p3;
          p5 = set_free_start (of_nat PAGE_HEADER_SIZE) p4
      in set_free_end (of_nat PAGE_SIZE) p5)"

section \<open>The slot directory\<close>

definition slot_entry_offset :: "nat \<Rightarrow> nat" where
  "slot_entry_offset sid = PAGE_HEADER_SIZE + sid * SLOT_ENTRY_SIZE"

definition read_slot :: "page \<Rightarrow> u16 \<Rightarrow> slot_entry result" where
  "read_slot p sid =
     rbind (get_range (pdata p) (slot_entry_offset (unat sid)) SLOT_ENTRY_SIZE) (\<lambda>b. Inr (slot_decode b))"

definition write_slot :: "u16 \<Rightarrow> slot_entry \<Rightarrow> page \<Rightarrow> page result" where
  "write_slot sid e p =
     rbind (put_range (pdata p) (slot_entry_offset (unat sid)) (slot_encode e)) (\<lambda>b. Inr (p\<lparr>pdata := b\<rparr>))"

definition get_slot :: "page \<Rightarrow> u16 \<Rightarrow> bytes option result" where
  "get_slot p sid =
     (if slot_count p \<le> sid then Inr None
      else rbind (read_slot p sid) (\<lambda>e.
        if is_dead e then Inr None
        else let start = unat (se_offset e); endp = start + unat (se_length e)
             in if endp > PAGE_SIZE then Inr None
                else rbind (get_range (pdata p) start (unat (se_length e))) (\<lambda>b. Inr (Some b))))"

definition alloc_slot :: "bytes \<Rightarrow> page \<Rightarrow> page \<times> u16 result" where
  "alloc_slot d p =
     (if length d > 65535 then (p, Inl (Internal ''alloc_slot: tuple too large for page''))
      else if length d + SLOT_ENTRY_SIZE > free_space p
      then (p, Inl (Internal ''alloc_slot: not enough free space (caller should split)''))
      else
        let sid = slot_count p; tuple_off = free_end p - of_nat (length d) in
        case put_range (pdata p) (unat tuple_off) d of
          Inl e \<Rightarrow> (p, Inl e)
        | Inr b \<Rightarrow>
            let p1 = set_slot_count (sid + 1) (p\<lparr>pdata := b\<rparr>) in
            (case write_slot sid \<lparr>se_offset = tuple_off, se_length = of_nat (length d), se_flags = 0\<rparr> p1 of
               Inl e \<Rightarrow> (p1, Inl e)
             | Inr p2 \<Rightarrow>
                 let p3 = set_free_start (free_start p2 + of_nat SLOT_ENTRY_SIZE) p2;
                     p4 = set_free_end tuple_off p3
                 in (set_live_count (live_count p4 + 1) p4, Inr sid)))"

definition delete_slot :: "u16 \<Rightarrow> page \<Rightarrow> page \<times> unit result" where
  "delete_slot sid p =
     (if slot_count p \<le> sid then (p, Inl (Internal ''delete_slot: slot out of range''))
      else case read_slot p sid of
        Inl e \<Rightarrow> (p, Inl e)
      | Inr e \<Rightarrow>
          if is_dead e then (p, Inr ())
          else case write_slot sid (e\<lparr>se_flags := se_flags e OR SLOT_FLAG_DEAD\<rparr>) p of
            Inl er \<Rightarrow> (p, Inl er)
          | Inr p1 \<Rightarrow>
              let live = live_count p1
              in (if live > 0 then set_live_count (live - 1) p1 else p1, Inr ()))"

section \<open>Compaction\<close>

fun collect_live :: "page \<Rightarrow> u16 list \<Rightarrow> (u16 \<times> bytes) list result" where
  "collect_live p [] = Inr []"
| "collect_live p (i # ids) =
     rbind (read_slot p i) (\<lambda>e.
       if is_dead e then collect_live p ids
       else rbind (get_range (pdata p) (unat (se_offset e)) (unat (se_length e))) (\<lambda>b.
              rbind (collect_live p ids) (\<lambda>rest. Inr ((i, b) # rest))))"

fun place_live :: "(u16 \<times> bytes) list \<Rightarrow> nat \<Rightarrow> page \<Rightarrow> page \<times> nat result" where
  "place_live [] cursor p = (p, Inr cursor)"
| "place_live ((i, b) # rest) cursor p =
     (if cursor < length b then (p, Inl Panic)
      else
        let start = cursor - length b in
        case put_range (pdata p) start b of
          Inl e \<Rightarrow> (p, Inl e)
        | Inr d \<Rightarrow>
            let p1 = p\<lparr>pdata := d\<rparr> in
            (case read_slot p1 i of
               Inl e \<Rightarrow> (p1, Inl e)
             | Inr e \<Rightarrow>
                 (case write_slot i (e\<lparr>se_offset := of_nat start, se_length := of_nat (length b)\<rparr>) p1 of
                    Inl er \<Rightarrow> (p1, Inl er)
                  | Inr p2 \<Rightarrow> place_live rest start p2)))"

definition compact :: "page \<Rightarrow> page \<times> unit result" where
  "compact p =
     (let count = slot_count p;
          dir_end = PAGE_HEADER_SIZE + unat count * SLOT_ENTRY_SIZE;
          p1 = set_free_start (of_nat dir_end) p
      in if count = 0 then (set_free_end (of_nat PAGE_SIZE) p1, Inr ())
         else case collect_live p1 (map of_nat [0..<unat count]) of
           Inl e \<Rightarrow> (p1, Inl e)
         | Inr live \<Rightarrow>
             (case put_range (pdata p1) dir_end (replicate (PAGE_SIZE - dir_end) 0) of
                Inl e \<Rightarrow> (p1, Inl e)
              | Inr d \<Rightarrow>
                  (case place_live live PAGE_SIZE (p1\<lparr>pdata := d\<rparr>) of
                     (p2, Inl e) \<Rightarrow> (p2, Inl e)
                   | (p2, Inr cursor) \<Rightarrow> (set_free_end (of_nat cursor) p2, Inr ()))))"

definition update_slot :: "u16 \<Rightarrow> bytes \<Rightarrow> page \<Rightarrow> page \<times> unit result" where
  "update_slot sid d p =
     (if slot_count p \<le> sid then (p, Inl (Internal ''update_slot: slot out of range''))
      else case read_slot p sid of
        Inl er \<Rightarrow> (p, Inl er)
      | Inr e \<Rightarrow>
          if is_dead e then (p, Inl (Internal ''update_slot: slot is dead''))
          else if length d \<le> unat (se_length e) then
            (case put_range (pdata p) (unat (se_offset e)) d of
               Inl er \<Rightarrow> (p, Inl er)
             | Inr b \<Rightarrow>
                 (case write_slot sid \<lparr>se_offset = se_offset e, se_length = of_nat (length d),
                                        se_flags = se_flags e\<rparr> (p\<lparr>pdata := b\<rparr>) of
                    Inl er \<Rightarrow> (p, Inl er)
                  | Inr p1 \<Rightarrow> (p1, Inr ())))
          else
            (case (if length d > free_space p then compact p else (p, Inr ())) of
               (p1, Inl er) \<Rightarrow> (p1, Inl er)
             | (p1, Inr _) \<Rightarrow>
                 if length d > free_space p1
                 then (p1, Inl (Internal ''update_slot: not enough room even after compact''))
                 else
                   let new_off = free_end p1 - of_nat (length d) in
                   case put_range (pdata p1) (unat new_off) d of
                     Inl er \<Rightarrow> (p1, Inl er)
                   | Inr b \<Rightarrow>
                       let p2 = set_free_end new_off (p1\<lparr>pdata := b\<rparr>) in
                       (case write_slot sid \<lparr>se_offset = new_off, se_length = of_nat (length d),
                                              se_flags = se_flags e\<rparr> p2 of
                          Inl er \<Rightarrow> (p2, Inl er)
                        | Inr p3 \<Rightarrow> (p3, Inr ()))))"

definition iter_live :: "page \<Rightarrow> (u16 \<times> bytes) list" where
  "iter_live p =
     List.map_filter (\<lambda>i. case get_slot p i of Inr (Some d) \<Rightarrow> Some (i, d) | _ \<Rightarrow> None)
       (map of_nat [0..<unat (slot_count p)])"

definition body :: "page \<Rightarrow> bytes" where
  "body p = drop PAGE_HEADER_SIZE (pdata p)"

section \<open>Invariant and abstraction\<close>

text \<open>The directory entry read without bounds checks, for reasoning.\<close>

definition slot_at :: "page \<Rightarrow> nat \<Rightarrow> slot_entry" where
  "slot_at p i = slot_decode (rd_range (slot_entry_offset i) SLOT_ENTRY_SIZE (pdata p))"

abbreviation nslots :: "page \<Rightarrow> nat" where "nslots p \<equiv> unat (slot_count p)"
abbreviation slot_off :: "page \<Rightarrow> nat \<Rightarrow> nat" where "slot_off p i \<equiv> unat (se_offset (slot_at p i))"
abbreviation slot_len :: "page \<Rightarrow> nat \<Rightarrow> nat" where "slot_len p i \<equiv> unat (se_length (slot_at p i))"
abbreviation slot_live :: "page \<Rightarrow> nat \<Rightarrow> bool" where "slot_live p i \<equiv> i < nslots p \<and> \<not> is_dead (slot_at p i)"

definition page_wf :: "page \<Rightarrow> bool" where
  "page_wf p \<longleftrightarrow>
     length (pdata p) = 8192 \<and>
     unat (free_start p) = 32 + 5 * nslots p \<and>
     unat (free_start p) \<le> unat (free_end p) \<and> unat (free_end p) \<le> 8192 \<and>
     (\<forall>i. slot_live p i \<longrightarrow> unat (free_end p) \<le> slot_off p i \<and> slot_off p i + slot_len p i \<le> 8192) \<and>
     (\<forall>i j. slot_live p i \<and> slot_live p j \<and> i \<noteq> j \<longrightarrow> slot_off p i + slot_len p i \<le> slot_off p j \<or> slot_off p j + slot_len p j \<le> slot_off p i) \<and>
     unat (live_count p) = card {i. slot_live p i}"

definition slot_content :: "page \<Rightarrow> nat \<Rightarrow> bytes option" where
  "slot_content p i = (if is_dead (slot_at p i) then None else Some (rd_range (slot_off p i) (slot_len p i) (pdata p)))"

definition slots :: "page \<Rightarrow> bytes option list" where
  "slots p = map (slot_content p) [0..<nslots p]"

section \<open>Reading fields back after a write\<close>

named_theorems page_simps

lemmas header_defs = slot_count_def live_count_def free_start_def free_end_def get16_def
  set_slot_count_def set_live_count_def set_free_start_def set_free_end_def set_bytes_def

lemma length_slot_encode [simp]: "length (slot_encode e) = 5"
  by (simp add: slot_encode_def)

lemma slot_decode_encode [simp]: "slot_decode (slot_encode e) = e"
  by (simp add: slot_decode_def slot_encode_def rd_range_def nth_append)

lemma slot_at_splice_same [page_simps]:
  "length d = 8192 \<Longrightarrow> 32 + 5 * i + 5 \<le> 8192 \<Longrightarrow> a = 32 + i * 5 \<Longrightarrow>
   slot_at (p\<lparr>pdata := wr_range a (slot_encode e) d\<rparr>) i = e"
  by (simp add: slot_at_def slot_entry_offset_def byte_simps)

lemma slot_at_splice_other [page_simps]:
  "32 + i * 5 + 5 \<le> a \<or> a + length b \<le> 32 + i * 5 \<Longrightarrow> a + length b \<le> length d \<Longrightarrow>
   32 + i * 5 + 5 \<le> length d \<Longrightarrow>
   slot_at (p\<lparr>pdata := wr_range a b d\<rparr>) i = slot_at (p\<lparr>pdata := d\<rparr>) i"
  by (simp add: slot_at_def slot_entry_offset_def byte_simps)

lemma slot_at_splice_slot [page_simps]:
  "i \<noteq> k \<Longrightarrow> 32 + i * 5 + 5 \<le> length d \<Longrightarrow> 32 + k * 5 + 5 \<le> length d \<Longrightarrow>
   slot_at (p\<lparr>pdata := wr_range (32 + k * 5) (slot_encode e) d\<rparr>) i = slot_at (p\<lparr>pdata := d\<rparr>) i"
  by (rule slot_at_splice_other) auto

lemma get16_wr_same [page_simps]:
  "a + 2 \<le> length d \<Longrightarrow> get16 a (p\<lparr>pdata := wr_range a (to_le v) d\<rparr>) = v"
  by (simp add: get16_def byte_simps)

lemma get16_wr_other [page_simps]:
  "o1 + 2 \<le> a \<or> a + length b \<le> o1 \<Longrightarrow> a + length b \<le> length d \<Longrightarrow> o1 + 2 \<le> length d \<Longrightarrow>
   get16 o1 (p\<lparr>pdata := wr_range a b d\<rparr>) = get16 o1 (p\<lparr>pdata := d\<rparr>)"
  by (simp add: get16_def byte_simps)

lemma pdata_id [simp]: "p\<lparr>pdata := pdata p\<rparr> = p"
  by simp

lemma slot_at_page_id [simp]: "slot_at (p\<lparr>page_id := x\<rparr>) i = slot_at p i"
  by (simp add: slot_at_def)

lemma read_slot_ok:
  "length (pdata p) = 8192 \<Longrightarrow> 32 + 5 * unat i + 5 \<le> 8192 \<Longrightarrow> read_slot p i = Inr (slot_at p (unat i))"
  by (simp add: read_slot_def slot_at_def slot_entry_offset_def)

lemma write_slot_ok:
  "length (pdata p) = 8192 \<Longrightarrow> 32 + 5 * unat i + 5 \<le> 8192 \<Longrightarrow>
   write_slot i e p = Inr (p\<lparr>pdata := wr_range (32 + unat i * 5) (slot_encode e) (pdata p)\<rparr>)"
  by (simp add: write_slot_def slot_entry_offset_def)

lemma page_wfD:
  assumes "page_wf p"
  shows "length (pdata p) = 8192" and "unat (free_start p) = 32 + 5 * nslots p"
    and "unat (free_start p) \<le> unat (free_end p)" and "unat (free_end p) \<le> 8192"
    and "32 + 5 * nslots p \<le> unat (free_end p)"
    and "\<And>i. slot_live p i \<Longrightarrow> unat (free_end p) \<le> slot_off p i \<and> slot_off p i + slot_len p i \<le> 8192"
    and "\<And>i j. slot_live p i \<Longrightarrow> slot_live p j \<Longrightarrow> i \<noteq> j \<Longrightarrow>
      slot_off p i + slot_len p i \<le> slot_off p j \<or> slot_off p j + slot_len p j \<le> slot_off p i"
    and "unat (live_count p) = card {i. slot_live p i}"
  using assms unfolding page_wf_def by auto

lemma slot_in_dir: "page_wf p \<Longrightarrow> i < nslots p \<Longrightarrow> 32 + 5 * i + 5 \<le> unat (free_end p)"
  using page_wfD(5) [of p] by auto

section \<open>\<open>get_slot\<close> reads the abstract slot list\<close>

lemma length_slots [simp]: "length (slots p) = nslots p"
  by (simp add: slots_def)

lemma slots_nth [simp]: "i < nslots p \<Longrightarrow> slots p ! i = slot_content p i"
  by (simp add: slots_def)

lemma get_slot_slots:
  assumes wf: "page_wf p"
  shows "get_slot p sid = Inr (if unat sid < nslots p then slots p ! unat sid else None)"
proof (cases "unat sid < nslots p")
  case False
  then show ?thesis by (simp add: get_slot_def word_le_nat_alt)
next
  case True
  then have nle: "\<not> slot_count p \<le> sid" by (simp add: word_le_nat_alt)
  have rd: "read_slot p sid = Inr (slot_at p (unat sid))"
    using slot_in_dir [OF wf True] page_wfD [OF wf] by (intro read_slot_ok) auto
  show ?thesis
  proof (cases "is_dead (slot_at p (unat sid))")
    case True
    with nle rd \<open>unat sid < nslots p\<close> show ?thesis by (simp add: get_slot_def slot_content_def)
  next
    case False
    have "slot_off p (unat sid) + slot_len p (unat sid) \<le> 8192"
      using page_wfD(6) [OF wf] True False by blast
    with nle rd False True page_wfD(1) [OF wf] show ?thesis
      by (simp add: get_slot_def slot_content_def Let_def)
  qed
qed

section \<open>The fresh page\<close>

lemma new_page_fields:
  "length (pdata (new_page i)) = 8192" "slot_count (new_page i) = 0" "live_count (new_page i) = 0"
  "free_start (new_page i) = 32" "free_end (new_page i) = 8192" "get_page_id (new_page i) = i"
  "page_id (new_page i) = i"
  by (simp_all add: new_page_def header_defs set_page_id_def get_page_id_def Let_def byte_simps)

lemma new_page_wf: "page_wf (new_page i)"
  by (simp add: page_wf_def new_page_fields)

lemma new_page_slots: "slots (new_page i) = []"
  by (simp add: slots_def new_page_fields)

section \<open>\<open>alloc_slot\<close>\<close>

lemma is_dead_fresh [simp]: "\<not> is_dead \<lparr>se_offset = a, se_length = b, se_flags = 0\<rparr>"
  by (simp add: is_dead_def)

lemma free_space_wf: "page_wf p \<Longrightarrow> free_space p = unat (free_end p) - (32 + 5 * nslots p)"
  by (simp add: free_space_def page_wfD)

text \<open>The bytes of the page after a successful allocation, field by field.\<close>

lemma alloc_slot_view:
  assumes wf: "page_wf p" and fit: "length d + 5 \<le> free_space p"
  obtains p' where "alloc_slot d p = (p', Inr (slot_count p))"
    and "length (pdata p') = 8192" and "page_id p' = page_id p"
    and "nslots p' = Suc (nslots p)" and "live_count p' = live_count p + 1"
    and "unat (free_start p') = unat (free_start p) + 5"
    and "unat (free_end p') = unat (free_end p) - length d"
    and "slot_at p' (nslots p) =
      \<lparr>se_offset = free_end p - of_nat (length d), se_length = of_nat (length d), se_flags = 0\<rparr>"
    and "\<And>i. i < nslots p \<Longrightarrow> slot_at p' i = slot_at p i"
    and "rd_range (unat (free_end p) - length d) (length d) (pdata p') = d"
    and "\<And>a m. unat (free_end p) \<le> a \<Longrightarrow> a + m \<le> 8192 \<Longrightarrow> rd_range a m (pdata p') = rd_range a m (pdata p)"
proof -
  let ?n = "nslots p" and ?fe = "unat (free_end p)"
  have L: "length (pdata p) = 8192" and fe: "?fe \<le> 8192" and dir: "32 + 5 * ?n \<le> ?fe"
    and fs: "unat (free_start p) = 32 + 5 * ?n"
    using page_wfD [OF wf] by auto
  have room: "32 + 5 * ?n + 5 + length d \<le> ?fe"
    using fit dir by (simp add: free_space_wf [OF wf])
  have ld: "length d < 65536" using room fe by simp
  have uld: "unat (of_nat (length d) :: u16) = length d" using ld by (simp add: unat_of_nat)
  let ?t = "free_end p - of_nat (length d) :: u16"
  have ut: "unat ?t = ?fe - length d"
    using room by (subst unat_sub) (simp_all add: word_le_nat_alt uld)
  define d1 where "d1 = wr_range (unat ?t) d (pdata p)"
  define d2 where "d2 = wr_range 20 (to_le (slot_count p + 1)) d1"
  define e where "e = \<lparr>se_offset = ?t, se_length = of_nat (length d), se_flags = 0\<rparr>"
  define d3 where "d3 = wr_range (32 + ?n * 5) (slot_encode e) d2"
  define d4 where "d4 = wr_range 24 (to_le (free_start p + 5)) d3"
  define d5 where "d5 = wr_range 26 (to_le ?t) d4"
  define d6 where "d6 = wr_range 22 (to_le (live_count p + 1)) d5"
  have L1: "length d1 = 8192" using L room fe ut by (simp add: d1_def byte_simps)
  have L2: "length d2 = 8192" using L1 by (simp add: d2_def byte_simps)
  have L3: "length d3 = 8192" using L2 room fe by (simp add: d3_def byte_simps)
  have L4: "length d4 = 8192" using L3 by (simp add: d4_def byte_simps)
  have L5: "length d5 = 8192" using L4 by (simp add: d5_def byte_simps)
  have L6: "length d6 = 8192" using L5 by (simp add: d6_def byte_simps)
  note Ls = L L1 L2 L3 L4 L5 L6
  have far: "get16 o1 (p\<lparr>pdata := d3\<rparr>) = get16 o1 p" if "o1 = 22 \<or> o1 = 24" for o1
    using that room fe ut Ls unfolding d3_def d2_def d1_def by (auto simp: page_simps)
  have fs3: "free_start (p\<lparr>pdata := d3\<rparr>) = free_start p"
    using far [of 24] by (simp add: free_start_def)
  have lc5: "live_count (p\<lparr>pdata := d5\<rparr>) = live_count p"
    using far [of 22] Ls unfolding d5_def d4_def by (simp add: page_simps live_count_def)
  have run: "alloc_slot d p = (p\<lparr>pdata := d6\<rparr>, Inr (slot_count p))"
  proof -
    have "put_range (pdata p) (unat ?t) d = Inr d1"
      using L room fe ut by (simp add: d1_def)
    moreover have "write_slot (slot_count p) e (set_slot_count (slot_count p + 1) (p\<lparr>pdata := d1\<rparr>)) = Inr (p\<lparr>pdata := d3\<rparr>)"
      using room fe Ls by (subst write_slot_ok) (simp_all add: set_slot_count_def set_bytes_def d2_def d3_def)
    moreover have "set_free_end ?t (set_free_start (free_start p + 5) (p\<lparr>pdata := d3\<rparr>)) = p\<lparr>pdata := d5\<rparr>"
      by (simp add: set_free_end_def set_free_start_def set_bytes_def d4_def d5_def)
    ultimately show ?thesis
      using fit ld fs3 lc5
      by (simp add: alloc_slot_def Let_def e_def set_live_count_def set_bytes_def d6_def del: not_less)
  qed
  have sc: "slot_count (p\<lparr>pdata := d6\<rparr>) = slot_count p + 1"
    using Ls room fe unfolding d6_def d5_def d4_def d3_def d2_def by (simp add: slot_count_def page_simps)
  have fs: "free_start (p\<lparr>pdata := d6\<rparr>) = free_start p + 5"
    using Ls unfolding d6_def d5_def d4_def by (simp add: free_start_def page_simps)
  have fe6: "free_end (p\<lparr>pdata := d6\<rparr>) = ?t"
    using Ls unfolding d6_def d5_def by (simp add: free_end_def page_simps)
  have lc6: "live_count (p\<lparr>pdata := d6\<rparr>) = live_count p + 1"
    using Ls unfolding d6_def by (simp add: live_count_def page_simps)
  have new: "slot_at (p\<lparr>pdata := d6\<rparr>) ?n = e"
    using Ls room fe unfolding d6_def d5_def d4_def d3_def by (simp add: page_simps)
  have old: "slot_at (p\<lparr>pdata := d6\<rparr>) i = slot_at p i" if "i < ?n" for i
    using that Ls room fe ut unfolding d6_def d5_def d4_def d3_def d2_def d1_def by (simp add: page_simps)
  have rd6: "rd_range a m d6 = rd_range a m d1" if "32 + 5 * ?n + 5 \<le> a" "a + m \<le> 8192" for a m
    using that Ls room fe unfolding d6_def d5_def d4_def d3_def d2_def by (simp add: byte_simps)
  have rdt: "rd_range (?fe - length d) (length d) d6 = d"
    using room fe L ut by (subst rd6) (simp_all add: d1_def byte_simps)
  have rdo: "rd_range a m d6 = rd_range a m (pdata p)" if "?fe \<le> a" "a + m \<le> 8192" for a m
    using that room fe L ut by (subst rd6) (simp_all add: d1_def byte_simps)
  have us: "unat (slot_count p + 1) = Suc ?n"
    using room fe by (subst unat_word_ariths) simp
  have uf: "unat (free_start p + 5) = unat (free_start p) + 5"
    using room fe \<open>unat (free_start p) = _\<close> by (subst unat_word_ariths) simp
  show thesis
    by (rule that [OF run]) (use L6 sc fs fe6 lc6 new old rdt rdo us uf ut in \<open>auto simp: e_def\<close>)
qed

theorem alloc_slot_ok:
  assumes wf: "page_wf p" and fit: "length d + 5 \<le> free_space p"
  obtains p' where "alloc_slot d p = (p', Inr (slot_count p))" and "page_wf p'"
    and "slots p' = slots p @ [Some d]" and "free_space p' = free_space p - (length d + 5)"
proof -
  obtain p' where run: "alloc_slot d p = (p', Inr (slot_count p))"
    and L: "length (pdata p') = 8192" and n': "nslots p' = Suc (nslots p)"
    and lc: "live_count p' = live_count p + 1"
    and fs: "unat (free_start p') = unat (free_start p) + 5"
    and fe: "unat (free_end p') = unat (free_end p) - length d"
    and new: "slot_at p' (nslots p) =
      \<lparr>se_offset = free_end p - of_nat (length d), se_length = of_nat (length d), se_flags = 0\<rparr>"
    and old: "\<And>i. i < nslots p \<Longrightarrow> slot_at p' i = slot_at p i"
    and rdt: "rd_range (unat (free_end p) - length d) (length d) (pdata p') = d"
    and rdo: "\<And>a m. unat (free_end p) \<le> a \<Longrightarrow> a + m \<le> 8192 \<Longrightarrow> rd_range a m (pdata p') = rd_range a m (pdata p)"
    using alloc_slot_view [OF wf fit] by metis
  note W = page_wfD [OF wf]
  have room: "32 + 5 * nslots p + 5 + length d \<le> unat (free_end p)"
    using fit W(5) by (simp add: free_space_wf [OF wf])
  have uld: "unat (of_nat (length d) :: u16) = length d" using room W(4) by (simp add: unat_of_nat)
  have ut: "unat (free_end p - of_nat (length d)) = unat (free_end p) - length d"
    using room by (subst unat_sub) (simp_all add: word_le_nat_alt uld)
  have noff: "slot_off p' (nslots p) = unat (free_end p) - length d"
    and nlen: "slot_len p' (nslots p) = length d" and nlive: "\<not> is_dead (slot_at p' (nslots p))"
    by (simp_all add: new ut uld)
  have liveset: "{i. slot_live p' i} = insert (nslots p) {i. slot_live p i}"
    using n' nlive old by (auto simp: less_Suc_eq)
  have "card {i. slot_live p' i} = Suc (card {i. slot_live p i})"
    unfolding liveset by (subst card_insert_disjoint) auto
  moreover have "card {i. slot_live p i} \<le> nslots p"
    using card_mono [of "{..<nslots p}" "{i. slot_live p i}"] by auto
  then have "unat (live_count p + 1) = Suc (unat (live_count p))"
    using W(8) room W(4) by (subst unat_word_ariths) simp
  ultimately have lc': "unat (live_count p') = card {i. slot_live p' i}"
    using lc W(8) by simp
  have bnd: "unat (free_end p') \<le> slot_off p' i \<and> slot_off p' i + slot_len p' i \<le> 8192"
    if "slot_live p' i" for i
    using that W(4) W(6) [of i] fe n' noff nlen old [of i] room
    by (cases "i = nslots p") (auto simp: less_Suc_eq)
  have dis: "slot_off p' i + slot_len p' i \<le> slot_off p' j \<or> slot_off p' j + slot_len p' j \<le> slot_off p' i"
    if "slot_live p' i" "slot_live p' j" "i \<noteq> j" for i j
    using that W(6) [of i] W(6) [of j] W(7) [of i j] n' noff nlen old [of i] old [of j] room
    by (auto simp: less_Suc_eq)
  have wf': "page_wf p'"
    unfolding page_wf_def using L fs fe n' W room lc' bnd dis by auto
  have cont: "slot_content p' i = slot_content p i" if "i < nslots p" for i
    using that old [of i] W(6) [of i] rdo by (auto simp: slot_content_def)
  have "slots p' = slots p @ [Some d]"
    unfolding slots_def n' using cont nlive noff nlen rdt
    by (simp add: slot_content_def)
  moreover have "free_space p' = free_space p - (length d + 5)"
    using fs fe room by (simp add: free_space_def)
  ultimately show thesis using that run wf' by blast
qed

lemma alloc_slot_full:
  assumes "length d + 5 > free_space p"
  shows "\<exists>m. alloc_slot d p = (p, Inl (Internal m))"
  using assms by (auto simp: alloc_slot_def)

section \<open>\<open>delete_slot\<close>\<close>

lemma is_dead_marked [simp]: "is_dead (e\<lparr>se_flags := se_flags e OR SLOT_FLAG_DEAD\<rparr>)"
proof -
  have "bit ((se_flags e OR 1) AND 1) 0" by (simp add: bit_simps)
  then have "(se_flags e OR 1) AND 1 \<noteq> 0" by (metis bit_0_eq bot_apply bot_bool_def)
  then show ?thesis by (simp add: is_dead_def SLOT_FLAG_DEAD_def)
qed

lemma slots_eqI:
  assumes "nslots p' = length xs" and "\<And>i. i < length xs \<Longrightarrow> slot_content p' i = xs ! i"
  shows "slots p' = xs"
  using assms by (intro nth_equalityI) auto

lemma delete_slot_live_view:
  assumes wf: "page_wf p" and k: "unat sid < nslots p" and live: "\<not> is_dead (slot_at p (unat sid))"
  obtains p' where "delete_slot sid p = (p', Inr ())"
    and "length (pdata p') = 8192" and "slot_count p' = slot_count p"
    and "free_start p' = free_start p" and "free_end p' = free_end p"
    and "unat (live_count p') = unat (live_count p) - 1"
    and "is_dead (slot_at p' (unat sid))"
    and "\<And>i. i < nslots p \<Longrightarrow> i \<noteq> unat sid \<Longrightarrow> slot_at p' i = slot_at p i"
    and "\<And>a m. unat (free_end p) \<le> a \<Longrightarrow> a + m \<le> 8192 \<Longrightarrow> rd_range a m (pdata p') = rd_range a m (pdata p)"
proof -
  note W = page_wfD [OF wf]
  let ?k = "unat sid"
  let ?e = "(slot_at p ?k)\<lparr>se_flags := se_flags (slot_at p ?k) OR SLOT_FLAG_DEAD\<rparr>"
  have room: "32 + 5 * ?k + 5 \<le> unat (free_end p)" by (rule slot_in_dir [OF wf k])
  define d1 where "d1 = wr_range (32 + ?k * 5) (slot_encode ?e) (pdata p)"
  define d2 where "d2 = wr_range 22 (to_le (live_count p - 1)) d1"
  have L1: "length d1 = 8192" using W(1,4) room by (simp add: d1_def byte_simps)
  have L2: "length d2 = 8192" using L1 by (simp add: d2_def byte_simps)
  have card: "card {i. slot_live p i} > 0"
    using k live by (subst card_gt_0_iff) auto
  then have pos: "live_count p > 0" using W(8) by (simp add: word_less_nat_alt)
  have lc1: "live_count (p\<lparr>pdata := d1\<rparr>) = live_count p"
    using W(1,4) room by (simp add: live_count_def d1_def page_simps)
  have "read_slot p sid = Inr (slot_at p ?k)"
    using room W(1,4) by (intro read_slot_ok) auto
  moreover have "write_slot sid ?e p = Inr (p\<lparr>pdata := d1\<rparr>)"
    unfolding d1_def using room W(1,4) by (intro write_slot_ok) auto
  ultimately have run: "delete_slot sid p = (p\<lparr>pdata := d2\<rparr>, Inr ())"
    using k live lc1 pos
    by (simp add: delete_slot_def word_le_nat_alt Let_def set_live_count_def set_bytes_def d2_def)
  have lc2: "live_count (p\<lparr>pdata := d2\<rparr>) = live_count p - 1"
    using L1 by (simp add: live_count_def d2_def page_simps)
  have ulc: "unat (live_count p - 1) = unat (live_count p) - 1"
    using pos by (simp add: unat_minus_one word_greater_zero_iff)
  show thesis
    by (rule that [OF run])
       (use L1 L2 W(1,4,5) room lc2 ulc in
         \<open>auto simp: d1_def d2_def page_simps byte_simps slot_count_def free_start_def free_end_def\<close>)
qed

theorem delete_slot_ok:
  assumes wf: "page_wf p" and k: "unat sid < nslots p"
  obtains p' where "delete_slot sid p = (p', Inr ())" and "page_wf p'"
    and "slots p' = (slots p)[unat sid := None]"
proof (cases "is_dead (slot_at p (unat sid))")
  case True
  have "read_slot p sid = Inr (slot_at p (unat sid))"
    using slot_in_dir [OF wf k] page_wfD(1,4) [OF wf] by (intro read_slot_ok) auto
  with True k have "delete_slot sid p = (p, Inr ())"
    by (simp add: delete_slot_def word_le_nat_alt)
  moreover have "slots p = (slots p)[unat sid := None]"
    using True k by (simp add: list_eq_iff_nth_eq nth_list_update slot_content_def)
  ultimately show thesis using that wf by blast
next
  case False
  note W = page_wfD [OF wf]
  obtain p' where run: "delete_slot sid p = (p', Inr ())"
    and L: "length (pdata p') = 8192" and sc: "slot_count p' = slot_count p"
    and fs: "free_start p' = free_start p" and fe: "free_end p' = free_end p"
    and lc: "unat (live_count p') = unat (live_count p) - 1"
    and dead: "is_dead (slot_at p' (unat sid))"
    and other: "\<And>i. i < nslots p \<Longrightarrow> i \<noteq> unat sid \<Longrightarrow> slot_at p' i = slot_at p i"
    and rd: "\<And>a m. unat (free_end p) \<le> a \<Longrightarrow> a + m \<le> 8192 \<Longrightarrow> rd_range a m (pdata p') = rd_range a m (pdata p)"
    using delete_slot_live_view [OF wf k False] by metis
  have liveset: "slot_live p' i \<longleftrightarrow> slot_live p i \<and> i \<noteq> unat sid" for i
    using dead other [of i] by (cases "i = unat sid") (auto simp: sc)
  then have "{i. slot_live p' i} = {i. slot_live p i} - {unat sid}" by auto
  then have card: "card {i. slot_live p' i} = card {i. slot_live p i} - 1"
    using k False by (simp add: card_Diff_singleton)
  have wf': "page_wf p'"
    unfolding page_wf_def
  proof (intro conjI allI impI)
    fix i assume "slot_live p' i"
    then show "unat (free_end p') \<le> slot_off p' i" and "slot_off p' i + slot_len p' i \<le> 8192"
      using liveset other [of i] W(6) [of i] fe by auto
  next
    fix i j assume "slot_live p' i \<and> slot_live p' j \<and> i \<noteq> j"
    then show "slot_off p' i + slot_len p' i \<le> slot_off p' j \<or> slot_off p' j + slot_len p' j \<le> slot_off p' i"
      using liveset other [of i] other [of j] W(7) [of i j] by auto
  qed (use L fs fe sc W lc card in auto)
  have "slots p' = (slots p)[unat sid := None]"
    using k sc dead other rd W(6)
    by (intro slots_eqI) (auto simp: nth_list_update slot_content_def)
  then show thesis using that run wf' by blast
qed

section \<open>Overwriting one slot\<close>

text \<open>
  What \<open>update_slot\<close> relies on in both of its branches: one live slot is pointed at a region that
  is either its own or was free, and every other slot keeps its entry and its bytes.
\<close>

lemma overwrite_slot:
  assumes wf: "page_wf p" and k: "k < nslots p" and klive: "\<not> is_dead (slot_at p k)"
    and L: "length (pdata p') = 8192" and sc: "slot_count p' = slot_count p"
    and fs: "free_start p' = free_start p" and lc: "live_count p' = live_count p"
    and fe: "unat (free_start p) \<le> unat (free_end p')" "unat (free_end p') \<le> unat (free_end p)"
    and klive': "\<not> is_dead (slot_at p' k)"
    and kpos: "unat (free_end p') \<le> slot_off p' k \<and> slot_off p' k + slot_len p' k \<le> unat (free_end p)
      \<or> slot_off p' k = slot_off p k \<and> slot_len p' k \<le> slot_len p k"
    and kd: "rd_range (slot_off p' k) (slot_len p' k) (pdata p') = d"
    and other: "\<And>i. i < nslots p \<Longrightarrow> i \<noteq> k \<Longrightarrow> slot_at p' i = slot_at p i"
    and rd: "\<And>i. slot_live p i \<Longrightarrow> i \<noteq> k \<Longrightarrow>
      rd_range (slot_off p i) (slot_len p i) (pdata p') = rd_range (slot_off p i) (slot_len p i) (pdata p)"
  shows "page_wf p'" and "slots p' = (slots p)[k := Some d]"
proof -
  note W = page_wfD [OF wf]
  have liveset: "slot_live p' i \<longleftrightarrow> slot_live p i" for i
    using klive klive' other [of i] by (cases "i = k") (auto simp: sc)
  have bk: "unat (free_end p') \<le> slot_off p' k \<and> slot_off p' k + slot_len p' k \<le> 8192"
    using kpos W(4) W(6) [of k] k klive fe by auto
  have dk: "slot_off p' k + slot_len p' k \<le> slot_off p j \<or> slot_off p j + slot_len p j \<le> slot_off p' k"
    if "slot_live p j" "j \<noteq> k" for j
    using kpos W(6) [of j] W(7) [of k j] k klive that by auto
  show "page_wf p'"
    unfolding page_wf_def
  proof (intro conjI allI impI)
    fix i assume "slot_live p' i"
    then show "unat (free_end p') \<le> slot_off p' i" and "slot_off p' i + slot_len p' i \<le> 8192"
      using liveset other [of i] W(6) [of i] fe bk by (cases "i = k"; auto)+
  next
    fix i j assume a: "slot_live p' i \<and> slot_live p' j \<and> i \<noteq> j"
    then show "slot_off p' i + slot_len p' i \<le> slot_off p' j \<or> slot_off p' j + slot_len p' j \<le> slot_off p' i"
      using liveset other [of i] other [of j] W(7) [of i j] dk [of i] dk [of j]
      by (cases "i = k"; cases "j = k") auto
  qed (use L fs fe sc lc W liveset in auto)
  show "slots p' = (slots p)[k := Some d]"
    using k sc klive' other rd kd
    by (intro slots_eqI) (auto simp: nth_list_update slot_content_def)
qed

section \<open>Compaction keeps every slot\<close>

definition total_len :: "('a \<times> bytes) list \<Rightarrow> nat" where
  "total_len L = sum_list (map (length \<circ> snd) L)"

lemma total_len_simps [simp]: "total_len [] = 0" "total_len ((i, b) # L) = length b + total_len L"
  by (simp_all add: total_len_def)

text \<open>\<open>placed L dir c q q'\<close>: page \<open>q'\<close> is \<open>q\<close> with the tuples \<open>L\<close> packed downwards from \<open>c\<close>.\<close>

definition placed :: "(u16 \<times> bytes) list \<Rightarrow> nat \<Rightarrow> nat \<Rightarrow> page \<Rightarrow> page \<Rightarrow> bool" where
  "placed L dir c q q' \<longleftrightarrow>
     length (pdata q') = 8192 \<and> page_id q' = page_id q \<and>
     (\<forall>o1. o1 + 2 \<le> 32 \<longrightarrow> get16 o1 q' = get16 o1 q) \<and>
     (\<forall>i. i \<notin> (unat \<circ> fst) ` set L \<and> 32 + 5 * i + 5 \<le> dir \<longrightarrow> slot_at q' i = slot_at q i) \<and>
     (\<forall>i b. (i, b) \<in> set L \<longrightarrow>
        se_flags (slot_at q' (unat i)) = se_flags (slot_at q (unat i)) \<and> slot_len q' (unat i) = length b \<and>
        c - total_len L \<le> slot_off q' (unat i) \<and> slot_off q' (unat i) + length b \<le> c \<and>
        rd_range (slot_off q' (unat i)) (length b) (pdata q') = b) \<and>
     (\<forall>i b j b'. (i, b) \<in> set L \<and> (j, b') \<in> set L \<and> i \<noteq> j \<longrightarrow>
        slot_off q' (unat i) + length b \<le> slot_off q' (unat j) \<or>
        slot_off q' (unat j) + length b' \<le> slot_off q' (unat i)) \<and>
     (\<forall>a m. c \<le> a \<and> a + m \<le> 8192 \<longrightarrow> rd_range a m (pdata q') = rd_range a m (pdata q))"

lemma place_step:
  assumes L: "length (pdata q) = 8192" and i: "32 + 5 * unat i + 5 \<le> dir"
    and c: "dir + length b \<le> c" "c \<le> 8192"
  defines "start \<equiv> c - length b"
  obtains q2 where "place_live ((i, b) # rest) c q = place_live rest start q2"
    and "length (pdata q2) = 8192" and "page_id q2 = page_id q"
    and "\<And>o1. o1 + 2 \<le> 32 \<Longrightarrow> get16 o1 q2 = get16 o1 q"
    and "\<And>j. j \<noteq> unat i \<Longrightarrow> 32 + 5 * j + 5 \<le> dir \<Longrightarrow> slot_at q2 j = slot_at q j"
    and "slot_at q2 (unat i) = (slot_at q (unat i))\<lparr>se_offset := of_nat start, se_length := of_nat (length b)\<rparr>"
    and "rd_range start (length b) (pdata q2) = b"
    and "\<And>a m. c \<le> a \<Longrightarrow> a + m \<le> 8192 \<Longrightarrow> rd_range a m (pdata q2) = rd_range a m (pdata q)"
proof -
  have st: "dir \<le> start" "start + length b = c" using c by (simp_all add: start_def)
  define d1 where "d1 = wr_range start b (pdata q)"
  let ?e = "(slot_at q (unat i))\<lparr>se_offset := of_nat start, se_length := of_nat (length b)\<rparr>"
  define d2 where "d2 = wr_range (32 + unat i * 5) (slot_encode ?e) d1"
  have L1: "length d1 = 8192" using L c st by (simp add: d1_def byte_simps)
  have L2: "length d2 = 8192" using L1 i c st by (simp add: d2_def byte_simps)
  have pr: "put_range (pdata q) start b = Inr d1" using L c st by (simp add: d1_def)
  have "slot_at (q\<lparr>pdata := d1\<rparr>) (unat i) = slot_at q (unat i)"
    using L c st i unfolding d1_def by (simp add: page_simps)
  then have rs: "read_slot (q\<lparr>pdata := d1\<rparr>) i = Inr (slot_at q (unat i))"
    using L1 i c st by (subst read_slot_ok) auto
  have ws: "write_slot i ?e (q\<lparr>pdata := d1\<rparr>) = Inr (q\<lparr>pdata := d2\<rparr>)"
    unfolding d2_def using L1 i c st by (subst write_slot_ok) auto
  have run: "place_live ((i, b) # rest) c q = place_live rest start (q\<lparr>pdata := d2\<rparr>)"
    using c pr rs ws by (simp add: start_def [symmetric] Let_def)
  have f1: "get16 o1 (q\<lparr>pdata := d2\<rparr>) = get16 o1 q" if "o1 + 2 \<le> 32" for o1
    using that L L1 i c st unfolding d2_def d1_def by (simp add: page_simps)
  have f2: "slot_at (q\<lparr>pdata := d2\<rparr>) j = slot_at q j" if "j \<noteq> unat i" "32 + 5 * j + 5 \<le> dir" for j
    using that L L1 i c st unfolding d2_def d1_def by (simp add: page_simps)
  have f3: "slot_at (q\<lparr>pdata := d2\<rparr>) (unat i) = ?e"
    using L L1 i c st unfolding d2_def by (simp add: page_simps)
  have f4: "rd_range start (length b) d2 = b"
    using L L1 i c st unfolding d2_def d1_def by (simp add: byte_simps)
  have f5: "rd_range a m d2 = rd_range a m (pdata q)" if "c \<le> a" "a + m \<le> 8192" for a m
    using that L L1 i c st unfolding d2_def d1_def by (simp add: byte_simps)
  show thesis by (rule that [OF run]) (use L2 f1 f2 f3 f4 f5 in auto)
qed

lemma place_live_ok:
  assumes "length (pdata q) = 8192" and "distinct (map fst L)"
    and "\<forall>(i, b) \<in> set L. 32 + 5 * unat i + 5 \<le> dir" and "dir + total_len L \<le> c" and "c \<le> 8192"
  shows "\<exists>q'. place_live L c q = (q', Inr (c - total_len L)) \<and> placed L dir c q q'"
  using assms
proof (induction L arbitrary: c q)
  case Nil
  then show ?case by (simp add: placed_def)
next
  case (Cons x L)
  obtain i b where x: "x = (i, b)" by (cases x)
  have i: "32 + 5 * unat i + 5 \<le> dir" and c: "dir + length b \<le> c" "c \<le> 8192"
    and inL: "i \<notin> fst ` set L" using Cons.prems x by auto
  let ?s = "c - length b"
  obtain q2 where run: "place_live ((i, b) # L) c q = place_live L ?s q2"
    and L2: "length (pdata q2) = 8192" and id2: "page_id q2 = page_id q"
    and h2: "\<And>o1. o1 + 2 \<le> 32 \<Longrightarrow> get16 o1 q2 = get16 o1 q"
    and o2: "\<And>j. j \<noteq> unat i \<Longrightarrow> 32 + 5 * j + 5 \<le> dir \<Longrightarrow> slot_at q2 j = slot_at q j"
    and e2: "slot_at q2 (unat i) = (slot_at q (unat i))\<lparr>se_offset := of_nat ?s, se_length := of_nat (length b)\<rparr>"
    and b2: "rd_range ?s (length b) (pdata q2) = b"
    and a2: "\<And>a m. c \<le> a \<Longrightarrow> a + m \<le> 8192 \<Longrightarrow> rd_range a m (pdata q2) = rd_range a m (pdata q)"
    by (rule place_step [OF Cons.prems(1) i c]) blast
  have "\<exists>q'. place_live L ?s q2 = (q', Inr (?s - total_len L)) \<and> placed L dir ?s q2 q'"
    using Cons.prems x L2 by (intro Cons.IH) auto
  then obtain q' where run': "place_live L ?s q2 = (q', Inr (?s - total_len L))"
    and P: "placed L dir ?s q2 q'" by blast
  have ni: "unat i \<notin> (unat \<circ> fst) ` set L"
    using inL by (force simp: image_iff word_unat_eq_iff)
  have ei: "slot_at q' (unat i) = slot_at q2 (unat i)"
    using P ni i by (auto simp: placed_def)
  have uo: "slot_off q' (unat i) = ?s" and ul: "slot_len q' (unat i) = length b"
    using c by (simp_all add: ei e2 unat_of_nat del: of_nat_diff)
  have bi: "rd_range ?s (length b) (pdata q') = b"
    using P b2 c by (auto simp: placed_def)
  have tl: "total_len ((i, b) # L) = length b + total_len L" by simp
  have nj: "unat j \<noteq> unat i" "32 + 5 * unat j + 5 \<le> dir" if "(j, b') \<in> set L" for j b'
    using that inL Cons.prems(3) by (force simp: word_unat_eq_iff [symmetric])+
  have low: "slot_off q' (unat l) + length bl \<le> ?s" if "(l, bl) \<in> set L" for l bl
    using that P by (auto simp: placed_def)
  have dj: "slot_off q' (unat j) + length b1 \<le> slot_off q' (unat k) \<or>
      slot_off q' (unat k) + length b2 \<le> slot_off q' (unat j)"
    if "(j, b1) \<in> set L" "(k, b2) \<in> set L" "j \<noteq> k" for j b1 k b2
    using that P unfolding placed_def by blast
  have "placed ((i, b) # L) dir c q q'"
    unfolding placed_def
  proof (intro conjI allI impI)
    fix j b' assume m: "(j, b') \<in> set ((i, b) # L)"
    show "se_flags (slot_at q' (unat j)) = se_flags (slot_at q (unat j))"
      using m P ei e2 o2 nj by (auto simp: placed_def)
    show "slot_len q' (unat j) = length b'" using m P ul by (auto simp: placed_def)
    show "c - total_len ((i, b) # L) \<le> slot_off q' (unat j)"
      using m P uo by (auto simp: placed_def)
    show "slot_off q' (unat j) + length b' \<le> c"
      using m uo c low [of j b'] by auto
    show "rd_range (slot_off q' (unat j)) (length b') (pdata q') = b'"
      using m P uo bi by (auto simp: placed_def)
  next
    fix j b1 k b2
    assume m: "(j, b1) \<in> set ((i, b) # L) \<and> (k, b2) \<in> set ((i, b) # L) \<and> j \<noteq> k"
    show "slot_off q' (unat j) + length b1 \<le> slot_off q' (unat k) \<or>
          slot_off q' (unat k) + length b2 \<le> slot_off q' (unat j)"
      using m uo low [of j b1] low [of k b2] dj [of j b1 k b2] by auto
  qed (use P h2 o2 a2 id2 c in \<open>auto simp: placed_def\<close>)
  with run run' x show ?case by simp
qed

text \<open>Disjoint regions inside \<open>[lo, 8192)\<close> add up to at most its length.\<close>

lemma sum_disjoint_regions:
  fixes f g :: "nat \<Rightarrow> nat"
  assumes "finite S" and "\<And>i. i \<in> S \<Longrightarrow> lo \<le> f i \<and> f i + g i \<le> hi"
    and "\<And>i j. i \<in> S \<Longrightarrow> j \<in> S \<Longrightarrow> i \<noteq> j \<Longrightarrow> f i + g i \<le> f j \<or> f j + g j \<le> f i"
  shows "sum g S \<le> hi - lo"
proof -
  have "sum g S = (\<Sum>i\<in>S. card {f i..<f i + g i})" by simp
  also have "\<dots> = card (\<Union>i\<in>S. {f i..<f i + g i})"
    using assms(1,3) by (intro card_UN_disjoint [symmetric]) (auto, fastforce)
  also have "\<dots> \<le> card {lo..<hi}"
    using assms(2) by (intro card_mono) fastforce+
  finally show ?thesis by simp
qed

definition live_list :: "page \<Rightarrow> (u16 \<times> bytes) list" where
  "live_list p = map (\<lambda>i. (i, rd_range (slot_off p (unat i)) (slot_len p (unat i)) (pdata p)))
     (filter (\<lambda>i. \<not> is_dead (slot_at p (unat i))) (map of_nat [0..<nslots p]))"

lemma collect_live_ok:
  assumes "length (pdata p) = 8192"
    and "\<forall>i \<in> set ids. 32 + 5 * unat i + 5 \<le> 8192 \<and>
      (\<not> is_dead (slot_at p (unat i)) \<longrightarrow> slot_off p (unat i) + slot_len p (unat i) \<le> 8192)"
  shows "collect_live p ids =
    Inr (map (\<lambda>i. (i, rd_range (slot_off p (unat i)) (slot_len p (unat i)) (pdata p)))
      (filter (\<lambda>i. \<not> is_dead (slot_at p (unat i))) ids))"
  using assms by (induction ids) (auto simp: read_slot_ok)

lemma live_list_set:
  assumes "nslots p \<le> 65535"
  shows "(i, b) \<in> set (live_list p) \<longleftrightarrow>
    slot_live p (unat i) \<and> b = rd_range (slot_off p (unat i)) (slot_len p (unat i)) (pdata p)"
proof -
  have "i \<in> of_nat ` {0..<nslots p} \<longleftrightarrow> unat i < nslots p"
  proof
    assume "unat i < nslots p"
    then show "i \<in> of_nat ` {0..<nslots p}" by (intro image_eqI [of _ _ "unat i"]) auto
  qed (use assms in \<open>auto simp: unat_of_nat\<close>)
  then show ?thesis by (auto simp: live_list_def)
qed

lemma live_list_distinct: "nslots p \<le> 65535 \<Longrightarrow> distinct (map fst (live_list p))"
  by (auto simp: live_list_def comp_def distinct_map inj_on_def word_unat_eq_iff unat_of_nat
      intro!: distinct_filter)

lemma live_list_total:
  assumes "nslots p \<le> 65535" and "length (pdata p) = 8192"
    and "\<And>i. slot_live p i \<Longrightarrow> slot_off p i + slot_len p i \<le> 8192"
  shows "total_len (live_list p) = (\<Sum>i | slot_live p i. slot_len p i)"
proof -
  have "total_len (live_list p) =
      sum_list (map (slot_len p) (filter (\<lambda>i. \<not> is_dead (slot_at p i)) [0..<nslots p]))"
    unfolding total_len_def live_list_def filter_map map_map
    using assms by (intro arg_cong [of _ _ sum_list] map_cong filter_cong)
      (auto simp: unat_of_nat comp_def length_rd_range)
  also have "\<dots> = (\<Sum>i \<in> {i. slot_live p i}. slot_len p i)"
    by (subst sum_list_distinct_conv_sum_set) (auto intro: sum.cong)
  finally show ?thesis .
qed

lemma wr_rd_id: "a + n \<le> length xs \<Longrightarrow> wr_range a (rd_range a n xs) xs = xs"
  by (simp add: wr_range_def rd_range_def) (metis append_take_drop_id drop_drop add.commute)

lemma set_free_start_id: "length (pdata p) = 8192 \<Longrightarrow> set_free_start (free_start p) p = p"
proof -
  assume L: "length (pdata p) = 8192"
  have "to_le (free_start p) = rd_range 24 2 (pdata p)"
    unfolding free_start_def get16_def using L by (intro to_le_from_le) (simp add: length_rd_range)
  then show ?thesis
    using L by (simp add: set_free_start_def set_bytes_def wr_rd_id)
qed

lemma live_len_bound: "page_wf p \<Longrightarrow> (\<Sum>i | slot_live p i. slot_len p i) \<le> 8192 - unat (free_end p)"
  by (rule sum_disjoint_regions [where f = "slot_off p"]) (auto dest: page_wfD(6,7))

lemma compact_run:
  assumes wf: "page_wf p" and n0: "slot_count p \<noteq> 0"
  defines "T \<equiv> \<Sum>i | slot_live p i. slot_len p i"
  obtains q q' where "compact p = (set_free_end (of_nat (8192 - T)) q', Inr ())"
    and "placed (live_list p) (32 + 5 * nslots p) 8192 q q'"
    and "\<And>o1. o1 + 2 \<le> 32 \<Longrightarrow> get16 o1 q = get16 o1 p"
    and "\<And>i. i < nslots p \<Longrightarrow> slot_at q i = slot_at p i"
    and "32 + 5 * nslots p + T \<le> 8192"
proof -
  note W = page_wfD [OF wf]
  let ?dir = "32 + 5 * nslots p"
  have n16: "nslots p \<le> 65535" using W(4,5) by simp
  have dir: "?dir \<le> 8192" using W(4,5) by simp
  have T: "total_len (live_list p) = T"
    unfolding T_def using W(6) by (intro live_list_total [OF n16 W(1)]) auto
  have TB: "?dir + T \<le> 8192" using live_len_bound [OF wf] W(4,5) by (simp add: T_def)
  have "of_nat (32 + nslots p * 5) = (of_nat (unat (free_start p)) :: u16)"
    using W(2) by (simp add: mult.commute)
  then have "of_nat (32 + nslots p * 5) = free_start p" by simp
  then have p1: "set_free_start (of_nat (32 + nslots p * 5)) p = p"
    by (simp only: set_free_start_id [OF W(1)])
  have col: "collect_live p (map of_nat [0..<nslots p]) = Inr (live_list p)"
    unfolding live_list_def using n16 dir W(6) by (intro collect_live_ok [OF W(1)]) (auto simp: unat_of_nat)
  define d where "d = wr_range ?dir (replicate (8192 - ?dir) 0) (pdata p)"
  let ?q = "p\<lparr>pdata := d\<rparr>"
  have L: "length d = 8192" using W(1) dir by (simp add: d_def byte_simps)
  have "\<exists>q'. place_live (live_list p) 8192 ?q = (q', Inr (8192 - total_len (live_list p))) \<and>
      placed (live_list p) ?dir 8192 ?q q'"
    using L TB T live_list_distinct [OF n16] live_list_set [OF n16]
    by (intro place_live_ok) auto
  then obtain q' where q': "place_live (live_list p) 8192 ?q = (q', Inr (8192 - T))"
    and P: "placed (live_list p) ?dir 8192 ?q q'" unfolding T by blast
  have "put_range (pdata p) (32 + nslots p * 5) (replicate (8192 - (32 + nslots p * 5)) 0) = Inr d"
    using W(1) dir by (simp add: d_def mult.commute)
  then have run: "compact p = (set_free_end (of_nat (8192 - T)) q', Inr ())"
    using n0 p1 col q' by (simp add: compact_def Let_def)
  show thesis
    by (rule that [OF run P]) (use W(1) dir TB in \<open>auto simp: d_def page_simps\<close>)
qed

lemma set_free_end_view:
  assumes L: "length (pdata q) = 8192"
  shows "length (pdata (set_free_end v q)) = 8192" and "slot_count (set_free_end v q) = slot_count q"
    and "free_start (set_free_end v q) = free_start q" and "live_count (set_free_end v q) = live_count q"
    and "free_end (set_free_end v q) = v"
    and "32 + 5 * i + 5 \<le> 8192 \<Longrightarrow> slot_at (set_free_end v q) i = slot_at q i"
    and "32 \<le> a \<Longrightarrow> a + m \<le> 8192 \<Longrightarrow> rd_range a m (pdata (set_free_end v q)) = rd_range a m (pdata q)"
  using L by (simp_all add: set_free_end_def set_bytes_def slot_count_def free_start_def live_count_def
      free_end_def page_simps byte_simps)

lemma compact_empty:
  assumes wf: "page_wf p" and n0: "slot_count p = 0"
  obtains p' where "compact p = (p', Inr ())" and "page_wf p'" and "slots p' = slots p"
    and "free_space p' = 8192 - 32" and "slot_count p' = slot_count p"
proof -
  note W = page_wfD [OF wf]
  have fs: "free_start p = 32"
    using W(2) n0 by (simp add: word_unat_eq_iff)
  then have p1: "set_free_start 32 p = p" using set_free_start_id [OF W(1)] by simp
  let ?p' = "set_free_end 8192 p"
  have run: "compact p = (?p', Inr ())" using n0 p1 by (simp add: compact_def)
  have f: "slot_count ?p' = slot_count p" "free_start ?p' = free_start p" "live_count ?p' = live_count p"
    "free_end ?p' = 8192" "length (pdata ?p') = 8192"
    using set_free_end_view [OF W(1)] by simp_all
  have "page_wf ?p'" unfolding page_wf_def using f W n0 fs by auto
  moreover have "slots ?p' = slots p" using f(1) n0 by (simp add: slots_def)
  moreover have "free_space ?p' = 8192 - 32" using f fs by (simp add: free_space_def)
  ultimately show thesis using that run f(1) by blast
qed

lemma compact_nonempty:
  assumes wf: "page_wf p" and n0: "slot_count p \<noteq> 0"
  obtains p' where "compact p = (p', Inr ())" and "page_wf p'" and "slots p' = slots p"
    and "free_space p' = 8192 - 32 - 5 * nslots p - (\<Sum>i | slot_live p i. slot_len p i)"
    and "slot_count p' = slot_count p"
    and "\<And>i. i < nslots p \<Longrightarrow> is_dead (slot_at p' i) = is_dead (slot_at p i)"
proof -
  note W = page_wfD [OF wf]
  define T where "T = (\<Sum>i | slot_live p i. slot_len p i)"
  obtain q' q where run: "compact p = (set_free_end (of_nat (8192 - T)) q', Inr ())"
    and P: "placed (live_list p) (32 + 5 * nslots p) 8192 q q'"
    and hq: "\<And>o1. o1 + 2 \<le> 32 \<Longrightarrow> get16 o1 q = get16 o1 p"
    and eq: "\<And>i. i < nslots p \<Longrightarrow> slot_at q i = slot_at p i"
    and TB: "32 + 5 * nslots p + T \<le> 8192"
    by (rule compact_run [OF wf n0, folded T_def], rule that, assumption, assumption) simp_all
  let ?p' = "set_free_end (of_nat (8192 - T)) q'"
  have n16: "nslots p \<le> 65535" using TB by simp
  have L': "length (pdata q') = 8192" and hq': "\<And>o1. o1 + 2 \<le> 32 \<Longrightarrow> get16 o1 q' = get16 o1 p"
    using P hq by (auto simp: placed_def)
  have T': "total_len (live_list p) = T"
    unfolding T_def using W(6) by (intro live_list_total [OF n16 W(1)]) auto
  have L: "length (pdata ?p') = 8192" and sc: "slot_count ?p' = slot_count p"
    and fs: "free_start ?p' = free_start p" and lc: "live_count ?p' = live_count p"
    and fe: "unat (free_end ?p') = 8192 - T"
    using hq' [of 20] hq' [of 22] hq' [of 24]
    by (simp_all add: set_free_end_view [OF L'] unat_of_nat del: of_nat_diff)
       (simp_all add: slot_count_def free_start_def live_count_def)
  have at: "slot_at ?p' i = slot_at q' i" if "i < nslots p" for i
    using that TB by (intro set_free_end_view(6) [OF L']) simp
  have rd: "rd_range a m (pdata ?p') = rd_range a m (pdata q')" if "32 \<le> a" "a + m \<le> 8192" for a m
    using that by (intro set_free_end_view(7) [OF L'])
  have mem: "(of_nat i, rd_range (slot_off p i) (slot_len p i) (pdata p)) \<in> set (live_list p)"
    if "slot_live p i" for i
    using that n16 by (simp add: live_list_set [OF n16] unat_of_nat)
  have blen: "length (rd_range (slot_off p i) (slot_len p i) (pdata p)) = slot_len p i" if "slot_live p i" for i
    using W(1) W(6) [OF that] by (simp add: length_rd_range)
  have lv: "se_flags (slot_at q' i) = se_flags (slot_at p i) \<and> slot_len q' i = slot_len p i \<and>
      8192 - T \<le> slot_off q' i \<and> slot_off q' i + slot_len p i \<le> 8192 \<and>
      rd_range (slot_off q' i) (slot_len p i) (pdata q') = rd_range (slot_off p i) (slot_len p i) (pdata p)"
    if "slot_live p i" for i
  proof -
    have ui: "unat (of_nat i :: u16) = i" using that n16 by (simp add: unat_of_nat)
    have "slot_at q i = slot_at p i" using that eq by simp
    with P mem [OF that] blen [OF that] ui T' show ?thesis
      unfolding placed_def by fastforce
  qed
  have dd: "slot_at q' i = slot_at p i" if "i < nslots p" "is_dead (slot_at p i)" for i
  proof -
    have "i \<notin> (unat \<circ> fst) ` set (live_list p)" using that by (auto simp: live_list_set [OF n16])
    with P that eq show ?thesis by (simp add: placed_def)
  qed
  have dead: "is_dead (slot_at ?p' i) = is_dead (slot_at p i)" if "i < nslots p" for i
    using that at dd [of i] lv [of i] by (cases "is_dead (slot_at p i)") (auto simp: is_dead_def)
  have liveset: "slot_live ?p' i \<longleftrightarrow> slot_live p i" for i using dead [of i] sc by auto
  have wf': "page_wf ?p'"
    unfolding page_wf_def
  proof (intro conjI allI impI)
    fix i assume "slot_live ?p' i"
    then show "unat (free_end ?p') \<le> slot_off ?p' i" and "slot_off ?p' i + slot_len ?p' i \<le> 8192"
      using liveset at lv fe by auto
  next
    fix i j assume ij: "slot_live ?p' i \<and> slot_live ?p' j \<and> i \<noteq> j"
    then have li: "slot_live p i" and lj: "slot_live p j" using liveset by blast+
    have ui: "unat (of_nat i :: u16) = i" and uj: "unat (of_nat j :: u16) = j"
      using li lj n16 by (simp_all add: unat_of_nat)
    then have "(of_nat i :: u16) \<noteq> of_nat j" using ij by metis
    then have "slot_off q' i + slot_len p i \<le> slot_off q' j \<or> slot_off q' j + slot_len p j \<le> slot_off q' i"
      using P mem [OF li] mem [OF lj] blen [OF li] blen [OF lj] ui uj unfolding placed_def by fastforce
    then show "slot_off ?p' i + slot_len ?p' i \<le> slot_off ?p' j \<or> slot_off ?p' j + slot_len ?p' j \<le> slot_off ?p' i"
      using li lj at lv by auto
  qed (use L fs sc lc fe W TB liveset in auto)
  have "slots ?p' = slots p"
  proof (rule slots_eqI)
    fix i assume "i < length (slots p)"
    then have i: "i < nslots p" by simp
    show "slot_content ?p' i = slots p ! i"
      using i dead [OF i] at [OF i] lv [of i] rd TB by (auto simp: slot_content_def)
  qed (simp add: sc)
  moreover have "free_space ?p' = 8192 - 32 - 5 * nslots p - T"
    using fe fs W(2) by (simp add: free_space_def)
  ultimately show thesis
    using that run wf' sc dead unfolding T_def by blast
qed

theorem compact_ok:
  assumes wf: "page_wf p"
  obtains p' where "compact p = (p', Inr ())" and "page_wf p'" and "slots p' = slots p"
    and "slot_count p' = slot_count p" and "free_space p \<le> free_space p'"
    and "free_space p' = 8192 - 32 - 5 * nslots p - (\<Sum>i | slot_live p i. slot_len p i)"
    and "\<And>i. i < nslots p \<Longrightarrow> is_dead (slot_at p' i) = is_dead (slot_at p i)"
proof -
  obtain p' where run: "compact p = (p', Inr ())" and wf': "page_wf p'" and sl: "slots p' = slots p"
    and sc: "slot_count p' = slot_count p"
    and fsp: "free_space p' = 8192 - 32 - 5 * nslots p - (\<Sum>i | slot_live p i. slot_len p i)"
    and dead: "\<And>i. i < nslots p \<Longrightarrow> is_dead (slot_at p' i) = is_dead (slot_at p i)"
  proof (cases "slot_count p = 0")
    case True
    then show thesis by (rule compact_empty [OF wf]) (use that True in auto)
  next
    case False
    then show thesis by (rule compact_nonempty [OF wf]) (use that in auto)
  qed
  have "free_space p \<le> free_space p'"
    using live_len_bound [OF wf] page_wfD(4) [OF wf]
    by (simp add: fsp free_space_wf [OF wf])
  then show thesis using that run wf' sl sc fsp dead by blast
qed


section \<open>\<open>update_slot\<close>\<close>

lemma update_in_place:
  assumes wf: "page_wf p" and k: "unat sid < nslots p" and live: "\<not> is_dead (slot_at p (unat sid))"
    and le: "length d \<le> slot_len p (unat sid)"
  obtains p' where "update_slot sid d p = (p', Inr ())" and "page_wf p'"
    and "slots p' = (slots p)[unat sid := Some d]"
proof -
  note W = page_wfD [OF wf]
  let ?k = "unat sid" and ?e = "slot_at p (unat sid)"
  have pos: "unat (free_end p) \<le> slot_off p ?k" "slot_off p ?k + slot_len p ?k \<le> 8192"
    using W(6) k live by auto
  have room: "32 + 5 * ?k + 5 \<le> unat (free_end p)" by (rule slot_in_dir [OF wf k])
  define e where "e = \<lparr>se_offset = se_offset ?e, se_length = of_nat (length d), se_flags = se_flags ?e\<rparr>"
  define d1 where "d1 = wr_range (slot_off p ?k) d (pdata p)"
  define d2 where "d2 = wr_range (32 + ?k * 5) (slot_encode e) d1"
  have L1: "length d1 = 8192" using W(1) pos le by (simp add: d1_def byte_simps)
  have L2: "length d2 = 8192" using L1 pos room W(4) by (simp add: d2_def byte_simps)
  have ul: "unat (se_length e) = length d"
    using le pos by (simp add: e_def unat_of_nat)
  have "read_slot p sid = Inr ?e"
    using room W(1,4) by (intro read_slot_ok) auto
  moreover have "put_range (pdata p) (slot_off p ?k) d = Inr d1"
    using W(1) pos le by (simp add: d1_def)
  moreover have "write_slot sid e (p\<lparr>pdata := d1\<rparr>) = Inr (p\<lparr>pdata := d2\<rparr>)"
    using room W(4) L1 by (subst write_slot_ok) (simp_all add: d2_def)
  ultimately have run: "update_slot sid d p = (p\<lparr>pdata := d2\<rparr>, Inr ())"
    using k live le by (simp add: update_slot_def word_le_nat_alt e_def)
  have hd: "get16 o1 (p\<lparr>pdata := d2\<rparr>) = get16 o1 p" if "o1 + 2 \<le> 32" for o1
    using that room pos le W(1,4) L1 unfolding d2_def d1_def by (simp add: page_simps)
  have same: "slot_at (p\<lparr>pdata := d2\<rparr>) ?k = e"
    using L1 room W(4) unfolding d2_def by (simp add: page_simps)
  have other: "slot_at (p\<lparr>pdata := d2\<rparr>) i = slot_at p i" if "i < nslots p" "i \<noteq> ?k" for i
    using that L1 W(1,4,5) room pos le unfolding d2_def d1_def by (simp add: page_simps)
  have rdk: "rd_range (slot_off p ?k) (length d) d2 = d"
    using L1 room pos le W(1) unfolding d2_def by (subst rd_wr_other) (simp_all add: d1_def byte_simps)
  have rdo: "rd_range (slot_off p i) (slot_len p i) d2 = rd_range (slot_off p i) (slot_len p i) (pdata p)"
    if "slot_live p i" "i \<noteq> ?k" for i
    using W(6) [OF that(1)] W(7) [OF that(1) _ that(2)] k live L1 room pos le W(1)
    unfolding d2_def d1_def by (auto simp: byte_simps)
  let ?p' = "p\<lparr>pdata := d2\<rparr>"
  have "page_wf ?p'" "slots ?p' = (slots p)[?k := Some d]"
    using hd [of 20] hd [of 22] hd [of 24] hd [of 26] L2 same other ul rdk rdo live le W(3,4)
    by (intro overwrite_slot [OF wf k live, where d = d];
        simp add: slot_count_def live_count_def free_start_def free_end_def e_def is_dead_def)+
  then show thesis using that run by blast
qed

lemma relocate:
  assumes wf: "page_wf p" and k: "unat sid < nslots p" and live: "\<not> is_dead (slot_at p (unat sid))"
    and fit: "length d \<le> free_space p" and fl: "\<not> is_dead \<lparr>se_offset = 0, se_length = 0, se_flags = f\<rparr>"
  defines "new_off \<equiv> free_end p - of_nat (length d)"
  obtains b p' where "put_range (pdata p) (unat new_off) d = Inr b"
    and "write_slot sid \<lparr>se_offset = new_off, se_length = of_nat (length d), se_flags = f\<rparr>
           (set_free_end new_off (p\<lparr>pdata := b\<rparr>)) = Inr p'"
    and "page_wf p'" and "slots p' = (slots p)[unat sid := Some d]"
proof -
  note W = page_wfD [OF wf]
  let ?k = "unat sid"
  have room: "32 + 5 * nslots p + length d \<le> unat (free_end p)"
    using fit W(5) by (simp add: free_space_wf [OF wf])
  have kd: "32 + 5 * ?k + 5 \<le> 32 + 5 * nslots p" using k by simp
  have ul: "unat (of_nat (length d) :: u16) = length d" using room W(4) by (simp add: unat_of_nat)
  have uo: "unat new_off = unat (free_end p) - length d"
    unfolding new_off_def using room by (subst unat_sub) (simp_all add: word_le_nat_alt ul)
  define e where "e = \<lparr>se_offset = new_off, se_length = of_nat (length d), se_flags = f\<rparr>"
  define d1 where "d1 = wr_range (unat new_off) d (pdata p)"
  define d2 where "d2 = wr_range 26 (to_le new_off) d1"
  define d3 where "d3 = wr_range (32 + ?k * 5) (slot_encode e) d2"
  have L1: "length d1 = 8192" using W(1,4) room uo by (simp add: d1_def byte_simps)
  have L2: "length d2 = 8192" using L1 by (simp add: d2_def byte_simps)
  have L3: "length d3 = 8192" using L2 kd room W(4) by (simp add: d3_def byte_simps)
  note R = L1 L2 L3 room kd W(1,4) uo
  have put: "put_range (pdata p) (unat new_off) d = Inr d1"
    using R by (simp add: d1_def)
  have wr: "write_slot sid e (set_free_end new_off (p\<lparr>pdata := d1\<rparr>)) = Inr (p\<lparr>pdata := d3\<rparr>)"
    using R by (subst write_slot_ok) (simp_all add: set_free_end_def set_bytes_def d2_def d3_def)
  let ?p' = "p\<lparr>pdata := d3\<rparr>"
  have hd: "get16 o1 ?p' = get16 o1 p" if "o1 = 20 \<or> o1 = 22 \<or> o1 = 24" for o1
    using that R unfolding d3_def d2_def d1_def by (auto simp: page_simps)
  have fe: "free_end ?p' = new_off"
    using R unfolding d3_def d2_def by (simp add: page_simps free_end_def)
  have same: "slot_at ?p' ?k = e"
    using R unfolding d3_def by (simp add: page_simps)
  have other: "slot_at ?p' i = slot_at p i" if "i < nslots p" "i \<noteq> ?k" for i
    using that R unfolding d3_def d2_def d1_def by (simp add: page_simps)
  have rd: "rd_range a m d3 = rd_range a m d1" if "32 + 5 * nslots p \<le> a" "a + m \<le> 8192" for a m
    using that R unfolding d3_def d2_def by (simp add: byte_simps)
  have rdk: "rd_range (unat new_off) (length d) d3 = d"
    using R by (subst rd) (simp_all add: d1_def byte_simps)
  have rdo: "rd_range (slot_off p i) (slot_len p i) d3 = rd_range (slot_off p i) (slot_len p i) (pdata p)"
    if "slot_live p i" for i
    using W(6) [OF that] R by (subst rd) (simp_all add: d1_def byte_simps)
  have "page_wf ?p'" "slots ?p' = (slots p)[?k := Some d]"
    using hd [of 20] hd [of 22] hd [of 24] fe R same other ul rdk rdo fl W(2)
    by (intro overwrite_slot [OF wf k live, where d = d];
        simp add: slot_count_def live_count_def free_start_def e_def is_dead_def)+
  then show thesis using that put wr unfolding e_def by blast
qed

definition live_total :: "page \<Rightarrow> nat" where
  "live_total p = sum_list (map (\<lambda>x. case x of None \<Rightarrow> 0 | Some d \<Rightarrow> length d) (slots p))"

lemma live_total_sum:
  assumes "page_wf p"
  shows "live_total p = (\<Sum>i | slot_live p i. slot_len p i)"
proof -
  have "live_total p = (\<Sum>i < nslots p. case slot_content p i of None \<Rightarrow> 0 | Some d \<Rightarrow> length d)"
    unfolding live_total_def slots_def map_map comp_def
    by (subst interv_sum_list_conv_sum_set_nat) (simp add: lessThan_atLeast0)
  also have "\<dots> = (\<Sum>i < nslots p. if is_dead (slot_at p i) then 0 else slot_len p i)"
    using page_wfD(1,6) [OF assms] by (intro sum.cong) (auto simp: slot_content_def length_rd_range)
  also have "\<dots> = (\<Sum>i | slot_live p i. slot_len p i)"
    by (subst sum.mono_neutral_right [of "{..<nslots p}" "{i. slot_live p i}"]) (auto intro: sum.cong)
  finally show ?thesis .
qed

text \<open>The bytes an update may claim once the page has been compacted: everything that is neither
  header, nor slot directory, nor payload of a live tuple.\<close>

definition reclaimable :: "page \<Rightarrow> nat" where
  "reclaimable p = 8192 - 32 - 5 * length (slots p) - live_total p"

lemma update_slot_grow:
  assumes wf: "page_wf p" and k: "unat sid < nslots p" and live: "\<not> is_dead (slot_at p (unat sid))"
    and gt: "slot_len p (unat sid) < length d"
  obtains (ok) p' where "length d \<le> reclaimable p" and "update_slot sid d p = (p', Inr ())"
      and "page_wf p'" and "slots p' = (slots p)[unat sid := Some d]"
  | (full) p' m where "reclaimable p < length d" and "update_slot sid d p = (p', Inl (Internal m))"
      and "page_wf p'" and "slots p' = slots p"
proof -
  obtain c where c: "compact p = (c, Inr ())" and cwf: "page_wf c" and cs: "slots c = slots p"
    and cn: "slot_count c = slot_count p" and mono: "free_space p \<le> free_space c"
    and cf: "free_space c = 8192 - 32 - 5 * nslots p - (\<Sum>i | slot_live p i. slot_len p i)"
    and cd: "\<And>i. i < nslots p \<Longrightarrow> is_dead (slot_at c i) = is_dead (slot_at p i)"
    by (rule compact_ok [OF wf]) blast
  have rec: "free_space c = reclaimable p"
    by (simp add: cf reclaimable_def live_total_sum [OF wf])
  define p1 where "p1 = (if length d > free_space p then c else p)"
  have p1: "page_wf p1" "slots p1 = slots p" "unat sid < nslots p1" "\<not> is_dead (slot_at p1 (unat sid))"
    using wf cwf cs cn cd k live by (auto simp: p1_def)
  have fit1: "free_space p1 < length d \<longleftrightarrow> reclaimable p < length d"
    using mono rec by (auto simp: p1_def)
  have rd: "read_slot p sid = Inr (slot_at p (unat sid))"
    using slot_in_dir [OF wf k] page_wfD(1,4) [OF wf] by (intro read_slot_ok) auto
  have step: "(if length d > free_space p then compact p else (p, Inr ())) = (p1, Inr ())"
    using c by (simp add: p1_def)
  note U = update_slot_def [of sid d p, unfolded rd, simplified step]
  show thesis
  proof (cases "reclaimable p < length d")
    case True
    then show thesis
      using full [OF True _ p1(1,2)] U fit1 k live gt step by (simp add: word_le_nat_alt)
  next
    case False
    then have fit: "length d \<le> free_space p1" using fit1 by simp
    have fl: "\<not> is_dead \<lparr>se_offset = 0, se_length = 0, se_flags = se_flags (slot_at p (unat sid))\<rparr>"
      using live by (simp add: is_dead_def)
    obtain b p' where "put_range (pdata p1) (unat (free_end p1 - of_nat (length d))) d = Inr b"
      and "write_slot sid \<lparr>se_offset = free_end p1 - of_nat (length d), se_length = of_nat (length d),
             se_flags = se_flags (slot_at p (unat sid))\<rparr>
             (set_free_end (free_end p1 - of_nat (length d)) (p1\<lparr>pdata := b\<rparr>)) = Inr p'"
      and p': "page_wf p'" "slots p' = (slots p1)[unat sid := Some d]"
      by (rule relocate [OF p1(1,3,4) fit fl])
    then have "update_slot sid d p = (p', Inr ())"
      using U fit1 False k live gt step by (simp add: word_le_nat_alt Let_def)
    then show thesis using ok False p' p1(2) by simp
  qed
qed

lemma update_slot_dead:
  assumes wf: "page_wf p" and bad: "unat sid < nslots p \<longrightarrow> is_dead (slot_at p (unat sid))"
  shows "\<exists>m. update_slot sid d p = (p, Inl (Internal m))"
proof (cases "unat sid < nslots p")
  case True
  have "read_slot p sid = Inr (slot_at p (unat sid))"
    using slot_in_dir [OF wf True] page_wfD(1,4) [OF wf] by (intro read_slot_ok) auto
  with True bad show ?thesis by (simp add: update_slot_def word_le_nat_alt)
qed (simp add: update_slot_def word_le_nat_alt)

section \<open>The page as an atomic slot list\<close>

datatype page_op = Alloc bytes | Delete u16 | Update u16 bytes | Compact

definition page_step :: "page_op \<Rightarrow> page \<Rightarrow> page \<times> unit result" where
  "page_step x p = (case x of
     Alloc d \<Rightarrow> (case alloc_slot d p of (p', r) \<Rightarrow> (p', rbind r (\<lambda>_. Inr ())))
   | Delete i \<Rightarrow> delete_slot i p
   | Update i d \<Rightarrow> update_slot i d p
   | Compact \<Rightarrow> compact p)"

definition slots_step :: "page_op \<Rightarrow> bytes option list \<Rightarrow> bytes option list" where
  "slots_step x xs = (case x of
     Alloc d \<Rightarrow> xs @ [Some d]
   | Delete i \<Rightarrow> xs[unat i := None]
   | Update i d \<Rightarrow> xs[unat i := Some d]
   | Compact \<Rightarrow> xs)"

lemma update_slot_cases:
  assumes wf: "page_wf p"
  obtains (ok) p' old where "update_slot sid d p = (p', Inr ())" "page_wf p'" "slots p' = (slots p)[unat sid := Some d]"
      "unat sid < length (slots p)" "slots p ! unat sid = Some old" "length d \<le> length old \<or> length d \<le> reclaimable p"
  | (err) p' m where "update_slot sid d p = (p', Inl (Internal m))" "page_wf p'" "slots p' = slots p"
      "\<And>old. unat sid < length (slots p) \<Longrightarrow> slots p ! unat sid = Some old \<Longrightarrow>
         length old < length d \<and> reclaimable p < length d"
proof (cases "slot_live p (unat sid)")
  case True
  then have k: "unat sid < nslots p" and live: "\<not> is_dead (slot_at p (unat sid))" by auto
  have old: "slots p ! unat sid = Some (rd_range (slot_off p (unat sid)) (slot_len p (unat sid)) (pdata p))"
    using True by (simp add: slot_content_def)
  have len: "length (rd_range (slot_off p (unat sid)) (slot_len p (unat sid)) (pdata p)) = slot_len p (unat sid)"
    using page_wfD(1,6) [OF wf] True by (simp add: length_rd_range)
  show thesis
  proof (cases "length d \<le> slot_len p (unat sid)")
    case True
    show thesis by (rule update_in_place [OF wf k live True]) (use ok old k len True in simp)
  next
    case False
    then have gt: "slot_len p (unat sid) < length d" by simp
    show thesis
      by (rule update_slot_grow [OF wf k live gt]) (use ok err old k len gt in simp_all)
  qed
next
  case False
  then obtain m where "update_slot sid d p = (p, Inl (Internal m))" using update_slot_dead [OF wf] by blast
  then show thesis by (rule err) (use wf False in \<open>auto simp: slot_content_def\<close>)
qed

lemma delete_slot_out: "\<not> unat sid < nslots p \<Longrightarrow> \<exists>m. delete_slot sid p = (p, Inl (Internal m))"
  by (simp add: delete_slot_def word_le_nat_alt)

lemma page_step_atomic:
  assumes wf: "page_wf p"
  obtains p' r where "page_step x p = (p', r)" and "page_wf p'" and "r \<noteq> Inl Panic"
    and "slots p' = (if isl r then slots p else slots_step x (slots p))"
proof (cases x)
  case (Alloc d)
  show thesis
  proof (cases "length d + 5 \<le> free_space p")
    case True
    then show thesis
      by (rule alloc_slot_ok [OF wf]) (use that Alloc in \<open>auto simp: page_step_def slots_step_def\<close>)
  next
    case False
    then obtain m where "alloc_slot d p = (p, Inl (Internal m))" using alloc_slot_full [of p d] by auto
    then show thesis using that wf Alloc by (auto simp: page_step_def)
  qed
next
  case (Delete i)
  show thesis
  proof (cases "unat i < nslots p")
    case True
    then show thesis
      by (rule delete_slot_ok [OF wf]) (use that Delete in \<open>auto simp: page_step_def slots_step_def\<close>)
  qed (use that wf Delete delete_slot_out [of i p] in \<open>auto simp: page_step_def\<close>)
next
  case (Update i d)
  show thesis
    by (rule update_slot_cases [OF wf, of i d]) (use that Update in \<open>auto simp: page_step_def slots_step_def\<close>)
next
  case Compact
  then show thesis
    by (rule_tac compact_ok [OF wf]) (use that in \<open>auto simp: page_step_def slots_step_def\<close>)
qed

interpretation page_atomic: atomic_ops page_wf slots page_step slots_step
proof (unfold_locales, goal_cases)
  case (1 p x p' r)
  then show ?case by (rule_tac page_step_atomic [of p x]) auto
next
  case (2 p x p' e)
  then show ?case by (rule_tac page_step_atomic [of p x]) auto
qed

lemma get_slot_out: "page_wf p \<Longrightarrow> \<not> unat sid < length (slots p) \<Longrightarrow> get_slot p sid = Inr None"
  by (simp add: get_slot_slots)

lemma iter_live_slots:
  assumes wf: "page_wf p"
  shows "map (\<lambda>(i, d). (unat i, d)) (iter_live p) =
    List.map_filter (\<lambda>i. map_option (Pair i) (slots p ! i)) [0..<length (slots p)]"
proof -
  have n: "nslots p < 65536" using page_wfD(4,5) [OF wf] by simp
  have "iter_live p = List.map_filter (\<lambda>i. map_option (Pair (of_nat i)) (slots p ! i)) [0..<nslots p]"
    unfolding iter_live_def List.map_filter_def filter_map map_map comp_def
    using n by (intro map_cong filter_cong)
      (auto simp: get_slot_slots [OF wf] unat_of_nat split: option.splits)
  then show ?thesis
    unfolding List.map_filter_def using n by (auto simp: unat_of_nat split: option.splits)
qed

section \<open>Properties\<close>

text \<open>A concrete page for the examples: a fresh page holding one tuple.\<close>

definition sample_page :: page where
  "sample_page = fst (alloc_slot [1, 2, 3] (new_page 7))"

lemma sample_page_facts: "page_wf sample_page" "slots sample_page = [Some [1, 2, 3]]"
  unfolding sample_page_def
  by (rule alloc_slot_ok [OF new_page_wf, of "[1, 2, 3]" 7],
      auto simp: free_space_def new_page_fields new_page_slots)+

text \<open>C1. Any sequence of allocations, deletions, updates and compactions on a well-formed page, errors
  included, leaves a well-formed page whose slot list is the result of applying exactly the operations
  that returned \<open>Ok\<close>, in order, to the abstract slot list: a failed operation changes no tuple.\<close>

theorem page_run_refines:
  assumes "page_wf p" and "run_ops page_step xs p = (p', oks)"
  shows "page_wf p' \<and> slots p' = fold slots_step oks (slots p)"
  using assms by (rule page_atomic.run_ops_view)

theorem page_run_refines_witness:
  "\<exists>p'. run_ops page_step [Alloc [7, 8], Delete 9] (new_page 5) = (p', [Alloc [7, 8]]) \<and>
     page_wf p' \<and> slots p' = [Some [7, 8]]"
proof -
  obtain p1 where p1: "alloc_slot [7, 8] (new_page 5) = (p1, Inr 0)" "page_wf p1" "slots p1 = [Some [7, 8]]"
    by (rule alloc_slot_ok [OF new_page_wf, of "[7, 8]" 5])
      (auto simp: free_space_def new_page_fields new_page_slots)
  have "nslots p1 = 1" using arg_cong [OF p1(3), of length] by simp
  then obtain m where "delete_slot 9 p1 = (p1, Inl (Internal m))" using delete_slot_out [of 9 p1] by auto
  with p1 have run: "run_ops page_step [Alloc [7, 8], Delete 9] (new_page 5) = (p1, [Alloc [7, 8]])"
    by (simp add: page_step_def)
  show ?thesis
    using run page_run_refines [OF new_page_wf run] by (simp add: slots_step_def new_page_slots)
qed

text \<open>C2. Allocation on a well-formed page succeeds exactly when the tuple and its directory entry fit in the
  free space; it then returns the next slot id, appends the tuple and uses up that much space. Otherwise it
  reports an error and the page is unchanged.\<close>

theorem alloc_slot_correct:
  assumes "page_wf p"
  shows "if length d + 5 \<le> free_space p
    then \<exists>p'. alloc_slot d p = (p', Inr (slot_count p)) \<and> page_wf p' \<and> slots p' = slots p @ [Some d] \<and>
              free_space p' = free_space p - (length d + 5)
    else \<exists>m. alloc_slot d p = (p, Inl (Internal m))"
  using alloc_slot_ok [OF assms, of d] alloc_slot_full [of p d] by (metis not_le)

theorem alloc_slot_correct_witness:
  "\<exists>p'. alloc_slot [1, 2, 3] (new_page 7) = (p', Inr 0) \<and> slots p' = [Some [1, 2, 3]]"
  using alloc_slot_correct [OF new_page_wf, of "[1, 2, 3]" 7]
  by (auto simp: free_space_def new_page_fields new_page_slots)

text \<open>C3. Updating a live slot succeeds exactly when the new tuple fits over the old one or into the space
  that compaction can reclaim (the whole page minus header, directory and live tuples); only that slot
  changes. Updating a dead or unknown slot, or a tuple that cannot fit, is an error that changes no slot.\<close>

theorem update_slot_correct:
  assumes "page_wf p"
  shows "\<exists>p' r. update_slot sid d p = (p', r) \<and> page_wf p' \<and>
    (r = Inr () \<longleftrightarrow> (\<exists>old. unat sid < length (slots p) \<and> slots p ! unat sid = Some old \<and>
        (length d \<le> length old \<or> length d \<le> reclaimable p))) \<and>
    slots p' = (if r = Inr () then (slots p)[unat sid := Some d] else slots p)"
  by (rule update_slot_cases [OF assms, of sid d]) fastforce+

theorem update_slot_correct_witness:
  "\<exists>p'. update_slot 0 [9, 9, 9, 9] sample_page = (p', Inr ()) \<and> page_wf p' \<and> slots p' = [Some [9, 9, 9, 9]]"
  using update_slot_correct [OF sample_page_facts(1), of 0 "[9, 9, 9, 9]"]
  by (auto simp: sample_page_facts reclaimable_def live_total_def simp del: length_slots)

text \<open>C4. Compaction always succeeds, moves no tuple to another slot, keeps every tuple's bytes, and leaves
  as free space everything except header, directory and live tuples.\<close>

theorem compact_correct:
  assumes "page_wf p"
  shows "\<exists>p'. compact p = (p', Inr ()) \<and> page_wf p' \<and> slots p' = slots p \<and> free_space p' = reclaimable p"
  by (rule compact_ok [OF assms]) (auto simp: reclaimable_def live_total_sum [OF assms])

theorem compact_correct_witness:
  "\<exists>p'. compact sample_page = (p', Inr ()) \<and> slots p' = [Some [1, 2, 3]] \<and> free_space p' = 8152"
  using compact_correct [OF sample_page_facts(1)]
  by (auto simp: sample_page_facts reclaimable_def live_total_def simp del: length_slots)

text \<open>Reading back: after deleting a slot of a well-formed page, \<open>get_slot\<close> returns \<open>None\<close> for it and for
  every other slot id exactly what it returned before; deleting twice is harmless.\<close>

lemma delete_slot_correct:
  assumes "page_wf p" and "unat sid < length (slots p)"
  shows "\<exists>p'. delete_slot sid p = (p', Inr ()) \<and> page_wf p' \<and>
    (\<forall>j. get_slot p' j = (if j = sid then Inr None else get_slot p j)) \<and> (\<exists>q. delete_slot sid p' = (q, Inr ()) \<and> slots q = slots p')"
proof -
  obtain p' where p': "delete_slot sid p = (p', Inr ())" "page_wf p'" "slots p' = (slots p)[unat sid := None]"
    using assms by (auto elim: delete_slot_ok)
  have n: "nslots p' = nslots p" using arg_cong [OF p'(3), of length] by simp
  then obtain q where "delete_slot sid p' = (q, Inr ())" "slots q = (slots p')[unat sid := None]"
    using assms p'(2) by (auto elim: delete_slot_ok)
  moreover have "get_slot p' j = (if j = sid then Inr None else get_slot p j)" for j
    using assms p' n by (auto simp: get_slot_slots nth_list_update word_unat_eq_iff simp del: slots_nth)
  ultimately show ?thesis using p' by auto
qed

end
