(* ===== verification/BTree.thy ===== *)
theory BTree
  imports Prelude "HOL-Library.Monad_Syntax"
begin

text \<open>
  The B-link tree of \<open>bytedb-core/src/index/btree.rs\<close>. The nodes behind \<open>Arc<RwLock<BTreeNode>>\<close> are
  the cells of an explicit store, the list \<open>nodes\<close>; an \<open>Arc\<close> is an index into it, \<open>Arc::new\<close>
  appends a cell and \<open>Arc::ptr_eq\<close> is equality of indices. Each operation is one uninterrupted call.
  A loop of the source is a \<open>partial_function\<close>: the value \<open>None\<close> stands for a call that does not
  return (it loops or it panics), and every operation is proved to return.

  The invariant \<open>bt_ok\<close> describes the store by its levels, each a chain of right links. It does
  not ask that every node is known to a parent, only that no separator or high key leads past the leaf
  that holds the key: the intermediate states of a split satisfy it too.
\<close>

section \<open>Nodes and the store\<close>

record internal_node =
  ikeys :: "bytes list"
  children :: "nat list"
  ihigh_key :: "bytes option"
  iright_link :: "nat option"

record leaf_node =
  lkeys :: "bytes list"
  lvalues :: "bytes list"
  lhigh_key :: "bytes option"
  lright_link :: "nat option"

datatype btree_node = NInternal internal_node | NLeaf leaf_node

fun high_key :: "btree_node \<Rightarrow> bytes option" where
  "high_key (NInternal n) = ihigh_key n"
| "high_key (NLeaf n) = lhigh_key n"

fun right_link :: "btree_node \<Rightarrow> nat option" where
  "right_link (NInternal n) = iright_link n"
| "right_link (NLeaf n) = lright_link n"

record btree =
  root :: nat
  order :: nat
  tname :: string
  tlen :: u64
  nodes :: "btree_node list"

definition node_at :: "btree \<Rightarrow> nat \<Rightarrow> btree_node option" where
  "node_at t i = (if i < length (nodes t) then Some (nodes t ! i) else None)"

definition put_node :: "nat \<Rightarrow> btree_node \<Rightarrow> btree \<Rightarrow> btree" where
  "put_node i n t = t\<lparr>nodes := (nodes t)[i := n]\<rparr>"

definition alloc_node :: "btree_node \<Rightarrow> btree \<Rightarrow> btree \<times> nat" where
  "alloc_node n t = (t\<lparr>nodes := nodes t @ [n]\<rparr>, length (nodes t))"

definition new_btree :: "string \<Rightarrow> nat \<Rightarrow> btree" where
  "new_btree nm ord =
     \<lparr>root = 0, order = ord, tname = nm, tlen = 0,
      nodes = [NLeaf \<lparr>lkeys = [], lvalues = [], lhigh_key = None, lright_link = None\<rparr>]\<rparr>"

definition approx_len :: "btree \<Rightarrow> u64" where
  "approx_len t = tlen t"

section \<open>Slice searches of the standard library\<close>

text \<open>On a slice partitioned by the predicate \<open>partition_point\<close> is the length of the initial run; on a
  sorted slice \<open>binary_search_by\<close> finds the position of the key (\<open>Ok\<close>, here \<open>Inr\<close>) or the insertion
  point (\<open>Err\<close>, here \<open>Inl\<close>). That the node's keys are sorted is part of the invariant.\<close>

definition partition_point :: "('a \<Rightarrow> bool) \<Rightarrow> 'a list \<Rightarrow> nat" where
  "partition_point P xs = length (takeWhile P xs)"

definition binary_search :: "bytes list \<Rightarrow> bytes \<Rightarrow> nat + nat" where
  "binary_search ks k =
     (let i = partition_point (\<lambda>x. x < k) ks
      in if i < length ks \<and> ks ! i = k then Inr i else Inl i)"

definition vec_insert :: "nat \<Rightarrow> 'a \<Rightarrow> 'a list \<Rightarrow> 'a list" where
  "vec_insert i x xs = take i xs @ x # drop i xs"

definition vec_remove :: "nat \<Rightarrow> 'a list \<Rightarrow> 'a list" where
  "vec_remove i xs = take i xs @ drop (Suc i) xs"

section \<open>Moving right and descending\<close>

definition should_move :: "btree_node \<Rightarrow> bytes \<Rightarrow> bool" where
  "should_move node key = (case (high_key node, right_link node) of (Some hk, Some _) \<Rightarrow> key > hk | _ \<Rightarrow> False)"

partial_function (option) move_right_read :: "btree \<Rightarrow> nat \<Rightarrow> bytes \<Rightarrow> nat option" where
  "move_right_read t node_arc key =
     do { node \<leftarrow> node_at t node_arc;
          if \<not> should_move node key then Some node_arc
          else do { nxt \<leftarrow> right_link node; move_right_read t nxt key } }"

definition move_right_write :: "btree \<Rightarrow> nat \<Rightarrow> bytes \<Rightarrow> nat option" where
  "move_right_write t node_arc key = move_right_read t node_arc key"

partial_function (option) find_leaf_from :: "btree \<Rightarrow> bytes \<Rightarrow> nat \<Rightarrow> nat option" where
  "find_leaf_from t key current =
     do { cur \<leftarrow> move_right_read t current key;
          node \<leftarrow> node_at t cur;
          case node of
            NLeaf _ \<Rightarrow> Some cur
          | NInternal n \<Rightarrow>
              (let idx = partition_point (\<lambda>k. k \<le> key) (ikeys n)
               in if idx < length (children n) then find_leaf_from t key (children n ! idx) else None) }"

definition find_leaf_read :: "btree \<Rightarrow> bytes \<Rightarrow> nat option" where
  "find_leaf_read t key = find_leaf_from t key (root t)"

definition find_leaf_write :: "btree \<Rightarrow> bytes \<Rightarrow> nat option" where
  "find_leaf_write t key = find_leaf_read t key"

partial_function (option) leftmost_from :: "btree \<Rightarrow> nat \<Rightarrow> nat option" where
  "leftmost_from t current =
     do { node \<leftarrow> node_at t current;
          case node of
            NLeaf _ \<Rightarrow> Some current
          | NInternal n \<Rightarrow> if children n = [] then None else leftmost_from t (children n ! 0) }"

definition find_leftmost_leaf :: "btree \<Rightarrow> nat option" where
  "find_leftmost_leaf t = leftmost_from t (root t)"

section \<open>Insertion\<close>

text \<open>The inner loop of \<open>insert\<close>: the leaf for the key and the internal nodes passed on the way.\<close>

partial_function (option) insert_descend :: "btree \<Rightarrow> bytes \<Rightarrow> nat \<Rightarrow> nat list \<Rightarrow> (nat \<times> nat list) option" where
  "insert_descend t key current path =
     do { cur \<leftarrow> move_right_write t current key;
          node \<leftarrow> node_at t cur;
          case node of
            NLeaf _ \<Rightarrow> Some (cur, path)
          | NInternal n \<Rightarrow>
              (let idx = partition_point (\<lambda>k. k \<le> key) (ikeys n)
               in if idx < length (children n)
                  then insert_descend t key (children n ! idx) (path @ [cur]) else None) }"

definition leaf_insert_locked ::
  "btree \<Rightarrow> nat \<Rightarrow> leaf_node \<Rightarrow> bytes \<Rightarrow> bytes \<Rightarrow> (btree \<times> (bytes \<times> nat) option) option" where
  "leaf_insert_locked t lid leaf key val =
     (case binary_search (lkeys leaf) key of
        Inr i \<Rightarrow>
          if i < length (lvalues leaf)
          then Some (put_node lid (NLeaf (leaf\<lparr>lvalues := (lvalues leaf)[i := val]\<rparr>)) t, None)
          else None
      | Inl pos \<Rightarrow>
          if length (lvalues leaf) < pos then None
          else
            let ks = vec_insert pos key (lkeys leaf);
                vs = vec_insert pos val (lvalues leaf);
                t1 = t\<lparr>tlen := tlen t + 1\<rparr>
            in if length ks < order t
               then Some (put_node lid (NLeaf (leaf\<lparr>lkeys := ks, lvalues := vs\<rparr>)) t1, None)
               else
                 let mid = length ks div 2;
                     right_keys = drop mid ks;
                     right_values = drop mid vs;
                     split_key = right_keys ! 0;
                     (t2, right_leaf) = alloc_node (NLeaf \<lparr>lkeys = right_keys, lvalues = right_values,
                       lhigh_key = Some (last right_keys), lright_link = lright_link leaf\<rparr>) t1;
                     left_keys = take mid ks
                 in Some (put_node lid (NLeaf \<lparr>lkeys = left_keys, lvalues = take mid vs,
                       lhigh_key = (if left_keys = [] then None else Some (last left_keys)),
                       lright_link = Some right_leaf\<rparr>) t2,
                     Some (split_key, right_leaf)))"

definition internal_insert_locked ::
  "btree \<Rightarrow> nat \<Rightarrow> internal_node \<Rightarrow> bytes \<Rightarrow> nat \<Rightarrow> (btree \<times> (bytes \<times> nat) option) option" where
  "internal_insert_locked t iid n split_key new_child =
     (let idx = partition_point (\<lambda>k. k \<le> split_key) (ikeys n) in
      if length (children n) < idx + 1 then None
      else
        let ks = vec_insert idx split_key (ikeys n);
            cs = vec_insert (idx + 1) new_child (children n)
        in if length ks < order t
           then Some (put_node iid (NInternal (n\<lparr>ikeys := ks, children := cs\<rparr>)) t, None)
           else
             let mid = length ks div 2;
                 promoted = ks ! mid;
                 (t1, right_node) = alloc_node (NInternal \<lparr>ikeys = drop (mid + 1) ks,
                   children = drop (mid + 1) cs, ihigh_key = ihigh_key n, iright_link = iright_link n\<rparr>) t
             in Some (put_node iid (NInternal \<lparr>ikeys = butlast (take (mid + 1) ks), children = take (mid + 1) cs,
                   ihigh_key = Some promoted, iright_link = Some right_node\<rparr>) t1,
                 Some (promoted, right_node)))"

text \<open>The walk that \<open>insert\<close> makes when another writer has replaced the root meanwhile.\<close>

partial_function (option) find_in_new_root :: "btree \<Rightarrow> bytes \<Rightarrow> nat \<Rightarrow> nat \<Rightarrow> unit option" where
  "find_in_new_root t split_key child current =
     do { cur \<leftarrow> move_right_write t current split_key;
          node \<leftarrow> node_at t cur;
          case node of
            NLeaf _ \<Rightarrow> Some ()
          | NInternal n \<Rightarrow>
              if child \<in> set (children n) then Some ()
              else
                (let idx = partition_point (\<lambda>k. k \<le> split_key) (ikeys n)
                 in if idx < length (children n)
                    then find_in_new_root t split_key child (children n ! idx) else None) }"

text \<open>The loop over the path, innermost parent first, and the new root at its end.\<close>

fun insert_propagate :: "btree \<Rightarrow> nat \<Rightarrow> nat list \<Rightarrow> bytes \<times> nat \<Rightarrow> (btree \<times> unit result) option" where
  "insert_propagate t root0 [] split =
     (if root t \<noteq> root0
      then do { find_in_new_root t (fst split) (snd split) (root t); Some (t, Inr ()) }
      else
        let (t1, new_root) = alloc_node (NInternal \<lparr>ikeys = [fst split], children = [root t, snd split],
              ihigh_key = None, iright_link = None\<rparr>) t
        in Some (t1\<lparr>root := new_root\<rparr>, Inr ()))"
| "insert_propagate t root0 (p # ps) split =
     do { parent_arc \<leftarrow> move_right_write t p (fst split);
          node \<leftarrow> node_at t parent_arc;
          case node of
            NInternal n \<Rightarrow>
              do { (t1, new_split) \<leftarrow> internal_insert_locked t parent_arc n (fst split) (snd split);
                   case new_split of
                     None \<Rightarrow> Some (t1, Inr ())
                   | Some s \<Rightarrow> insert_propagate t1 root0 ps s }
          | NLeaf _ \<Rightarrow> Some (t, Inl (Internal ''Expected internal node'')) }"

partial_function (option) bt_insert :: "btree \<Rightarrow> bytes \<Rightarrow> bytes \<Rightarrow> (btree \<times> unit result) option" where
  "bt_insert t key val =
     do { (current, path) \<leftarrow> insert_descend t key (root t) [];
          node \<leftarrow> node_at t current;
          case node of
            NInternal _ \<Rightarrow> Some (t, Inl (Internal ''Expected leaf node''))
          | NLeaf leaf \<Rightarrow>
              if should_move (NLeaf leaf) key then bt_insert t key val
              else
                do { (t1, split) \<leftarrow> leaf_insert_locked t current leaf key val;
                     case split of
                       None \<Rightarrow> Some (t1, Inr ())
                     | Some s \<Rightarrow> insert_propagate t1 (root t) (rev path) s } }"

section \<open>Lookup and deletion\<close>

definition bt_search :: "btree \<Rightarrow> bytes \<Rightarrow> bytes option option" where
  "bt_search t key =
     do { l \<leftarrow> find_leaf_read t key;
          node \<leftarrow> node_at t l;
          case node of
            NInternal _ \<Rightarrow> Some None
          | NLeaf leaf \<Rightarrow>
              (case binary_search (lkeys leaf) key of
                 Inr i \<Rightarrow> if i < length (lvalues leaf) then Some (Some (lvalues leaf ! i)) else None
               | Inl _ \<Rightarrow> Some None) }"

definition bt_delete :: "btree \<Rightarrow> bytes \<Rightarrow> (btree \<times> bool) option" where
  "bt_delete t key =
     do { l \<leftarrow> find_leaf_write t key;
          node \<leftarrow> node_at t l;
          case node of
            NInternal _ \<Rightarrow> Some (t, False)
          | NLeaf leaf \<Rightarrow>
              (case binary_search (lkeys leaf) key of
                 Inr pos \<Rightarrow>
                   if pos < length (lvalues leaf)
                   then Some ((put_node l (NLeaf (leaf\<lparr>lkeys := vec_remove pos (lkeys leaf),
                     lvalues := vec_remove pos (lvalues leaf)\<rparr>)) t)\<lparr>tlen := tlen t - 1\<rparr>, True)
                   else None
               | Inl _ \<Rightarrow> Some (t, False)) }"

section \<open>Scans along the leaf chain\<close>

text \<open>The scans share one loop: \<open>while let Some(node) = current\<close>, the body on a leaf (which may ask to
  stop), then \<open>current = leaf.right_link\<close>; an internal node ends the loop.\<close>

partial_function (option) leaf_walk ::
  "btree \<Rightarrow> ('s \<Rightarrow> leaf_node \<Rightarrow> 's \<times> bool) \<Rightarrow> 's \<Rightarrow> nat option \<Rightarrow> 's option" where
  "leaf_walk t body s current =
     (case current of
        None \<Rightarrow> Some s
      | Some i \<Rightarrow>
          do { node \<leftarrow> node_at t i;
               case node of
                 NInternal _ \<Rightarrow> Some s
               | NLeaf leaf \<Rightarrow>
                   (case body s leaf of
                      (s', stop) \<Rightarrow> if stop then Some s' else leaf_walk t body s' (lright_link leaf)) })"

definition leaf_entries :: "leaf_node \<Rightarrow> (bytes \<times> bytes) list" where
  "leaf_entries leaf = zip (lkeys leaf) (lvalues leaf)"

definition start_index :: "bytes \<Rightarrow> bool \<Rightarrow> leaf_node \<Rightarrow> nat" where
  "start_index start first leaf =
     (if first then (case binary_search (lkeys leaf) start of Inr i \<Rightarrow> i | Inl i \<Rightarrow> i) else 0)"

fun range_leaf :: "bytes \<Rightarrow> (bytes \<times> bytes) list \<Rightarrow> (bytes \<times> bytes) list \<Rightarrow> (bytes \<times> bytes) list \<times> bool" where
  "range_leaf hi [] results = (results, False)"
| "range_leaf hi ((k, v) # es) results =
     (if k > hi then (results, True) else range_leaf hi es (results @ [(k, v)]))"

definition range_scan :: "btree \<Rightarrow> bytes \<Rightarrow> bytes \<Rightarrow> (bytes \<times> bytes) list option" where
  "range_scan t start hi =
     do { l \<leftarrow> find_leaf_read t start;
          (first, results) \<leftarrow> leaf_walk t
            (\<lambda>(first, results) leaf.
               case range_leaf hi (drop (start_index start first leaf) (leaf_entries leaf)) results of
                 (r, stop) \<Rightarrow> ((False, r), stop))
            (True, []) (Some l);
          Some results }"

definition starts_with :: "bytes \<Rightarrow> bytes \<Rightarrow> bool" where
  "starts_with k pre \<longleftrightarrow> take (length pre) k = pre"

fun prefix_leaf :: "bytes \<Rightarrow> (bytes \<times> bytes) list \<Rightarrow> (bytes \<times> bytes) list \<Rightarrow> (bytes \<times> bytes) list \<times> bool" where
  "prefix_leaf pre [] results = (results, False)"
| "prefix_leaf pre ((k, v) # es) results =
     (if \<not> starts_with k pre
      then (if k > pre then (results, True) else prefix_leaf pre es results)
      else prefix_leaf pre es (results @ [(k, v)]))"

definition scan_all :: "btree \<Rightarrow> (bytes \<times> bytes) list option" where
  "scan_all t =
     do { l \<leftarrow> find_leftmost_leaf t;
          leaf_walk t (\<lambda>results leaf. (results @ leaf_entries leaf, False)) [] (Some l) }"

definition prefix_scan :: "btree \<Rightarrow> bytes \<Rightarrow> (bytes \<times> bytes) list option" where
  "prefix_scan t pre =
     (if pre = [] then scan_all t
      else
        do { l \<leftarrow> find_leaf_read t pre;
             (first, results) \<leftarrow> leaf_walk t
               (\<lambda>(first, results) leaf.
                  case prefix_leaf pre (drop (start_index pre first leaf) (leaf_entries leaf)) results of
                    (r, stop) \<Rightarrow> ((False, r), stop))
               (True, []) (Some l);
             Some results })"

text \<open>A \<open>FnMut\<close> callback is a function on its captured state that also says whether to go on.\<close>

fun each_leaf :: "('s \<Rightarrow> 'x \<Rightarrow> 's \<times> bool) \<Rightarrow> 's \<Rightarrow> 'x list \<Rightarrow> 's \<times> bool" where
  "each_leaf f s [] = (s, False)"
| "each_leaf f s (x # xs) = (case f s x of (s', True) \<Rightarrow> each_leaf f s' xs | (s', False) \<Rightarrow> (s', True))"

definition for_each :: "btree \<Rightarrow> ('s \<Rightarrow> bytes \<times> bytes \<Rightarrow> 's \<times> bool) \<Rightarrow> 's \<Rightarrow> 's option" where
  "for_each t f s =
     do { l \<leftarrow> find_leftmost_leaf t;
          leaf_walk t (\<lambda>s leaf. each_leaf f s (leaf_entries leaf)) s (Some l) }"

definition collect_leaves :: "btree \<Rightarrow> (bytes \<times> bytes) list list option" where
  "collect_leaves t =
     do { l \<leftarrow> find_leftmost_leaf t;
          leaf_walk t (\<lambda>ls leaf. (if leaf_entries leaf \<noteq> [] then ls @ [leaf_entries leaf] else ls, False)) [] (Some l) }"

definition collect_leaf_values :: "btree \<Rightarrow> bytes list list option" where
  "collect_leaf_values t =
     do { l \<leftarrow> find_leftmost_leaf t;
          leaf_walk t (\<lambda>ls leaf. (if lvalues leaf \<noteq> [] then ls @ [lvalues leaf] else ls, False)) [] (Some l) }"

definition for_each_leaf_batch :: "btree \<Rightarrow> ('s \<Rightarrow> bytes list \<Rightarrow> 's \<times> bool) \<Rightarrow> 's \<Rightarrow> 's option" where
  "for_each_leaf_batch t f s =
     do { l \<leftarrow> find_leftmost_leaf t;
          leaf_walk t (\<lambda>s leaf. if lvalues leaf \<noteq> [] then (case f s (lvalues leaf) of (s', go) \<Rightarrow> (s', \<not> go))
                                else (s, False)) s (Some l) }"

text \<open>\<open>for_each_batch\<close> carries the pending batch from leaf to leaf; \<open>stopped\<close> records the early return.\<close>

fun batch_leaf :: "nat \<Rightarrow> ('s \<Rightarrow> bytes list \<Rightarrow> 's \<times> bool) \<Rightarrow> 's \<times> bytes list \<times> bool \<Rightarrow> bytes list \<Rightarrow> ('s \<times> bytes list \<times> bool) \<times> bool" where
  "batch_leaf n f st [] = (st, False)"
| "batch_leaf n f (s, batch, stopped) (v # vs) =
     (let batch' = batch @ [v] in
      if length batch' \<ge> n
      then (case f s batch' of
              (s', True) \<Rightarrow> batch_leaf n f (s', [], False) vs
            | (s', False) \<Rightarrow> ((s', batch', True), True))
      else batch_leaf n f (s, batch', stopped) vs)"

definition for_each_batch :: "btree \<Rightarrow> nat \<Rightarrow> ('s \<Rightarrow> bytes list \<Rightarrow> 's \<times> bool) \<Rightarrow> 's \<Rightarrow> 's option" where
  "for_each_batch t n f s =
     do { l \<leftarrow> find_leftmost_leaf t;
          (s', batch, stopped) \<leftarrow> leaf_walk t (\<lambda>st leaf. batch_leaf n f st (lvalues leaf)) (s, [], False) (Some l);
          Some (if \<not> stopped \<and> batch \<noteq> [] then fst (f s' batch) else s') }"

definition bt_count :: "btree \<Rightarrow> nat option" where
  "bt_count t =
     do { l \<leftarrow> find_leftmost_leaf t;
          leaf_walk t (\<lambda>c leaf. (c + length (lkeys leaf), False)) 0 (Some l) }"

section \<open>Sorted entry lists\<close>

text \<open>The abstract contents: entries in strictly increasing key order. \<open>upsert\<close> and \<open>remove_key\<close> are
  the specifications of \<open>insert\<close> and \<open>delete\<close>.\<close>

definition upsert :: "bytes \<Rightarrow> bytes \<Rightarrow> (bytes \<times> bytes) list \<Rightarrow> (bytes \<times> bytes) list" where
  "upsert k v es = takeWhile (\<lambda>e. fst e < k) es @ (k, v) # dropWhile (\<lambda>e. fst e \<le> k) es"

definition remove_key :: "bytes \<Rightarrow> (bytes \<times> bytes) list \<Rightarrow> (bytes \<times> bytes) list" where
  "remove_key k es = filter (\<lambda>e. fst e \<noteq> k) es"

abbreviation ksorted :: "(bytes \<times> bytes) list \<Rightarrow> bool" where
  "ksorted es \<equiv> sorted_wrt (<) (map fst es)"

lemma upsert_simps [simp]:
  "upsert k v [] = [(k, v)]"
  "a < k \<Longrightarrow> upsert k v ((a, b) # es) = (a, b) # upsert k v es"
  "upsert k v ((k, b) # es) = (k, v) # dropWhile (\<lambda>e. fst e \<le> k) es"
  "k < a \<Longrightarrow> upsert k v ((a, b) # es) = (k, v) # (a, b) # es"
  by (auto simp: upsert_def)

lemma dropWhile_none: "\<forall>e\<in>set es. \<not> P e \<Longrightarrow> dropWhile P es = es"
  by (cases es) auto

lemma upsert_same: "ksorted ((k, b) # es) \<Longrightarrow> upsert k v ((k, b) # es) = (k, v) # es"
  by (auto simp: not_le intro!: dropWhile_none)

lemma upsert_set: "ksorted es \<Longrightarrow> fst ` set (upsert k v es) = Set.insert k (fst ` set es)"
proof (induction es)
  case (Cons e es)
  obtain a b where e: "e = (a, b)" by fastforce
  consider "a < k" | "a = k" | "k < a" by force
  then show ?case
  proof cases
    case 2 then show ?thesis using Cons e upsert_same [of k b es v] by auto
  qed (use Cons e in auto)
qed simp

lemma upsert_sorted: "ksorted es \<Longrightarrow> ksorted (upsert k v es)"
proof (induction es)
  case (Cons e es)
  obtain a b where e: "e = (a, b)" by fastforce
  consider "a < k" | "a = k" | "k < a" by force
  then show ?case
  proof cases
    case 1 then show ?thesis using Cons e upsert_set [of es k v] by (auto simp: image_iff)
  next
    case 2 then show ?thesis using Cons e upsert_same [of k b es v] by auto
  next
    case 3 then show ?thesis using Cons e by auto
  qed
qed simp

lemma map_of_upsert: "ksorted es \<Longrightarrow> map_of (upsert k v es) = (map_of es)(k \<mapsto> v)"
proof (induction es)
  case (Cons e es)
  obtain a b where e: "e = (a, b)" by fastforce
  consider "a < k" | "a = k" | "k < a" by force
  then show ?case
  proof cases
    case 2 then show ?thesis using Cons e upsert_same [of k b es v] by auto
  qed (use Cons e in auto)
qed simp

lemma map_of_remove_key: "map_of (remove_key k es) = (map_of es)(k := None)"
  unfolding remove_key_def by (induction es) auto

lemma upsert_append:
  assumes "\<forall>e\<in>set xs. fst e < k" and "\<forall>e\<in>set zs. k < fst e"
  shows "upsert k v (xs @ ys @ zs) = xs @ upsert k v ys @ zs"
proof -
  have tw: "takeWhile (\<lambda>e. fst e < k) (xs @ ys @ zs) = xs @ takeWhile (\<lambda>e. fst e < k) ys"
  proof -
    have "takeWhile (\<lambda>e. fst e < k) (ys @ zs) = takeWhile (\<lambda>e. fst e < k) ys"
      using assms(2) by (induction ys) (cases zs; auto)+
    then show ?thesis using assms(1) by (simp add: takeWhile_append2)
  qed
  have "dropWhile (\<lambda>e. fst e \<le> k) (xs @ ys @ zs) = dropWhile (\<lambda>e. fst e \<le> k) ys @ zs"
    using assms by (cases zs) (auto simp: dropWhile_append less_imp_le not_le)
  with tw show ?thesis by (simp add: upsert_def)
qed

lemma remove_key_append:
  assumes "\<forall>e\<in>set xs. fst e < k" and "\<forall>e\<in>set zs. k < fst e"
  shows "remove_key k (xs @ ys @ zs) = xs @ remove_key k ys @ zs"
proof -
  have "filter (\<lambda>e. fst e \<noteq> k) xs = xs" "filter (\<lambda>e. fst e \<noteq> k) zs = zs"
    using assms by (auto simp: filter_id_conv)
  then show ?thesis by (simp add: remove_key_def)
qed

section \<open>Searching one leaf\<close>

lemma binary_search_Cons:
  "binary_search (a # ks) k =
     (if a < k then (case binary_search ks k of Inr i \<Rightarrow> Inr (Suc i) | Inl i \<Rightarrow> Inl (Suc i))
      else if a = k then Inr 0 else Inl 0)"
  by (auto simp: binary_search_def partition_point_def Let_def)

lemma binary_search_Nil [simp]: "binary_search [] k = Inl 0"
  by (simp add: binary_search_def partition_point_def)

lemma vec_simps [simp]:
  "vec_insert 0 x xs = x # xs" "vec_insert (Suc i) x (y # xs) = y # vec_insert i x xs"
  "vec_remove 0 (x # xs) = xs" "vec_remove (Suc i) (y # xs) = y # vec_remove i xs"
  by (simp_all add: vec_insert_def vec_remove_def)

lemma binary_search_found:
  assumes "sorted_wrt (<) ks" and "length vs = length ks" and "binary_search ks k = Inr i"
  shows "i < length ks" and "ks ! i = k" and "map_of (zip ks vs) k = Some (vs ! i)"
    and "zip ks (vs[i := v]) = upsert k v (zip ks vs)"
    and "zip (vec_remove i ks) (vec_remove i vs) = remove_key k (zip ks vs)"
    and "set (vec_remove i ks) \<subseteq> set ks" "sorted_wrt (<) (vec_remove i ks)"
    and "length (vec_remove i ks) = length ks - 1" "length (vec_remove i vs) = length ks - 1"
proof -
  have "i < length ks \<and> ks ! i = k \<and> map_of (zip ks vs) k = Some (vs ! i) \<and>
    zip ks (vs[i := v]) = upsert k v (zip ks vs) \<and>
    zip (vec_remove i ks) (vec_remove i vs) = remove_key k (zip ks vs)"
    using assms
  proof (induction ks arbitrary: vs i)
    case (Cons a ks)
    obtain b vs' where vs: "vs = b # vs'" "length vs' = length ks" using Cons.prems(2) by (cases vs) auto
    consider (lt) j where "a < k" "binary_search ks k = Inr j" "i = Suc j" | (eq) "a = k" "i = 0"
      using Cons.prems(3) by (auto simp: binary_search_Cons split: if_splits sum.splits)
    then show ?case
    proof cases
      case lt
      then show ?thesis using Cons.IH [OF _ vs(2) lt(2)] Cons.prems(1) vs by (auto simp: remove_key_def)
    next
      case eq
      have "filter (\<lambda>e. fst e \<noteq> k) (zip ks vs') = zip ks vs'"
        using Cons.prems(1) eq by (auto simp: filter_id_conv dest: set_zip_leftD)
      moreover have "dropWhile (\<lambda>e. fst e \<le> k) (zip ks vs') = zip ks vs'"
        using Cons.prems(1) eq by (intro dropWhile_none) (auto simp: not_le dest: set_zip_leftD)
      ultimately show ?thesis using eq vs by (simp add: remove_key_def)
    qed
  qed simp
  then show "i < length ks" "ks ! i = k" "map_of (zip ks vs) k = Some (vs ! i)"
    "zip ks (vs[i := v]) = upsert k v (zip ks vs)"
    "zip (vec_remove i ks) (vec_remove i vs) = remove_key k (zip ks vs)" by auto
  then show "length (vec_remove i ks) = length ks - 1" "length (vec_remove i vs) = length ks - 1"
    using assms(2) by (auto simp: vec_remove_def)
  show "set (vec_remove i ks) \<subseteq> set ks"
    by (auto simp: vec_remove_def dest: in_set_takeD in_set_dropD)
  have "sorted_wrt (<) (take i ks @ drop i ks)" using assms(1) by simp
  then have "sorted_wrt (<) (take i ks @ drop (Suc i) ks)"
    using \<open>i < length ks\<close> by (subst (asm) Cons_nth_drop_Suc [symmetric]) (auto simp: sorted_wrt_append)
  then show "sorted_wrt (<) (vec_remove i ks)" by (simp add: vec_remove_def)
qed

lemma binary_search_missing:
  assumes "sorted_wrt (<) ks" and "length vs = length ks" and "binary_search ks k = Inl i"
  shows "i \<le> length ks" and "k \<notin> set ks"
    and "zip (vec_insert i k ks) (vec_insert i v vs) = upsert k v (zip ks vs)"
    and "remove_key k (zip ks vs) = zip ks vs"
    and "length (vec_insert i k ks) = Suc (length ks)" "length (vec_insert i v vs) = Suc (length ks)"
    and "set (vec_insert i k ks) = Set.insert k (set ks)" "sorted_wrt (<) (vec_insert i k ks)"
proof -
  have *: "i \<le> length ks \<and> k \<notin> set ks \<and>
    zip (vec_insert i k ks) (vec_insert i v vs) = upsert k v (zip ks vs)"
    using assms
  proof (induction ks arbitrary: vs i)
    case (Cons a ks)
    obtain b vs' where vs: "vs = b # vs'" "length vs' = length ks" using Cons.prems(2) by (cases vs) auto
    consider (lt) j where "a < k" "binary_search ks k = Inl j" "i = Suc j" | (gt) "k < a" "i = 0"
      using Cons.prems(3) by (auto simp: binary_search_Cons split: if_splits sum.splits)
    then show ?case
    proof cases
      case lt
      then show ?thesis using Cons.IH [OF _ vs(2) lt(2)] Cons.prems(1) vs by auto
    next
      case gt
      then show ?thesis using Cons.prems(1) vs by auto
    qed
  qed (simp add: vec_insert_def)
  then show "i \<le> length ks" "k \<notin> set ks"
    and z: "zip (vec_insert i k ks) (vec_insert i v vs) = upsert k v (zip ks vs)" by auto
  then show "remove_key k (zip ks vs) = zip ks vs"
    by (auto simp: remove_key_def filter_id_conv dest: set_zip_leftD)
  show l: "length (vec_insert i k ks) = Suc (length ks)" "length (vec_insert i v vs) = Suc (length ks)"
    using * assms(2) by (auto simp: vec_insert_def)
  show "set (vec_insert i k ks) = Set.insert k (set ks)"
    unfolding vec_insert_def by (metis Un_insert_right append_take_drop_id list.simps(15) set_append)
  have "ksorted (zip ks vs)" using assms(1,2) by simp
  then have "ksorted (zip (vec_insert i k ks) (vec_insert i v vs))"
    unfolding z by (rule upsert_sorted)
  then show "sorted_wrt (<) (vec_insert i k ks)" using l by simp
qed

section \<open>The invariant\<close>

abbreviation nd :: "btree \<Rightarrow> nat \<Rightarrow> btree_node" where "nd t i \<equiv> nodes t ! i"

definition leaf_of :: "btree_node \<Rightarrow> leaf_node" where
  "leaf_of n = (case n of NLeaf l \<Rightarrow> l
     | NInternal _ \<Rightarrow> \<lparr>lkeys = [], lvalues = [], lhigh_key = None, lright_link = None\<rparr>)"

lemma leaf_of_simp [simp]: "leaf_of (NLeaf l) = l"
  by (simp add: leaf_of_def)

text \<open>A level is a chain of right links in which every node but the last has a high key.\<close>

fun linked :: "btree \<Rightarrow> nat list \<Rightarrow> bool" where
  "linked t [] = True"
| "linked t [x] = (right_link (nd t x) = None)"
| "linked t (x # y # zs) = (right_link (nd t x) = Some y \<and> high_key (nd t x) \<noteq> None \<and> linked t (y # zs))"

text \<open>The high key of a leaf separates its keys from those of all leaves to the right.\<close>

fun fenced :: "leaf_node list \<Rightarrow> bool" where
  "fenced [] = True"
| "fenced (l # ls) =
     ((ls \<noteq> [] \<longrightarrow> (\<exists>h. lhigh_key l = Some h \<and> (\<forall>k\<in>set (lkeys l). k \<le> h) \<and>
        (\<forall>b\<in>set ls. \<forall>k\<in>set (lkeys b). h < k))) \<and> fenced ls)"

definition leaf_ok :: "nat \<Rightarrow> leaf_node \<Rightarrow> bool" where
  "leaf_ok ord l \<longleftrightarrow> sorted_wrt (<) (lkeys l) \<and> length (lvalues l) = length (lkeys l) \<and> length (lkeys l) < ord"

text \<open>\<open>below t ls c k\<close>: every leaf of the chain \<open>ls\<close> before \<open>c\<close> has a high key smaller than \<open>k\<close>, so the
  leaf for any key from \<open>k\<close> on is \<open>c\<close> or to the right of \<open>c\<close>.\<close>

definition below :: "btree \<Rightarrow> nat list \<Rightarrow> nat \<Rightarrow> bytes \<Rightarrow> bool" where
  "below t ls c k \<longleftrightarrow> (\<forall>l\<in>set (takeWhile (\<lambda>x. x \<noteq> c) ls). \<exists>h. high_key (nd t l) = Some h \<and> h < k)"

definition internal_ok :: "btree \<Rightarrow> nat list \<Rightarrow> (nat \<Rightarrow> nat) \<Rightarrow> nat set \<Rightarrow> internal_node \<Rightarrow> bool" where
  "internal_ok t ls F lower n \<longleftrightarrow>
     length (children n) = Suc (length (ikeys n)) \<and> sorted (ikeys n) \<and> length (ikeys n) < order t \<and>
     set (children n) \<subseteq> lower \<and>
     (\<forall>i < length (ikeys n). below t ls (F (children n ! Suc i)) (ikeys n ! i)) \<and>
     (\<forall>h r. ihigh_key n = Some h \<longrightarrow> iright_link n = Some r \<longrightarrow> below t ls (F r) h)"

definition level_ok :: "btree \<Rightarrow> nat list \<Rightarrow> (nat \<Rightarrow> nat) \<Rightarrow> nat set \<Rightarrow> nat list \<Rightarrow> bool" where
  "level_ok t ls F lower up \<longleftrightarrow>
     (\<forall>x\<in>set up. \<exists>n. nd t x = NInternal n \<and> internal_ok t ls F lower n \<and> F x = F (children n ! 0))"

definition entries :: "btree \<Rightarrow> nat list \<Rightarrow> (bytes \<times> bytes) list" where
  "entries t ls = concat (map (\<lambda>l. leaf_entries (leaf_of (nd t l))) ls)"

text \<open>\<open>lv\<close> lists the levels from the leaves upwards, \<open>F\<close> gives the leftmost leaf under each node.\<close>

definition bt_ok :: "btree \<Rightarrow> nat list list \<Rightarrow> (nat \<Rightarrow> nat) \<Rightarrow> bool" where
  "bt_ok t lv F \<longleftrightarrow>
     2 \<le> order t \<and> lv \<noteq> [] \<and> last lv \<noteq> [] \<and> hd (last lv) = root t \<and> F (root t) = hd (hd lv) \<and>
     distinct (concat lv) \<and>
     (\<forall>ls\<in>set lv. linked t ls \<and> (\<forall>x\<in>set ls. x < length (nodes t) \<and> F x \<in> set (hd lv))) \<and>
     (\<forall>l\<in>set (hd lv). F l = l \<and> (\<exists>lf. nd t l = NLeaf lf \<and> leaf_ok (order t) lf)) \<and>
     fenced (map (\<lambda>l. leaf_of (nd t l)) (hd lv)) \<and>
     (\<forall>j. Suc j < length lv \<longrightarrow> level_ok t (hd lv) F (set (lv ! j)) (lv ! Suc j)) \<and>
     tlen t = of_nat (length (entries t (hd lv)))"

lemma bt_okD:
  assumes "bt_ok t lv F"
  shows "2 \<le> order t" "lv \<noteq> []" "last lv \<noteq> []" "hd (last lv) = root t" "F (root t) = hd (hd lv)"
    and "distinct (concat lv)" and "\<And>ls. ls \<in> set lv \<Longrightarrow> linked t ls"
    and "\<And>ls x. ls \<in> set lv \<Longrightarrow> x \<in> set ls \<Longrightarrow> x < length (nodes t)"
    and "\<And>ls x. ls \<in> set lv \<Longrightarrow> x \<in> set ls \<Longrightarrow> F x \<in> set (hd lv)"
    and "\<And>l. l \<in> set (hd lv) \<Longrightarrow> F l = l"
    and "\<And>l. l \<in> set (hd lv) \<Longrightarrow> \<exists>lf. nd t l = NLeaf lf \<and> leaf_ok (order t) lf"
    and "fenced (map (\<lambda>l. leaf_of (nd t l)) (hd lv))"
    and "\<And>j. Suc j < length lv \<Longrightarrow> level_ok t (hd lv) F (set (lv ! j)) (lv ! Suc j)"
    and "tlen t = of_nat (length (entries t (hd lv)))"
  using assms unfolding bt_ok_def by blast+

section \<open>Descending\<close>

lemma node_at_nd: "i < length (nodes t) \<Longrightarrow> node_at t i = Some (nd t i)"
  by (simp add: node_at_def)

lemma linked_suffix: "linked t (A @ x # B) \<Longrightarrow> linked t (x # B)"
proof (induction A)
  case (Cons a A)
  then show ?case by (cases "A @ x # B") auto
qed simp

text \<open>Moving right along a chain ends, and carries along every predicate that the right links respect.\<close>

lemma move_right_chain:
  assumes "linked t (x # B)" and "\<And>y. y \<in> set (x # B) \<Longrightarrow> y < length (nodes t)" and "P x"
    and "\<And>a b. a \<in> set (x # B) \<Longrightarrow> b \<in> set (x # B) \<Longrightarrow> right_link (nd t a) = Some b \<Longrightarrow>
      should_move (nd t a) k \<Longrightarrow> P a \<Longrightarrow> P b"
  obtains y where "move_right_read t x k = Some y" and "y \<in> set (x # B)" and "P y"
    and "\<not> should_move (nd t y) k"
  using assms
proof (induction B arbitrary: x thesis)
  case Nil
  then have "\<not> should_move (nd t x) k" by (simp add: should_move_def split: option.splits)
  with Nil show ?case by (auto simp: move_right_read.simps [of t x] node_at_nd)
next
  case (Cons z B)
  show ?case
  proof (cases "should_move (nd t x) k")
    case False
    then show ?thesis using Cons.prems by (auto simp: move_right_read.simps [of t x] node_at_nd)
  next
    case True
    have z: "right_link (nd t x) = Some z" "linked t (z # B)" using Cons.prems(2) by auto
    have "P z" using Cons.prems(5) [of x z] z(1) True Cons.prems(4) by simp
    have bd: "y < length (nodes t)" if "y \<in> set (z # B)" for y
      using Cons.prems(3) that by (meson list.set_intros(2))
    have st: "P b" if "a \<in> set (z # B)" "b \<in> set (z # B)" "right_link (nd t a) = Some b"
      "should_move (nd t a) k" "P a" for a b
      using Cons.prems(5) that by (meson list.set_intros(2))
    obtain y where "move_right_read t z k = Some y" "y \<in> set (z # B)" "P y" "\<not> should_move (nd t y) k"
      by (rule Cons.IH [OF _ z(2) bd \<open>P z\<close> st])
    moreover have "move_right_read t x k = move_right_read t z k"
      using True z(1) Cons.prems(3) [of x] by (simp add: move_right_read.simps [of t x] node_at_nd)
    ultimately show ?thesis using Cons.prems(1) by simp
  qed
qed

lemma below_mono: "below t ls c h \<Longrightarrow> h \<le> k \<Longrightarrow> below t ls c k"
  unfolding below_def by (meson order_less_le_trans)

lemma takeWhile_neq_split:
  "c \<in> set ls \<Longrightarrow> \<exists>B. ls = takeWhile (\<lambda>x. x \<noteq> c) ls @ c # B"
  by (induction ls) auto

lemma takeWhile_neq_append: "c \<notin> set A \<Longrightarrow> takeWhile (\<lambda>x. x \<noteq> c) (A @ c # B) = A"
  by (induction A) auto

lemma level_move:
  assumes ok: "bt_ok t lv F" and j: "j < length lv" and x: "x \<in> set (lv ! j)" and b: "below t (hd lv) (F x) k"
  obtains y where "move_right_read t x k = Some y" and "y \<in> set (lv ! j)"
    and "below t (hd lv) (F y) k" and "\<not> should_move (nd t y) k"
proof -
  note D = bt_okD [OF ok]
  have ls: "lv ! j \<in> set lv" using j by simp
  obtain A B where AB: "lv ! j = A @ x # B" using x by (meson split_list)
  have lk: "linked t (x # B)" using D(7) [OF ls] AB by (auto intro: linked_suffix)
  have step: "below t (hd lv) (F b) k"
    if ab: "a \<in> set (x # B)" "b \<in> set (x # B)" and rl: "right_link (nd t a) = Some b"
      and mv: "should_move (nd t a) k" and P: "below t (hd lv) (F a) k" for a b
  proof (cases j)
    case 0
    then have hd: "lv ! j = hd lv" using D(2) by (simp add: hd_conv_nth)
    have a: "F a = a" "F b = b" using D(10) ab AB hd by auto
    obtain A' B' where s: "hd lv = A' @ a # B'" using ab AB hd by (metis Un_iff append_assoc in_set_conv_decomp set_append)
    have dist: "distinct (hd lv)" using D(6,2) by (cases lv) auto
    then have "a \<notin> set A'" using s by auto
    have "linked t (a # B')" using D(7) [OF ls] hd s by (metis linked_suffix)
    then obtain B'' where B': "B' = b # B''" using rl by (cases B') auto
    have "takeWhile (\<lambda>z. z \<noteq> b) (hd lv) = A' @ [a]"
      using takeWhile_neq_append [of b "A' @ [a]" B''] dist s B' by auto
    moreover have "takeWhile (\<lambda>z. z \<noteq> a) (hd lv) = A'"
      using takeWhile_neq_append [OF \<open>a \<notin> set A'\<close>] s by simp
    ultimately show ?thesis
      using P mv a unfolding below_def by (auto simp: should_move_def split: option.splits)
  next
    case (Suc i)
    have "a \<in> set (lv ! Suc i)" using ab AB Suc by auto
    then obtain n where n: "nd t a = NInternal n" "internal_ok t (hd lv) F (set (lv ! i)) n"
      using D(13) [of i] j Suc by (auto simp: level_ok_def)
    obtain h where h: "ihigh_key n = Some h" "h < k"
      using mv n(1) by (auto simp: should_move_def split: option.splits)
    then have "below t (hd lv) (F b) h" using n rl by (auto simp: internal_ok_def)
    then show ?thesis using h(2) by (auto intro: below_mono)
  qed
  show thesis
    by (rule move_right_chain [where P = "\<lambda>y. below t (hd lv) (F y) k", OF lk _ b step])
       (use D(8) [OF ls] AB that in auto)
qed

lemma partition_point_le: "partition_point P xs \<le> length xs"
  by (simp add: partition_point_def length_takeWhile_le)

lemma partition_point_nth: "i < partition_point P xs \<Longrightarrow> P (xs ! i)"
  unfolding partition_point_def by (metis nth_mem set_takeWhileD takeWhile_nth)

lemma child_step:
  assumes n: "internal_ok t ls F lower n" "F x = F (children n ! 0)" and b: "below t ls (F x) k"
  defines "idx \<equiv> partition_point (\<lambda>s. s \<le> k) (ikeys n)"
  shows "idx < length (children n)" and "children n ! idx \<in> lower" and "below t ls (F (children n ! idx)) k"
proof -
  have len: "length (children n) = Suc (length (ikeys n))" using n by (simp add: internal_ok_def)
  have "idx \<le> length (ikeys n)" unfolding idx_def by (rule partition_point_le)
  then show idx: "idx < length (children n)" using len by simp
  then show "children n ! idx \<in> lower" using n by (auto simp: internal_ok_def)
  show "below t ls (F (children n ! idx)) k"
  proof (cases idx)
    case 0 then show ?thesis using n b by simp
  next
    case (Suc i)
    then have "ikeys n ! i \<le> k" using partition_point_nth [of i "\<lambda>s. s \<le> k"] by (simp add: idx_def)
    moreover have "below t ls (F (children n ! Suc i)) (ikeys n ! i)"
      using n idx len Suc by (simp add: internal_ok_def)
    ultimately show ?thesis using Suc by (auto intro: below_mono)
  qed
qed

text \<open>The descent from any node that is not past the key's leaf reaches the leaf for the key; \<open>insert\<close>
  also remembers one node of each level on the way.\<close>

lemma descend:
  assumes ok: "bt_ok t lv F" and j: "j < length lv" and x: "x \<in> set (lv ! j)" and b: "below t (hd lv) (F x) k"
  obtains y ps where "find_leaf_from t k x = Some y"
    and "\<And>path. insert_descend t k x path = Some (y, path @ ps)"
    and "list_all2 (\<lambda>p ls. p \<in> set ls) (rev ps) (take j (tl lv))"
    and "y \<in> set (hd lv)" and "below t (hd lv) y k" and "\<not> should_move (nd t y) k"
  using j x b
proof (induction j arbitrary: x thesis)
  case 0
  note D = bt_okD [OF ok]
  have hd: "lv ! 0 = hd lv" using D(2) by (simp add: hd_conv_nth)
  obtain y where y: "move_right_read t x k = Some y" "y \<in> set (hd lv)" "below t (hd lv) (F y) k"
    "\<not> should_move (nd t y) k" using level_move [OF ok 0(2,3,4)] hd by metis
  obtain lf where lf: "nd t y = NLeaf lf" using D(11) y(2) by blast
  have na: "node_at t y = Some (NLeaf lf)" using D(8) [of "hd lv" y] y(2) D(2) lf by (auto simp: node_at_nd)
  show ?case
    by (rule 0(1) [of y "[]"])
       (use y D(10) na in \<open>auto simp: find_leaf_from.simps [of t k x] insert_descend.simps [of t k x] move_right_write_def\<close>)
next
  case (Suc j)
  note D = bt_okD [OF ok]
  obtain y where y: "move_right_read t x k = Some y" "y \<in> set (lv ! Suc j)" "below t (hd lv) (F y) k"
    using level_move [OF ok Suc.prems(2,3,4)] by metis
  obtain n where n: "nd t y = NInternal n" "internal_ok t (hd lv) F (set (lv ! j)) n" "F y = F (children n ! 0)"
    using D(13) [OF Suc.prems(2)] y(2) by (auto simp: level_ok_def)
  have na: "node_at t y = Some (NInternal n)"
    using D(8) [of "lv ! Suc j" y] y(2) Suc.prems(2) n by (auto simp: node_at_nd)
  let ?c = "children n ! partition_point (\<lambda>s. s \<le> k) (ikeys n)"
  note c = child_step [OF n(2,3) y(3)]
  obtain z ps where z: "find_leaf_from t k ?c = Some z" "\<And>path. insert_descend t k ?c path = Some (z, path @ ps)"
    "list_all2 (\<lambda>p ls. p \<in> set ls) (rev ps) (take j (tl lv))"
    "z \<in> set (hd lv)" "below t (hd lv) z k" "\<not> should_move (nd t z) k"
    using Suc.IH [OF _ _ c(2,3)] Suc.prems(2) by (metis Suc_lessD)
  have "take (Suc j) (tl lv) = take j (tl lv) @ [lv ! Suc j]"
    using Suc.prems(2) by (simp add: take_Suc_conv_app_nth nth_tl)
  then have "list_all2 (\<lambda>p ls. p \<in> set ls) (rev (y # ps)) (take (Suc j) (tl lv))"
    using z(3) y(2) by (simp add: list_all2_appendI)
  then show ?case
    by (intro Suc.prems(1) [of z "y # ps"])
       (use y z c na in \<open>auto simp: find_leaf_from.simps [of t k x] insert_descend.simps [of t k x] move_right_write_def\<close>)
qed

section \<open>The leaf of a key\<close>

lemma fenced_Cons_tl: "fenced (A @ B) \<Longrightarrow> fenced B"
  by (induction A) auto

lemma fenced_before:
  assumes "fenced (A @ l # B)" and "a \<in> set A"
  shows "\<exists>h. lhigh_key a = Some h \<and> (\<forall>k\<in>set (lkeys a). k \<le> h) \<and>
    (\<forall>b\<in>set (l # B). \<forall>k\<in>set (lkeys b). h < k)"
  using assms by (induction A) (auto, blast)

lemma leaf_entries_keys: "e \<in> set (leaf_entries l) \<Longrightarrow> fst e \<in> set (lkeys l)"
  by (cases e) (auto simp: leaf_entries_def dest: set_zip_leftD)

lemma entries_append [simp]: "entries t (xs @ ys) = entries t xs @ entries t ys"
  by (simp add: entries_def)

lemma entries_Nil [simp]: "entries t [] = []"
  by (simp add: entries_def)

lemma entries_Cons [simp]: "entries t (x # xs) = leaf_entries (leaf_of (nd t x)) @ entries t xs"
  by (simp add: entries_def)

lemma entriesE:
  assumes "e \<in> set (entries t ls)"
  obtains l where "l \<in> set ls" and "fst e \<in> set (lkeys (leaf_of (nd t l)))"
  using assms by (auto simp: entries_def dest: leaf_entries_keys)

lemma hd_mem: "bt_ok t lv F \<Longrightarrow> hd lv \<in> set lv"
  using bt_okD(2) by auto

lemma hd_distinct: "bt_ok t lv F \<Longrightarrow> distinct (hd lv)"
  using bt_okD(2,6) [of t lv F] by (cases lv) auto

text \<open>The leaf found for a key splits the chain: everything before holds smaller keys and has a smaller
  high key, everything after holds larger keys.\<close>

definition located ::
  "btree \<Rightarrow> nat list list \<Rightarrow> bytes \<Rightarrow> nat \<Rightarrow> nat list \<Rightarrow> nat list \<Rightarrow> nat list \<Rightarrow> leaf_node \<Rightarrow> bool" where
  "located t lv k y ps A B lf \<longleftrightarrow>
     find_leaf_read t k = Some y \<and> insert_descend t k (root t) [] = Some (y, ps) \<and>
     list_all2 (\<lambda>p ls. p \<in> set ls) (rev ps) (tl lv) \<and> hd lv = A @ y # B \<and>
     node_at t y = Some (NLeaf lf) \<and> nd t y = NLeaf lf \<and> leaf_ok (order t) lf \<and>
     \<not> should_move (NLeaf lf) k \<and>
     (\<forall>a\<in>set A. \<exists>h. lhigh_key (leaf_of (nd t a)) = Some h \<and> h < k) \<and>
     (B \<noteq> [] \<longrightarrow> (\<exists>h. lhigh_key lf = Some h \<and> k \<le> h)) \<and>
     (\<forall>e\<in>set (entries t A). fst e < k) \<and> (\<forall>e\<in>set (entries t B). k < fst e)"

lemma locatedD:
  assumes "located t lv k y ps A B lf"
  shows "find_leaf_read t k = Some y" "insert_descend t k (root t) [] = Some (y, ps)"
    "list_all2 (\<lambda>p ls. p \<in> set ls) (rev ps) (tl lv)" "hd lv = A @ y # B"
    "node_at t y = Some (NLeaf lf)" "nd t y = NLeaf lf" "leaf_ok (order t) lf" "\<not> should_move (NLeaf lf) k"
    "\<forall>a\<in>set A. \<exists>h. lhigh_key (leaf_of (nd t a)) = Some h \<and> h < k"
    "B \<noteq> [] \<longrightarrow> (\<exists>h. lhigh_key lf = Some h \<and> k \<le> h)"
    "\<forall>e\<in>set (entries t A). fst e < k" "\<forall>e\<in>set (entries t B). k < fst e"
    "sorted_wrt (<) (lkeys lf)" "length (lvalues lf) = length (lkeys lf)"
  using assms unfolding located_def leaf_ok_def by auto

lemma locate:
  assumes ok: "bt_ok t lv F"
  obtains y ps A B lf where "located t lv k y ps A B lf"
proof -
  note D = bt_okD [OF ok]
  let ?j = "length lv - 1"
  have root: "?j < length lv" "root t \<in> set (lv ! ?j)"
    using D(2-4) by (auto simp: last_conv_nth) (metis hd_in_set last_conv_nth)
  have "takeWhile (\<lambda>x. x \<noteq> F (root t)) (hd lv) = []"
    using D(5) by (cases "hd lv") auto
  then have "below t (hd lv) (F (root t)) k" by (simp add: below_def)
  then obtain y ps where y: "find_leaf_from t k (root t) = Some y"
    "\<And>path. insert_descend t k (root t) path = Some (y, path @ ps)"
    "list_all2 (\<lambda>p ls. p \<in> set ls) (rev ps) (take ?j (tl lv))"
    "y \<in> set (hd lv)" "below t (hd lv) y k" "\<not> should_move (nd t y) k"
    using descend [OF ok root] by metis
  obtain lf where lf: "nd t y = NLeaf lf" "leaf_ok (order t) lf" using D(11) y(4) by blast
  obtain A B where AB: "hd lv = A @ y # B" and A: "takeWhile (\<lambda>x. x \<noteq> y) (hd lv) = A"
    using takeWhile_neq_split [OF y(4)] by blast
  have na: "node_at t y = Some (NLeaf lf)" using D(8) [OF hd_mem [OF ok] y(4)] lf by (simp add: node_at_nd)
  have leaf: "\<exists>l. nd t a = NLeaf l" if "a \<in> set (hd lv)" for a using D(11) that by blast
  have hkA: "\<exists>h. lhigh_key (leaf_of (nd t a)) = Some h \<and> h < k" if "a \<in> set A" for a
  proof -
    have "a \<in> set (hd lv)" using AB that by simp
    then obtain l where "nd t a = NLeaf l" using leaf by blast
    then show ?thesis using y(5) that A by (auto simp: below_def)
  qed
  have lk: "linked t (y # B)" using D(7) [OF hd_mem [OF ok]] AB by (auto intro: linked_suffix)
  have hkB: "\<exists>h. lhigh_key lf = Some h \<and> k \<le> h" if "B \<noteq> []"
    using that lk y(6) lf by (cases B) (auto simp: should_move_def)
  have fen: "fenced (map (\<lambda>l. leaf_of (nd t l)) A @ leaf_of (nd t y) # map (\<lambda>l. leaf_of (nd t l)) B)"
    using D(12) AB by simp
  have EA: "fst e < k" if e: "e \<in> set (entries t A)" for e
  proof -
    obtain a where a: "a \<in> set A" "fst e \<in> set (lkeys (leaf_of (nd t a)))" using e by (rule entriesE)
    have "leaf_of (nd t a) \<in> set (map (\<lambda>l. leaf_of (nd t l)) A)" using a by simp
    from fenced_before [OF fen this] show ?thesis using hkA [OF a(1)] a(2) by force
  qed
  have EB: "k < fst e" if e: "e \<in> set (entries t B)" for e
  proof -
    obtain b where b: "b \<in> set B" "fst e \<in> set (lkeys (leaf_of (nd t b)))" using e by (rule entriesE)
    then have "B \<noteq> []" by auto
    then show ?thesis using hkB fenced_Cons_tl [OF fen] b lf by force
  qed
  have "take ?j (tl lv) = tl lv" by simp
  then have "located t lv k y ps A B lf"
    unfolding located_def using y AB lf na hkA hkB EA EB by (auto simp: find_leaf_read_def)
  then show thesis by (rule that)
qed

lemma entries_sorted:
  assumes ok: "bt_ok t lv F"
  shows "ksorted (entries t (hd lv))"
proof -
  have "ksorted (entries t ls)" if "fenced (map (\<lambda>l. leaf_of (nd t l)) ls)"
    and "\<And>l. l \<in> set ls \<Longrightarrow> leaf_ok (order t) (leaf_of (nd t l))" for ls
    using that
  proof (induction ls)
    case (Cons l ls)
    have "ksorted (leaf_entries (leaf_of (nd t l)))"
      using Cons.prems(2) [of l] by (simp add: leaf_entries_def leaf_ok_def)
    moreover have "fst e < fst e'" if e: "e \<in> set (leaf_entries (leaf_of (nd t l)))" "e' \<in> set (entries t ls)" for e e'
    proof -
      obtain b where "b \<in> set ls" "fst e' \<in> set (lkeys (leaf_of (nd t b)))" using e(2) by (rule entriesE)
      then show ?thesis using Cons.prems(1) leaf_entries_keys [OF e(1)] by force
    qed
    ultimately show ?case using Cons by (auto simp: sorted_wrt_append)
  qed simp
  moreover have "leaf_ok (order t) (leaf_of (nd t l))" if "l \<in> set (hd lv)" for l
    using bt_okD(11) [OF ok that] by auto
  ultimately show ?thesis using bt_okD(12) [OF ok] by blast
qed

lemma map_of_middle:
  assumes "\<forall>e\<in>set xs. fst e < (k :: bytes)" and "\<forall>e\<in>set zs. k < fst e"
  shows "map_of (xs @ ys @ zs) k = map_of ys k"
proof -
  have "k \<notin> fst ` set xs" using assms(1) by force
  moreover have "k \<notin> fst ` set zs" using assms(2) by force
  ultimately have "map_of xs k = None" "map_of zs k = None" by (simp_all add: map_of_eq_None_iff)
  then show ?thesis by (simp add: map_add_def split: option.splits)
qed

lemma search_ok:
  assumes ok: "bt_ok t lv F"
  shows "bt_search t k = Some (map_of (entries t (hd lv)) k)"
proof -
  obtain y ps A B lf where "located t lv k y ps A B lf" by (rule locate [OF ok])
  note L = locatedD [OF this]
  have eq: "map_of (entries t (hd lv)) k = map_of (zip (lkeys lf) (lvalues lf)) k"
    using map_of_middle [of "entries t A" k "entries t B"] L(4,6,11,12) by (simp add: leaf_entries_def)
  show ?thesis
  proof (cases "binary_search (lkeys lf) k")
    case (Inl i)
    then have "map_of (zip (lkeys lf) (lvalues lf)) k = None"
      using binary_search_missing(2) [OF L(13,14) Inl] L(14) by (auto simp: map_of_zip_is_None)
    then show ?thesis using L(1,5) eq Inl by (simp add: bt_search_def)
  next
    case (Inr i)
    then show ?thesis using L(1,5) eq Inr binary_search_found(1,3) [OF L(13,14) Inr] L(14) by (simp add: bt_search_def)
  qed
qed

section \<open>Changing the leaf level\<close>

lemma linked_right: "linked t ls \<Longrightarrow> x \<in> set ls \<Longrightarrow> right_link (nd t x) = Some r \<Longrightarrow> r \<in> set ls"
  by (induction t ls rule: linked.induct) auto

lemma linked_high: "linked t (A @ x # B) \<Longrightarrow> B \<noteq> [] \<Longrightarrow> high_key (nd t x) \<noteq> None"
  using linked_suffix [of t A x B] by (cases B) auto

lemma linked_cong:
  assumes "\<And>x. x \<in> set ls \<Longrightarrow> nd t' x = nd t x"
  shows "linked t' ls = linked t ls"
  using assms by (induction ls rule: linked.induct [of _ t]) auto

lemma linked_subst:
  assumes "linked t (A @ y # B)" and "\<And>x. x \<in> set A \<union> set B \<Longrightarrow> nd t' x = nd t x"
    and "linked t' (y # C @ B)"
  shows "linked t' (A @ y # C @ B)"
  using assms
proof (induction A)
  case (Cons a A)
  have "linked t (A @ y # B)" using Cons.prems(1) by (cases A) auto
  then have IH: "linked t' (A @ y # C @ B)" using Cons.IH Cons.prems(2,3) by simp
  have "nd t' a = nd t a" using Cons.prems(2) by simp
  then show ?case using IH Cons.prems(1) by (cases A) auto
qed simp

lemma fenced_subst:
  assumes f: "fenced (A @ l # B)" and M: "fenced M" "M \<noteq> []"
    and low: "\<forall>a\<in>set A. \<forall>h. lhigh_key a = Some h \<longrightarrow> (\<forall>m\<in>set M. \<forall>k\<in>set (lkeys m). h < k)"
    and up: "B \<noteq> [] \<longrightarrow> (\<exists>h0. lhigh_key l = Some h0 \<and>
      (\<forall>m\<in>set M. \<exists>h. lhigh_key m = Some h \<and> h \<le> h0 \<and> (\<forall>k\<in>set (lkeys m). k \<le> h)))"
  shows "fenced (A @ M @ B)"
proof -
  have lB: "fenced (l # B)" using f by (rule fenced_Cons_tl)
  have MB: "fenced (M @ B)"
  proof (cases "B = []")
    case False
    then obtain h0 where h0: "lhigh_key l = Some h0" "\<forall>b\<in>set B. \<forall>k\<in>set (lkeys b). h0 < k"
      "\<forall>m\<in>set M. \<exists>h. lhigh_key m = Some h \<and> h \<le> h0 \<and> (\<forall>k\<in>set (lkeys m). k \<le> h)"
      using lB up by auto
    show ?thesis
      using M(1) h0(3)
    proof (induction M)
      case (Cons m M)
      obtain h where h: "lhigh_key m = Some h" "h \<le> h0" "\<forall>k\<in>set (lkeys m). k \<le> h" using Cons.prems(2) by auto
      have "\<forall>b\<in>set B. \<forall>k\<in>set (lkeys b). h < k" using h0(2) h(2) by (meson order_le_less_trans)
      moreover have "\<forall>b\<in>set M. \<forall>k\<in>set (lkeys b). h < k" using Cons.prems(1) h(1) by (cases "M = []") auto
      ultimately show ?case using Cons h by auto
    qed (use lB in simp)
  qed (use M in simp)
  show ?thesis
    using f low
  proof (induction A)
    case (Cons a A)
    have IH: "fenced (A @ M @ B)" using Cons by auto
    obtain h where h: "lhigh_key a = Some h" "\<forall>k\<in>set (lkeys a). k \<le> h"
      "\<forall>b\<in>set (A @ l # B). \<forall>k\<in>set (lkeys b). h < k" using Cons.prems(1) by auto
    then have "\<forall>b\<in>set (A @ M @ B). \<forall>k\<in>set (lkeys b). h < k" using Cons.prems(2) by auto
    then show ?case using IH h by auto
  qed (use MB in simp)
qed

lemma below_split:
  assumes "distinct (A @ c # B)"
  shows "below t (A @ c # B) c k \<longleftrightarrow> (\<forall>l\<in>set A. \<exists>h. high_key (nd t l) = Some h \<and> h < k)"
proof -
  have "c \<notin> set A" using assms by auto
  then show ?thesis by (simp add: below_def takeWhile_neq_append)
qed

lemma below_subst:
  assumes b: "below t (A @ y # B) c k" and c: "c \<in> set (A @ y # B)" and d: "distinct (A @ y # C @ B)"
    and same: "\<And>x. x \<in> set A \<union> set B \<Longrightarrow> nd t' x = nd t x"
    and up: "B \<noteq> [] \<Longrightarrow> \<exists>h0. high_key (nd t y) = Some h0 \<and> (\<forall>m\<in>set (y # C). \<exists>h. high_key (nd t' m) = Some h \<and> h \<le> h0)"
  shows "below t' (A @ y # C @ B) c k"
proof -
  consider (A) "c \<in> set A" | (y) "c = y" | (B) "c \<in> set B" using c by auto
  then show ?thesis
  proof cases
    case A
    then obtain A1 A2 where s: "A = A1 @ c # A2" by (meson split_list)
    have "\<forall>l\<in>set A1. \<exists>h. high_key (nd t l) = Some h \<and> h < k"
      using b d s below_split [of A1 c "A2 @ y # B" t k] by auto
    then show ?thesis
      using d s same below_split [of A1 c "A2 @ y # C @ B" t' k] by auto
  next
    case y
    have "\<forall>l\<in>set A. \<exists>h. high_key (nd t l) = Some h \<and> h < k"
      using b d y below_split [of A y B t k] by auto
    then show ?thesis using d y same below_split [of A y "C @ B" t' k] by auto
  next
    case B
    then obtain B1 B2 where s: "B = B1 @ c # B2" by (meson split_list)
    have old: "\<forall>l\<in>set (A @ y # B1). \<exists>h. high_key (nd t l) = Some h \<and> h < k"
      using b d s below_split [of "A @ y # B1" c B2 t k] by auto
    then obtain h0 where h0: "high_key (nd t y) = Some h0" "h0 < k"
      "\<forall>m\<in>set (y # C). \<exists>h. high_key (nd t' m) = Some h \<and> h \<le> h0" using up s by auto
    have "\<forall>l\<in>set (A @ (y # C) @ B1). \<exists>h. high_key (nd t' l) = Some h \<and> h < k"
      using old h0 same s by (auto; meson order_le_less_trans)
    then show ?thesis using d s below_split [of "A @ y # C @ B1" c B2 t' k] by auto
  qed
qed

lemma internal_ok_mono:
  assumes n: "internal_ok t ls F lower n" and ord: "order t' = order t" and sub: "lower \<subseteq> lower'"
    and F: "\<And>x. x \<in> lower \<or> iright_link n = Some x \<Longrightarrow> F' x = F x \<and> F x \<in> set ls"
    and b: "\<And>c k. c \<in> set ls \<Longrightarrow> below t ls c k \<Longrightarrow> below t' ls' c k"
  shows "internal_ok t' ls' F' lower' n" and "F' (children n ! 0) = F (children n ! 0)"
proof -
  have ch: "\<And>i. i < length (children n) \<Longrightarrow> children n ! i \<in> lower" and len: "length (children n) = Suc (length (ikeys n))"
    using n by (auto simp: internal_ok_def)
  then show "F' (children n ! 0) = F (children n ! 0)" using F by simp
  show "internal_ok t' ls' F' lower' n"
    unfolding internal_ok_def
  proof (intro conjI allI impI)
    fix i assume "i < length (ikeys n)"
    then show "below t' ls' (F' (children n ! Suc i)) (ikeys n ! i)"
      using n b F ch [of "Suc i"] len by (simp add: internal_ok_def)
  next
    fix h r assume "ihigh_key n = Some h" "iright_link n = Some r"
    then show "below t' ls' (F' r) h"
      using n b F [of r] by (simp add: internal_ok_def)
  qed (use n sub ord in \<open>auto simp: internal_ok_def\<close>)
qed

lemma level_ok_mono:
  assumes lo: "level_ok t ls F lower up" and lk: "linked t up"
    and same: "\<And>x. x \<in> set up \<Longrightarrow> nd t' x = nd t x" and ord: "order t' = order t"
    and sub: "lower \<subseteq> lower'" and F: "\<And>x. x \<in> lower \<union> set up \<Longrightarrow> F' x = F x \<and> F x \<in> set ls"
    and b: "\<And>c k. c \<in> set ls \<Longrightarrow> below t ls c k \<Longrightarrow> below t' ls' c k"
  shows "level_ok t' ls' F' lower' up"
  unfolding level_ok_def
proof
  fix x assume x: "x \<in> set up"
  obtain n where n: "nd t x = NInternal n" "internal_ok t ls F lower n" "F x = F (children n ! 0)"
    using lo x by (auto simp: level_ok_def)
  have F0: "F' z = F z \<and> F z \<in> set ls" if "z \<in> lower \<or> iright_link n = Some z" for z
    using that F linked_right [OF lk x] n(1) by auto
  note M = internal_ok_mono [where t' = t', OF n(2) ord sub F0 b]
  have "F' x = F' (children n ! 0)" using n(3) F x M(2) by simp
  then show "\<exists>n. nd t' x = NInternal n \<and> internal_ok t' ls' F' lower' n \<and> F' x = F' (children n ! 0)"
    using n(1) same x M(1) by auto
qed

lemma linked_insert:
  assumes lk: "linked t (A @ y # B)" and same: "\<And>x. x \<in> set A \<union> set B \<Longrightarrow> nd t' x = nd t x"
    and C: "C = [] \<or> C = [r]" and rl: "right_link (nd t' (last (y # C))) = right_link (nd t y)"
    and yr: "C = [r] \<Longrightarrow> right_link (nd t' y) = Some r \<and> high_key (nd t' y) \<noteq> None"
    and hk: "B \<noteq> [] \<Longrightarrow> high_key (nd t' (last (y # C))) \<noteq> None"
  shows "linked t' (A @ y # C @ B)"
proof (rule linked_subst [OF lk same])
  have yB: "linked t (y # B)" using lk by (rule linked_suffix)
  have last: "linked t' (last (y # C) # B)"
  proof (cases B)
    case (Cons z B')
    then have "linked t (z # B')" "right_link (nd t y) = Some z" using yB by auto
    then show ?thesis using rl hk Cons linked_cong [of "z # B'" t' t] same by auto
  qed (use rl yB in auto)
  then show "linked t' (y # C @ B)" using C yr by auto
qed

text \<open>Replacing the leaf \<open>y\<close> by \<open>y\<close> itself with other contents, or by \<open>y\<close> and a new right neighbour.\<close>

lemma leaf_subst:
  assumes ok: "bt_ok t lv F" and hd: "hd lv = A @ y # B"
    and C: "C = [] \<or> C = [r]" and r: "r = length (nodes t)" "C = [r] \<Longrightarrow> r < length (nodes t')"
    and same: "\<And>x. x < length (nodes t) \<Longrightarrow> x \<noteq> y \<Longrightarrow> nd t' x = nd t x"
    and len: "length (nodes t) \<le> length (nodes t')" and keep: "root t' = root t" "order t' = order t"
    and leaves: "\<And>m. m \<in> set (y # C) \<Longrightarrow> \<exists>lf. nd t' m = NLeaf lf \<and> leaf_ok (order t) lf"
    and fen: "fenced (map (\<lambda>m. leaf_of (nd t' m)) (y # C))"
    and low: "\<forall>a\<in>set A. \<forall>h. lhigh_key (leaf_of (nd t a)) = Some h \<longrightarrow> (\<forall>m\<in>set (y # C). \<forall>k\<in>set (lkeys (leaf_of (nd t' m))). h < k)"
    and up: "B \<noteq> [] \<Longrightarrow> \<exists>h0. lhigh_key (leaf_of (nd t y)) = Some h0 \<and>
      (\<forall>m\<in>set (y # C). \<exists>h. lhigh_key (leaf_of (nd t' m)) = Some h \<and> h \<le> h0 \<and> (\<forall>k\<in>set (lkeys (leaf_of (nd t' m))). k \<le> h))"
    and link: "right_link (nd t' (last (y # C))) = right_link (nd t y)"
      "C = [r] \<Longrightarrow> right_link (nd t' y) = Some r \<and> high_key (nd t' y) \<noteq> None"
    and tl: "tlen t' = of_nat (length (entries t' (A @ y # C @ B)))"
  shows "bt_ok t' ((A @ y # C @ B) # tl lv) (F(r := r))"
proof -
  note D = bt_okD [OF ok]
  obtain ls up where lv: "lv = ls # up" using D(2) by (cases lv) auto
  have ls: "ls = A @ y # B" using hd lv by simp
  have bd: "x < length (nodes t)" if "x \<in> set (concat lv)" for x using that D(8) by auto
  have rfresh: "r \<notin> set (concat lv)" using bd r by auto
  have dist: "distinct ((A @ y # C @ B) @ concat up)"
    using D(6) lv ls rfresh C by auto
  have sameAB: "nd t' x = nd t x" if "x \<in> set A \<union> set B" for x
    using that dist bd [of x] lv ls by (intro same) auto
  have sameup: "nd t' x = nd t x" if "x \<in> set (concat up)" for x
    using that dist bd [of x] lv ls by (intro same) auto
  have leafy: "\<exists>lf. nd t y = NLeaf lf" using D(11) hd by auto
  have upper: "\<exists>h0. high_key (nd t y) = Some h0 \<and> (\<forall>m\<in>set (y # C). \<exists>h. high_key (nd t' m) = Some h \<and> h \<le> h0)"
    if "B \<noteq> []"
  proof -
    have hk: "high_key (nd t' m) = lhigh_key (leaf_of (nd t' m))" if "m \<in> set (y # C)" for m
      using leaves [OF that] by auto
    show ?thesis using up [OF that] leafy hk by fastforce
  qed
  have b: "below t' (A @ y # C @ B) c k" if "below t ls c k" "c \<in> set ls" for c k
    using that dist ls by (intro below_subst [OF _ _ _ sameAB upper]) auto
  have lkls: "linked t' (A @ y # C @ B)"
    by (rule linked_insert [of t]) (use D(7) [of ls] lv ls C link sameAB upper in auto)
  have lkup: "linked t' xs" if "xs \<in> set up" for xs
    using that D(7) [of xs] lv sameup linked_cong [of xs t' t] by auto
  have F': "(F(r := r)) x = F x \<and> F x \<in> set ls" if "x \<in> set (concat lv)" for x
    using that rfresh D(9) lv by auto
  have levels: "level_ok t' (A @ y # C @ B) (F(r := r)) (set (((A @ y # C @ B) # up) ! j)) (((A @ y # C @ B) # up) ! Suc j)"
    if j: "Suc j < length (((A @ y # C @ B) # up))" for j
  proof -
    have uj: "up ! j \<in> set up" "up ! j \<in> set lv" "lv ! j \<in> set lv" using j lv nth_mem [of j lv] by auto
    show ?thesis
    proof (rule level_ok_mono)
      show "level_ok t ls F (set (lv ! j)) (((A @ y # C @ B) # up) ! Suc j)" using D(13) [of j] j lv by simp
      show "set (lv ! j) \<subseteq> set (((A @ y # C @ B) # up) ! j)" using lv ls by (cases j) auto
      show "linked t (((A @ y # C @ B) # up) ! Suc j)" using D(7) uj(2) by simp
      fix x assume "x \<in> set (lv ! j) \<union> set (((A @ y # C @ B) # up) ! Suc j)"
      then show "(F(r := r)) x = F x \<and> F x \<in> set ls" using uj by (intro F') auto
    qed (use keep b sameup uj in auto)
  qed
  have leaf': "(F(r := r)) l = l \<and> (\<exists>lf. nd t' l = NLeaf lf \<and> leaf_ok (order t') lf)"
    if "l \<in> set (A @ y # C @ B)" for l
  proof (cases "l \<in> set (y # C)")
    case True
    have "(F(r := r)) l = l" using True C D(10) [of y] hd by auto
    then show ?thesis using leaves [OF True] keep by simp
  next
    case False
    then have "l \<in> set A \<union> set B" using that by auto
    then show ?thesis using sameAB [of l] D(10,11) [of l] hd keep by auto
  qed
  have root: "last ((A @ y # C @ B) # up) \<noteq> []" "hd (last ((A @ y # C @ B) # up)) = root t'"
    "(F(r := r)) (root t') = hd (A @ y # C @ B)"
  proof -
    show "last ((A @ y # C @ B) # up) \<noteq> []" using D(3) lv by auto
    show rt: "hd (last ((A @ y # C @ B) # up)) = root t'" using D(4) lv ls keep by (cases A) auto
    have "root t \<in> set (last lv)" using D(3,4) by (metis hd_in_set)
    then have "root t \<in> set (concat lv)" using D(2) by auto
    then show "(F(r := r)) (root t') = hd (A @ y # C @ B)"
      using rfresh D(5) keep lv ls by (cases A) auto
  qed
  have bd': "x < length (nodes t') \<and> (F(r := r)) x \<in> set (A @ y # C @ B)"
    if "xs \<in> set ((A @ y # C @ B) # up)" "x \<in> set xs" for xs x
  proof (cases "x \<in> set (concat lv)")
    case True
    then show ?thesis using F' [OF True] bd [OF True] len ls by auto
  next
    case False
    then have "x = r" "C = [r]" using that C lv ls by auto
    then show ?thesis using r by simp
  qed
  have fenced': "fenced (map (\<lambda>l. leaf_of (nd t' l)) (A @ y # C @ B))"
  proof -
    have "fenced (map (\<lambda>l. leaf_of (nd t l)) A @ map (\<lambda>m. leaf_of (nd t' m)) (y # C) @ map (\<lambda>l. leaf_of (nd t l)) B)"
      by (rule fenced_subst [where l = "leaf_of (nd t y)"])
         (use D(12) hd fen low up in auto)
    moreover have "map (\<lambda>l. leaf_of (nd t l)) A = map (\<lambda>l. leaf_of (nd t' l)) A"
      "map (\<lambda>l. leaf_of (nd t l)) B = map (\<lambda>l. leaf_of (nd t' l)) B" using sameAB by auto
    ultimately show ?thesis by simp
  qed
  show ?thesis
    unfolding bt_ok_def
    using D(1) keep root dist lkls lkup leaf' bd' fenced' levels tl lv by auto
qed

section \<open>Writing to the leaf of a key\<close>

lemma located_fence:
  assumes ok: "bt_ok t lv F" and L: "located t lv k y ps A B lf" and sub: "set ks \<subseteq> Set.insert k (set (lkeys lf))"
  shows "\<forall>a\<in>set A. \<forall>h. lhigh_key (leaf_of (nd t a)) = Some h \<longrightarrow> (\<forall>x\<in>set ks. h < x)"
    and "B \<noteq> [] \<Longrightarrow> \<exists>h0. lhigh_key lf = Some h0 \<and> (\<forall>x\<in>set ks. x \<le> h0)"
proof -
  note L' = locatedD [OF L]
  have fen: "fenced (map (\<lambda>l. leaf_of (nd t l)) A @ lf # map (\<lambda>l. leaf_of (nd t l)) B)"
    using bt_okD(12) [OF ok] L'(4,6) by simp
  show "\<forall>a\<in>set A. \<forall>h. lhigh_key (leaf_of (nd t a)) = Some h \<longrightarrow> (\<forall>x\<in>set ks. h < x)"
  proof (intro ballI allI impI)
    fix a h x assume a: "a \<in> set A" "lhigh_key (leaf_of (nd t a)) = Some h" and x: "x \<in> set ks"
    have "leaf_of (nd t a) \<in> set (map (\<lambda>l. leaf_of (nd t l)) A)" using a by simp
    from fenced_before [OF fen this] have "\<forall>x\<in>set (lkeys lf). h < x" using a by auto
    moreover have "h < k" using L'(9) a by fastforce
    ultimately show "h < x" using sub x by auto
  qed
  assume "B \<noteq> []"
  then obtain h where "lhigh_key lf = Some h" "k \<le> h" using L'(10) by auto
  moreover have "\<forall>x\<in>set (lkeys lf). x \<le> h"
    using fenced_Cons_tl [OF fen] \<open>B \<noteq> []\<close> calculation(1) by auto
  ultimately show "\<exists>h0. lhigh_key lf = Some h0 \<and> (\<forall>x\<in>set ks. x \<le> h0)" using sub by auto
qed

lemma entries_cong:
  assumes "\<And>x. x \<in> set ls \<Longrightarrow> nd t' x = nd t x"
  shows "entries t' ls = entries t ls"
  using assms by (simp add: entries_def cong: map_cong)

lemma put_node_simps [simp]:
  "root (put_node i n t) = root t" "order (put_node i n t) = order t" "tname (put_node i n t) = tname t"
  "tlen (put_node i n t) = tlen t" "length (nodes (put_node i n t)) = length (nodes t)"
  by (simp_all add: put_node_def)

lemma nd_put_node: "y < length (nodes t) \<Longrightarrow> nd (put_node y n t) x = (if x = y then n else nd t x)"
  by (simp add: put_node_def nth_list_update)

lemma leaf_rewrite:
  assumes ok: "bt_ok t lv F" and L: "located t lv k y ps A B lf"
    and hk: "lhigh_key lf' = lhigh_key lf" "lright_link lf' = lright_link lf" and lok: "leaf_ok (order t) lf'"
    and sub: "set (lkeys lf') \<subseteq> Set.insert k (set (lkeys lf))"
    and n: "n = of_nat (length (entries t A @ leaf_entries lf' @ entries t B))"
    and t': "t' = (put_node y (NLeaf lf') t)\<lparr>tlen := n\<rparr>"
  shows "\<exists>F'. bt_ok t' lv F'" and "entries t' (hd lv) = entries t A @ leaf_entries lf' @ entries t B"
proof -
  note L' = locatedD [OF L]
  have y: "y < length (nodes t)" using bt_okD(8) [OF ok hd_mem [OF ok]] L'(4) by simp
  have nd': "nd t' x = (if x = y then NLeaf lf' else nd t x)" for x
    using y by (simp add: t' nd_put_node)
  have d: "distinct (A @ y # B)" using hd_distinct [OF ok] L'(4) by simp
  have "entries t' A = entries t A" "entries t' B = entries t B"
    using d by (auto intro!: entries_cong simp: nd')
  then show e: "entries t' (hd lv) = entries t A @ leaf_entries lf' @ entries t B"
    using L'(4) by (simp add: nd')
  have lv: "(A @ y # [] @ B) # tl lv = lv" using L'(4) bt_okD(2) [OF ok] by (cases lv) auto
  have "bt_ok t' ((A @ y # [] @ B) # tl lv) (F(length (nodes t) := length (nodes t)))"
  proof (rule leaf_subst [OF ok L'(4)])
    show "fenced (map (\<lambda>m. leaf_of (nd t' m)) [y])" by simp
    show "tlen t' = of_nat (length (entries t' (A @ y # [] @ B)))" using e n L'(4) by (simp add: t')
    show "\<forall>a\<in>set A. \<forall>h. lhigh_key (leaf_of (nd t a)) = Some h \<longrightarrow>
        (\<forall>m\<in>set [y]. \<forall>k\<in>set (lkeys (leaf_of (nd t' m))). h < k)"
      using located_fence(1) [OF ok L sub] by (simp add: nd')
    show "\<exists>h0. lhigh_key (leaf_of (nd t y)) = Some h0 \<and> (\<forall>m\<in>set [y]. \<exists>h. lhigh_key (leaf_of (nd t' m)) = Some h \<and>
        h \<le> h0 \<and> (\<forall>k\<in>set (lkeys (leaf_of (nd t' m))). k \<le> h))" if "B \<noteq> []"
      using located_fence(2) [OF ok L sub that] hk L'(6) by (auto simp: nd')
  qed (use L'(6) lok hk y in \<open>auto simp: t' nd_put_node\<close>)
  then show "\<exists>F'. bt_ok t' lv F'" unfolding lv by blast
qed

lemma delete_ok:
  assumes ok: "bt_ok t lv F"
  obtains t' F' where "bt_delete t k = Some (t', k \<in> fst ` set (entries t (hd lv)))" and "bt_ok t' lv F'"
    and "entries t' (hd lv) = remove_key k (entries t (hd lv))"
proof -
  obtain y ps A B lf where L0: "located t lv k y ps A B lf" by (rule locate [OF ok])
  note L = locatedD [OF L0]
  have all: "entries t (hd lv) = entries t A @ leaf_entries lf @ entries t B" using L(4,6) by simp
  have notAB: "k \<notin> fst ` set (entries t A)" "k \<notin> fst ` set (entries t B)" using L(11,12) by fastforce+
  have rem: "remove_key k (entries t (hd lv)) = entries t A @ remove_key k (leaf_entries lf) @ entries t B"
    using remove_key_append L(11,12) all by simp
  show thesis
  proof (cases "binary_search (lkeys lf) k")
    case (Inl i)
    note M = binary_search_missing [OF L(13,14) Inl]
    have "k \<notin> fst ` set (leaf_entries lf)" using M(2) leaf_entries_keys by fastforce
    then show thesis
      using that [of t F] ok L(1,5) Inl all notAB rem M(4)
      by (simp add: bt_delete_def find_leaf_write_def leaf_entries_def image_Un)
  next
    case (Inr i)
    note M = binary_search_found [OF L(13,14) Inr]
    let ?lf = "lf\<lparr>lkeys := vec_remove i (lkeys lf), lvalues := vec_remove i (lvalues lf)\<rparr>"
    let ?t = "(put_node y (NLeaf ?lf) t)\<lparr>tlen := tlen t - 1\<rparr>"
    have le: "leaf_entries ?lf = remove_key k (leaf_entries lf)" using M(5) by (simp add: leaf_entries_def)
    have len: "length (leaf_entries lf) = Suc (length (leaf_entries ?lf))"
      using M(1,8,9) L(14) by (simp add: leaf_entries_def)
    have lok: "leaf_ok (order t) ?lf" using L(7) M by (auto simp: leaf_ok_def)
    have n: "tlen t - 1 = of_nat (length (entries t A @ leaf_entries ?lf @ entries t B))"
      using bt_okD(14) [OF ok] all len by simp
    have R: "\<exists>F'. bt_ok ?t lv F'" "entries ?t (hd lv) = entries t A @ leaf_entries ?lf @ entries t B"
      by (rule leaf_rewrite [OF ok L0 _ _ lok _ n refl], use M(6) in auto)+
    have "k \<in> fst ` set (leaf_entries lf)"
      using M(1,2,3) by (metis leaf_entries_def map_of_eq_None_iff option.distinct(1))
    then have "bt_delete t k = Some (?t, k \<in> fst ` set (entries t (hd lv)))"
      using L(1,5,14) Inr M(1) all by (simp add: bt_delete_def find_leaf_write_def image_Un)
    then show thesis using that R rem le by auto
  qed
qed

text \<open>An insertion into the leaf either stays in the leaf or splits it; then the new right leaf and its
  separator satisfy the invariant although no parent knows the leaf yet.\<close>

lemma take_drop_sorted:
  assumes "sorted_wrt (<) (ks :: bytes list)" and "0 < m" and "m < length ks"
  shows "last (take m ks) < ks ! m" and "\<And>x. x \<in> set (take m ks) \<Longrightarrow> x \<le> last (take m ks)"
    and "\<And>x. x \<in> set (drop m ks) \<Longrightarrow> last (take m ks) < x" and "\<And>x. x \<in> set (drop m ks) \<Longrightarrow> x \<le> last (drop m ks)"
    and "last (take m ks) \<in> set ks" and "last (drop m ks) \<in> set ks"
proof -
  have *: "x \<le> last zs" if "sorted_wrt (<) zs" "x \<in> set zs" for x and zs :: "bytes list"
    using that by (induction zs) (auto simp: less_imp_le)
  have s: "sorted_wrt (<) (take m ks @ drop m ks)" using assms(1) by simp
  then have s1: "sorted_wrt (<) (take m ks)" and s2: "sorted_wrt (<) (drop m ks)"
    and lt: "\<And>x y. x \<in> set (take m ks) \<Longrightarrow> y \<in> set (drop m ks) \<Longrightarrow> x < y"
    by (auto simp: sorted_wrt_append simp del: append_take_drop_id)
  have ne: "last (take m ks) \<in> set (take m ks)" using assms(2,3) by (intro last_in_set) auto
  then show "last (take m ks) \<in> set ks" by (rule in_set_takeD)
  have "last (drop m ks) \<in> set (drop m ks)" using assms(3) by (intro last_in_set) auto
  then show "last (drop m ks) \<in> set ks" by (rule in_set_dropD)
  have "ks ! m \<in> set (drop m ks)" using assms(3) by (metis Cons_nth_drop_Suc list.set_intros(1))
  then show "last (take m ks) < ks ! m" using lt ne by blast
  show "x \<le> last (take m ks)" if "x \<in> set (take m ks)" for x using * s1 that by blast
  show "x \<le> last (drop m ks)" if "x \<in> set (drop m ks)" for x using * s2 that by blast
  show "last (take m ks) < x" if "x \<in> set (drop m ks)" for x using lt ne that by blast
qed

lemma leaf_split_ok:
  assumes ok: "bt_ok t lv F" and L: "located t lv k y ps A B lf"
    and ks: "sorted_wrt (<) ks" "set ks \<subseteq> Set.insert k (set (lkeys lf))" "length vs = length ks"
    and m: "0 < m" "m < length ks" and cap: "m < order t" "length ks - m < order t"
    and n: "n = of_nat (length (entries t A @ zip ks vs @ entries t B))"
    and lf1: "lf1 = \<lparr>lkeys = take m ks, lvalues = take m vs, lhigh_key = Some (last (take m ks)),
      lright_link = Some (length (nodes t))\<rparr>"
    and lf2: "lf2 = \<lparr>lkeys = drop m ks, lvalues = drop m vs, lhigh_key = Some (last (drop m ks)),
      lright_link = lright_link lf\<rparr>"
    and t': "t' = put_node y (NLeaf lf1) (fst (alloc_node (NLeaf lf2) (t\<lparr>tlen := n\<rparr>)))"
  shows "\<exists>lv' F'. bt_ok t' lv' F' \<and> tl lv' = tl lv \<and> entries t' (hd lv') = entries t A @ zip ks vs @ entries t B \<and>
    length (nodes t) \<in> set (hd lv') \<and> below t' (hd lv') (F' (length (nodes t))) (ks ! m)"
proof -
  note L' = locatedD [OF L] and S = take_drop_sorted [OF ks(1) m]
  let ?r = "length (nodes t)"
  have y: "y < ?r" using bt_okD(8) [OF ok hd_mem [OF ok]] L'(4) by simp
  have len': "length (nodes t') = Suc ?r" by (simp add: t' alloc_node_def)
  have nd': "nd t' x = (if x = y then NLeaf lf1 else if x = ?r then NLeaf lf2 else nd t x)" if "x < Suc ?r" for x
    using y that by (auto simp: t' nd_put_node alloc_node_def nth_append)
  have ndy: "nd t' y = NLeaf lf1" and ndr: "nd t' ?r = NLeaf lf2" using y by (auto simp: nd')
  have bd: "x < ?r" if "x \<in> set (A @ y # B)" for x
    using bt_okD(8) [OF ok hd_mem [OF ok]] L'(4) that by auto
  have d: "distinct (A @ y # [?r] @ B)" using hd_distinct [OF ok] L'(4) bd by auto
  have same: "nd t' x = nd t x" if "x \<in> set A \<union> set B" for x
    using that d bd [of x] by (subst nd') auto
  have e: "entries t' (A @ y # [?r] @ B) = entries t A @ zip ks vs @ entries t B"
  proof -
    have "entries t' A = entries t A" "entries t' B = entries t B" using same by (auto intro!: entries_cong)
    moreover have "zip (take m ks) (take m vs) @ zip (drop m ks) (drop m vs) = zip ks vs"
      by (metis append_take_drop_id drop_zip take_zip)
    ultimately show ?thesis using ndy ndr by (simp add: lf1 lf2 leaf_entries_def)
  qed
  have low: "\<forall>a\<in>set A. \<forall>h. lhigh_key (leaf_of (nd t a)) = Some h \<longrightarrow> (\<forall>x\<in>set ks. h < x)"
    by (rule located_fence(1) [OF ok L ks(2)])
  have lok: "leaf_ok (order t) lf1" "leaf_ok (order t) lf2"
    using ks m cap by (auto simp: leaf_ok_def lf1 lf2 sorted_wrt_take sorted_wrt_drop)
  have "bt_ok t' ((A @ y # [?r] @ B) # tl lv) (F(?r := ?r))"
  proof (rule leaf_subst [OF ok L'(4)])
    show "fenced (map (\<lambda>m. leaf_of (nd t' m)) [y, ?r])" using S(2,3) by (simp add: ndy ndr lf1 lf2)
    show "tlen t' = of_nat (length (entries t' (A @ y # [?r] @ B)))" unfolding e n [symmetric] by (simp add: t' alloc_node_def)
    show "\<forall>a\<in>set A. \<forall>h. lhigh_key (leaf_of (nd t a)) = Some h \<longrightarrow>
        (\<forall>m\<in>set [y, ?r]. \<forall>k\<in>set (lkeys (leaf_of (nd t' m))). h < k)"
      using low by (auto simp: ndy ndr lf1 lf2 dest: in_set_takeD in_set_dropD)
    show "\<exists>h0. lhigh_key (leaf_of (nd t y)) = Some h0 \<and> (\<forall>m\<in>set [y, ?r]. \<exists>h. lhigh_key (leaf_of (nd t' m)) = Some h \<and>
        h \<le> h0 \<and> (\<forall>k\<in>set (lkeys (leaf_of (nd t' m))). k \<le> h))" if ne: "B \<noteq> []"
    proof -
      obtain h0 where h0: "lhigh_key lf = Some h0" "\<forall>x\<in>set ks. x \<le> h0"
        using located_fence(2) [OF ok L ks(2) ne] by blast
      then show ?thesis using S(2,4,5,6) L'(6) by (auto simp: ndy ndr lf1 lf2)
    qed
    show "\<exists>lf. nd t' m = NLeaf lf \<and> leaf_ok (order t) lf" if "m \<in> set [y, ?r]" for m
      using that lok ndy ndr by auto
    show "right_link (nd t' (last [y, ?r])) = right_link (nd t y)" using L'(6) by (simp add: ndr lf2)
    show "nd t' x = nd t x" if "x < ?r" "x \<noteq> y" for x using that by (subst nd') auto
  qed (auto simp: len' ndy lf1, auto simp: t' alloc_node_def)
  moreover have "below t' (A @ y # [?r] @ B) ?r (ks ! m)"
  proof -
    have "\<exists>h. high_key (nd t' l) = Some h \<and> h < ks ! m" if "l \<in> set (A @ [y])" for l
    proof (cases "l = y")
      case True
      then show ?thesis using S(1) by (simp add: ndy lf1)
    next
      case False
      then have l: "l \<in> set A" using that by simp
      then obtain h where h: "lhigh_key (leaf_of (nd t l)) = Some h" using L'(9) by auto
      obtain l' where "nd t l = NLeaf l'" using bt_okD(11) [OF ok, of l] L'(4) l by auto
      then show ?thesis using same [of l] l h low m by auto
    qed
    then show ?thesis using below_split [of "A @ [y]" ?r B t' "ks ! m"] d by simp
  qed
  ultimately show ?thesis
    by (intro exI [of _ "(A @ y # [?r] @ B) # tl lv"] exI [of _ "F(?r := ?r)"]) (use e in simp)
qed

lemma leaf_insert_ok:
  assumes ok: "bt_ok t lv F" and L0: "located t lv k y ps A B lf"
  obtains t' sp lv' F' where "leaf_insert_locked t y lf k v = Some (t', sp)" and "bt_ok t' lv' F'"
    and "tl lv' = tl lv" and "root t' = root t" and "entries t' (hd lv') = upsert k v (entries t (hd lv))"
    and "\<And>s c. sp = Some (s, c) \<Longrightarrow> c \<in> set (hd lv') \<and> below t' (hd lv') (F' c) s"
proof -
  note L = locatedD [OF L0]
  have up: "upsert k v (entries t (hd lv)) = entries t A @ upsert k v (leaf_entries lf) @ entries t B"
    using upsert_append L(4,6,11,12) by simp
  have all: "length (entries t (hd lv)) = length (entries t A) + length (lkeys lf) + length (entries t B)"
    using L(4,6,14) by (simp add: leaf_entries_def)
  show thesis
  proof (cases "binary_search (lkeys lf) k")
    case (Inr i)
    note M = binary_search_found [OF L(13,14) Inr]
    let ?lf = "lf\<lparr>lvalues := (lvalues lf)[i := v]\<rparr>"
    have le: "leaf_entries ?lf = upsert k v (leaf_entries lf)" using M(4) by (simp add: leaf_entries_def)
    have "tlen t = of_nat (length (entries t A @ leaf_entries ?lf @ entries t B))"
      using bt_okD(14) [OF ok] all L(14) by (simp add: leaf_entries_def)
    then have "\<exists>F'. bt_ok (put_node y (NLeaf ?lf) t) lv F'"
      "entries (put_node y (NLeaf ?lf) t) (hd lv) = entries t A @ leaf_entries ?lf @ entries t B"
      by (intro leaf_rewrite [OF ok L0, where lf' = ?lf and n = "tlen t"];
          use L(7) in \<open>auto simp: leaf_ok_def put_node_def\<close>)+
    then show thesis
      using that [of "put_node y (NLeaf ?lf) t" None lv] Inr M(1) L(14) up le
      by (auto simp: leaf_insert_locked_def)
  next
    case (Inl i)
    note M = binary_search_missing [OF L(13,14) Inl]
    define ks vs where "ks = vec_insert i k (lkeys lf)" and "vs = vec_insert i v (lvalues lf)"
    have z: "zip ks vs = upsert k v (leaf_entries lf)" and kl: "length ks = Suc (length (lkeys lf))" "length vs = length ks"
      and kss: "set ks \<subseteq> Set.insert k (set (lkeys lf))" "sorted_wrt (<) ks"
      using M by (auto simp: ks_def vs_def leaf_entries_def)
    have n: "tlen t + 1 = of_nat (length (entries t A @ zip ks vs @ entries t B))"
      using bt_okD(14) [OF ok] all kl by simp
    have cap: "length ks \<le> order t" using L(7) kl by (simp add: leaf_ok_def)
    have pos: "\<not> length (lvalues lf) < i" using M(1) L(14) by simp
    show thesis
    proof (cases "length ks < order t")
      case True
      let ?lf = "lf\<lparr>lkeys := ks, lvalues := vs\<rparr>"
      let ?t = "put_node y (NLeaf ?lf) (t\<lparr>tlen := tlen t + 1\<rparr>)"
      have "\<exists>F'. bt_ok ?t lv F'" "entries ?t (hd lv) = entries t A @ leaf_entries ?lf @ entries t B"
        by (intro leaf_rewrite [OF ok L0, where lf' = ?lf and n = "tlen t + 1"];
            use True kss kl n in \<open>auto simp: leaf_ok_def put_node_def leaf_entries_def\<close>)+
      then show thesis
        using that [of ?t None lv] Inl pos True up z
        by (auto simp: leaf_insert_locked_def Let_def leaf_entries_def simp flip: ks_def vs_def)
    next
      case False
      then have eq: "length ks = order t" using cap by simp
      define m where "m = length ks div 2"
      have m: "0 < m" "m < length ks" "m < order t" "length ks - m < order t"
        using eq bt_okD(1) [OF ok] by (auto simp: m_def)
      have ne: "take m ks \<noteq> []" using m by auto
      obtain t' where t': "leaf_insert_locked t y lf k v = Some (t', Some (ks ! m, length (nodes t)))"
        and "root t' = root t" and "\<exists>lv' F'. bt_ok t' lv' F' \<and> tl lv' = tl lv \<and>
          entries t' (hd lv') = entries t A @ zip ks vs @ entries t B \<and>
          length (nodes t) \<in> set (hd lv') \<and> below t' (hd lv') (F' (length (nodes t))) (ks ! m)"
        using leaf_split_ok [OF ok L0 kss(2,1) kl(2) m n refl refl refl] Inl pos False ne m
        by (simp add: leaf_insert_locked_def Let_def alloc_node_def m_def [symmetric] ks_def [symmetric] vs_def [symmetric])
      then show thesis using that up z by auto
    qed
  qed
qed

section \<open>Changing an internal level\<close>

lemma internal_subst:
  assumes ok: "bt_ok t lv F" and lv: "lv = P @ (A @ x # B) # Q" and P: "P \<noteq> []"
    and C: "C = [] \<or> C = [r]" and r: "r = length (nodes t)" "C = [r] \<Longrightarrow> r < length (nodes t')"
    and same: "\<And>z. z < length (nodes t) \<Longrightarrow> z \<noteq> x \<Longrightarrow> nd t' z = nd t z"
    and len: "length (nodes t) \<le> length (nodes t')"
    and keep: "root t' = root t" "order t' = order t" "tlen t' = tlen t"
    and F': "F' = F(r := f)" "C = [r] \<Longrightarrow> f \<in> set (hd lv)"
    and new: "\<And>m. m \<in> set (x # C) \<Longrightarrow> \<exists>n. nd t' m = NInternal n \<and>
      internal_ok t (hd lv) F' (set (last P)) n \<and> F' m = F' (children n ! 0)"
    and link: "right_link (nd t' (last (x # C))) = right_link (nd t x)"
      "C = [r] \<Longrightarrow> right_link (nd t' x) = Some r \<and> high_key (nd t' x) \<noteq> None"
      "B \<noteq> [] \<Longrightarrow> high_key (nd t' (last (x # C))) \<noteq> None"
  shows "bt_ok t' (P @ (A @ x # C @ B) # Q) F'" and "entries t' (hd lv) = entries t (hd lv)"
    and "\<And>c k. below t' (hd lv) c k = below t (hd lv) c k"
proof -
  note D = bt_okD [OF ok]
  let ?lv = "P @ (A @ x # C @ B) # Q"
  have bd: "z < length (nodes t)" if "z \<in> set (concat lv)" for z using that D(8) by auto
  have rfresh: "r \<notin> set (concat lv)" using bd r by auto
  have dist: "distinct (concat ?lv)" using D(6) lv rfresh C by auto
  have sm: "nd t' z = nd t z" if "z \<in> set (concat P) \<union> set A \<union> set B \<union> set (concat Q)" for z
    using that dist bd [of z] lv by (intro same) auto
  have hdP: "hd lv = hd P" "hd ?lv = hd lv" "hd P \<in> set P" using lv P by auto
  have leafsame: "nd t' l = nd t l" if "l \<in> set (hd lv)" for l using that hdP by (intro sm) auto
  show e: "entries t' (hd lv) = entries t (hd lv)" using leafsame by (rule entries_cong)
  show b: "below t' (hd lv) c k = below t (hd lv) c k" for c k
    unfolding below_def using leafsame by (metis (no_types, lifting) set_takeWhileD)
  have Fold: "F' z = F z \<and> F z \<in> set (hd lv)" if "z \<in> set (concat lv)" for z
    using that rfresh D(9) F' by auto
  have succ: "successively (\<lambda>lo up. level_ok t (hd lv) F (set lo) up) lv"
    using D(13) by (simp add: successively_conv_nth)
  have lvlmono: "level_ok t' (hd lv) F' lower' up"
    if "level_ok t (hd lv) F (set lo) up" "lo \<in> set lv" "up \<in> set P \<union> set Q" "set lo \<subseteq> lower'" for lo up lower'
  proof (rule level_ok_mono [OF that(1) _ _ keep(2) that(4)])
    have up: "up \<in> set lv" using that(3) lv by auto
    then show "linked t up" by (rule D(7))
    show "nd t' z = nd t z" if "z \<in> set up" for z using that \<open>up \<in> set P \<union> set Q\<close> by (intro sm) auto
    show "F' z = F z \<and> F z \<in> set (hd lv)" if "z \<in> set lo \<union> set up" for z
      using that \<open>lo \<in> set lv\<close> up by (intro Fold) auto
  qed (simp add: b)
  have bdP: "lo \<in> set lv" if "lo \<in> set P \<union> set Q" for lo using that lv by auto
  have succP: "successively (\<lambda>lo up. level_ok t' (hd lv) F' (set lo) up) P"
  proof (rule successively_mono)
    show "successively (\<lambda>lo up. level_ok t (hd lv) F (set lo) up) P"
      using succ lv by (simp add: successively_append_iff)
  qed (use lvlmono bdP in auto)
  have succQ: "successively (\<lambda>lo up. level_ok t' (hd lv) F' (set lo) up) Q"
  proof (rule successively_mono)
    show "successively (\<lambda>lo up. level_ok t (hd lv) F (set lo) up) Q"
      using succ unfolding lv by (cases Q) (auto simp: successively_append_iff successively_Cons)
  qed (use lvlmono bdP in auto)
  have mid: "level_ok t' (hd lv) F' (set (last P)) (A @ x # C @ B)"
    unfolding level_ok_def
  proof
    fix z assume z: "z \<in> set (A @ x # C @ B)"
    have lo: "level_ok t (hd lv) F (set (last P)) (A @ x # B)"
      using succ lv P by (simp add: successively_append_iff)
    have bb: "below t' (hd lv) = below t (hd lv)" using b by (intro ext) simp
    show "\<exists>n. nd t' z = NInternal n \<and> internal_ok t' (hd lv) F' (set (last P)) n \<and> F' z = F' (children n ! 0)"
    proof (cases "z \<in> set (x # C)")
      case True
      then show ?thesis using new [OF True] keep(2) bb by (auto simp: internal_ok_def)
    next
      case False
      then have zAB: "z \<in> set A \<union> set B" using z by auto
      have "level_ok t (hd lv) F (set (last P)) [z]" using lo zAB by (auto simp: level_ok_def)
      then obtain n where n: "nd t z = NInternal n" "internal_ok t (hd lv) F (set (last P)) n" "F z = F (children n ! 0)"
        by (auto simp: level_ok_def)
      have rl: "w \<in> set (A @ x # B)" if "iright_link n = Some w" for w
        using linked_right [of t "A @ x # B" z w] D(7) [of "A @ x # B"] lv zAB n(1) that by auto
      have F0: "F' w = F w \<and> F w \<in> set (hd lv)" if "w \<in> set (last P) \<or> iright_link n = Some w" for w
        using that rl lv P by (intro Fold) auto
      note M = internal_ok_mono [where t' = t', OF n(2) keep(2) subset_refl F0, of "hd lv"]
      have "F' z = F z" using Fold [of z] zAB lv by auto
      then have "internal_ok t' (hd lv) F' (set (last P)) n" "F' z = F' (children n ! 0)"
        using M n(3) b by auto
      then show ?thesis using n(1) sm [of z] zAB by auto
    qed
  qed
  have top: "Q \<noteq> [] \<Longrightarrow> level_ok t' (hd lv) F' (set (A @ x # C @ B)) (hd Q)"
    using succ lv by (intro lvlmono [of "A @ x # B"]) (auto simp: successively_append_iff successively_Cons)
  have levels: "successively (\<lambda>lo up. level_ok t' (hd lv) F' (set lo) up) ?lv"
    using succP succQ mid top P by (auto simp: successively_append_iff successively_Cons)
  then have levels': "\<forall>j. Suc j < length ?lv \<longrightarrow> level_ok t' (hd lv) F' (set (?lv ! j)) (?lv ! Suc j)"
    by (simp add: successively_conv_nth)
  have lkL: "linked t' (A @ x # C @ B)"
    by (rule linked_insert [of t]) (use D(7) [of "A @ x # B"] lv C link sm in auto)
  have lk: "linked t' ls" if "ls \<in> set ?lv" for ls
  proof (cases "ls = A @ x # C @ B")
    case False
    then have "ls \<in> set P \<union> set Q" using that by auto
    moreover from this have "nd t' z = nd t z" if "z \<in> set ls" for z using that by (intro sm) auto
    ultimately show ?thesis using linked_cong [of ls t' t] D(7) bdP by auto
  qed (use lkL in simp)
  have bd': "z < length (nodes t') \<and> F' z \<in> set (hd lv)" if "z \<in> set (concat ?lv)" for z
  proof (cases "z \<in> set (concat lv)")
    case True
    then show ?thesis using Fold [OF True] bd [OF True] len by auto
  next
    case False
    then have "z = r" "C = [r]" using that C lv by auto
    then show ?thesis using r F' by simp
  qed
  have rootin: "root t \<in> set (concat lv)" using D(2-4) by (metis concat_append hd_in_set in_set_conv_decomp set_concat UN_I last_in_set)
  have leaf: "F' l = l \<and> (\<exists>lf. nd t' l = NLeaf lf \<and> leaf_ok (order t') lf)" if "l \<in> set (hd lv)" for l
    using D(10,11) [OF that] Fold [of l] leafsame [OF that] keep(2) that hd_mem [OF ok] by auto
  have fen: "fenced (map (\<lambda>l. leaf_of (nd t' l)) (hd lv))"
    using D(12) leafsame by (metis (no_types, lifting) map_eq_conv)
  have rt: "last ?lv \<noteq> []" "hd (last ?lv) = root t'"
    using D(3,4) keep(1) lv by (cases A; auto)+
  show "bt_ok t' ?lv F'"
    unfolding bt_ok_def hdP(2)
    using D(1) keep rt Fold [OF rootin] D(5,14) dist lk bd' leaf fen levels' e by auto
qed

lemma nth_vec_insert:
  "idx \<le> length xs \<Longrightarrow> i \<le> length xs \<Longrightarrow>
   vec_insert idx x xs ! i = (if i < idx then xs ! i else if i = idx then x else xs ! (i - 1))"
  by (auto simp: vec_insert_def nth_append min_def nth_Cons' Suc_diff_Suc)

lemma length_vec_insert: "idx \<le> length xs \<Longrightarrow> length (vec_insert idx x xs) = Suc (length xs)"
  by (simp add: vec_insert_def)

lemma set_vec_insert: "set (vec_insert idx x xs) = Set.insert x (set xs)"
  unfolding vec_insert_def by (metis Un_insert_right append_take_drop_id list.simps(15) set_append)

lemma sorted_vec_insert:
  assumes "sorted xs"
  shows "sorted (vec_insert (partition_point (\<lambda>k. k \<le> s) xs) s xs)"
proof -
  have "vec_insert (partition_point (\<lambda>k. k \<le> s) xs) s xs =
      takeWhile (\<lambda>k. k \<le> s) xs @ s # dropWhile (\<lambda>k. k \<le> s) xs"
    by (simp add: vec_insert_def partition_point_def takeWhile_eq_take [symmetric] dropWhile_eq_drop [symmetric])
  moreover have "\<forall>x\<in>set (takeWhile (\<lambda>k. k \<le> s) xs). x \<le> s" by (auto dest: set_takeWhileD)
  moreover have "\<forall>x\<in>set (dropWhile (\<lambda>k. k \<le> s) xs). s \<le> x"
  proof (cases "dropWhile (\<lambda>k. k \<le> s) xs")
    case (Cons a zs)
    then have "\<not> a \<le> s" using hd_dropWhile [of "\<lambda>k. k \<le> s" xs] by simp
    moreover have "sorted (a # zs)" using sorted_dropWhile [OF assms] Cons by metis
    ultimately show ?thesis using Cons by auto
  next
    case Nil
    then show ?thesis by (metis empty_iff list.set(1))
  qed
  moreover have "sorted (takeWhile (\<lambda>k. k \<le> s) xs)" "sorted (dropWhile (\<lambda>k. k \<le> s) xs)"
    using assms by (auto intro: sorted_takeWhile sorted_dropWhile)
  ultimately show ?thesis by (auto simp: sorted_append intro: order_trans)
qed

lemma internal_grow:
  assumes n: "internal_ok t ls F lower n" and c: "c \<in> lower" "below t ls (F c) s"
  defines "idx \<equiv> partition_point (\<lambda>k. k \<le> s) (ikeys n)"
  defines "ks \<equiv> vec_insert idx s (ikeys n)" and "cs \<equiv> vec_insert (Suc idx) c (children n)"
  shows "length (children n) \<ge> idx + 1" and "length ks = Suc (length (ikeys n))" and "length cs = Suc (length ks)"
    and "sorted ks" and "set cs \<subseteq> lower" and "cs ! 0 = children n ! 0"
    and "\<And>i. i < length ks \<Longrightarrow> below t ls (F (cs ! Suc i)) (ks ! i)"
proof -
  have len: "length (children n) = Suc (length (ikeys n))" using n by (simp add: internal_ok_def)
  have idx: "idx \<le> length (ikeys n)" unfolding idx_def by (rule partition_point_le)
  then show "length (children n) \<ge> idx + 1" using len by simp
  show k: "length ks = Suc (length (ikeys n))" using idx by (simp add: ks_def length_vec_insert)
  then show "length cs = Suc (length ks)" using idx len by (simp add: cs_def length_vec_insert)
  show "sorted ks" unfolding ks_def idx_def using n by (intro sorted_vec_insert) (simp add: internal_ok_def)
  show "set cs \<subseteq> lower" using n c by (simp add: cs_def set_vec_insert internal_ok_def)
  show "cs ! 0 = children n ! 0" using idx len by (simp add: cs_def nth_vec_insert)
  fix i assume i: "i < length ks"
  have "cs ! Suc i = (if i < idx then children n ! Suc i else if i = idx then c else children n ! i)"
    using i k idx len by (simp add: cs_def nth_vec_insert)
  moreover have "ks ! i = (if i < idx then ikeys n ! i else if i = idx then s else ikeys n ! (i - 1))"
    using i k idx by (simp add: ks_def nth_vec_insert)
  moreover have "below t ls (F (children n ! Suc j)) (ikeys n ! j)" if "j < length (ikeys n)" for j
    using n that by (simp add: internal_ok_def)
  moreover have "i < idx \<and> i < length (ikeys n) \<or> i = idx \<or> (\<exists>j. i = Suc j \<and> \<not> i < idx \<and> i \<noteq> idx \<and> j < length (ikeys n))"
    using idx i k by (cases i) auto
  ultimately show "below t ls (F (cs ! Suc i)) (ks ! i)" using c by auto
qed

lemma list_split_levels:
  assumes "Suc j < length lv" and "x \<in> set (lv ! Suc j)"
  obtains P A B Q where "lv = P @ (A @ x # B) # Q" and "P \<noteq> []" and "length P = Suc j" and "last P = lv ! j"
proof -
  obtain A B where AB: "lv ! Suc j = A @ x # B" using assms(2) by (meson split_list)
  have "lv = take (Suc j) lv @ (A @ x # B) # drop (Suc (Suc j)) lv"
    using id_take_nth_drop [OF assms(1)] AB by simp
  moreover have "last (take (Suc j) lv) = lv ! j" using assms(1) by (simp add: take_Suc_conv_app_nth)
  ultimately show thesis using assms(1) by (intro that) auto
qed

text \<open>Adding a child to any node of the level above keeps the invariant; a split passes a new separator
  for that level upwards.\<close>

lemma internal_insert_ok:
  assumes ok: "bt_ok t lv F" and j: "Suc j < length lv" and x: "x \<in> set (lv ! Suc j)"
    and c: "c \<in> set (lv ! j)" "below t (hd lv) (F c) s" and nx: "nd t x = NInternal n"
  shows "\<exists>t' sp lv' F'. internal_insert_locked t x n s c = Some (t', sp) \<and> bt_ok t' lv' F' \<and> root t' = root t \<and>
    hd lv' = hd lv \<and> entries t' (hd lv') = entries t (hd lv) \<and> list_all2 (\<lambda>a b. set a \<subseteq> set b) lv lv' \<and>
    (\<forall>s' c'. sp = Some (s', c') \<longrightarrow> c' \<in> set (lv' ! Suc j) \<and> below t' (hd lv') (F' c') s')"
proof -
  note D = bt_okD [OF ok]
  obtain P A B Q where lv: "lv = P @ (A @ x # B) # Q" and P: "P \<noteq> []" "length P = Suc j" "last P = lv ! j"
    by (rule list_split_levels [OF j x])
  have x': "x \<in> set (concat lv)" and xb: "x < length (nodes t)" using lv D(8) [of "A @ x # B" x] by auto
  have n: "internal_ok t (hd lv) F (set (last P)) n" "F x = F (children n ! 0)"
    using D(13) [OF j] x nx P(3) by (auto simp: level_ok_def)
  define idx where "idx = partition_point (\<lambda>k. k \<le> s) (ikeys n)"
  define ks where "ks = vec_insert idx s (ikeys n)"
  define cs where "cs = vec_insert (Suc idx) c (children n)"
  note G = internal_grow [OF n(1) c(1) [folded P(3)] c(2), folded idx_def, folded ks_def cs_def]
  have cap: "length ks \<le> order t" using G(2) n(1) by (simp add: internal_ok_def)
  have hdP: "hd lv = hd P" "\<And>L. hd (P @ L # Q) = hd lv" using lv P by auto
  have Fdom: "F z \<in> set (hd lv) \<and> z \<noteq> length (nodes t)" if "z \<in> set (concat lv)" for z
    using that D(8,9) by fastforce
  have low: "F z \<in> set (hd lv) \<and> z \<noteq> length (nodes t)" if "z \<in> set (last P)" for z
    using that lv P(1) by (intro Fdom) auto
  have lkL: "linked t (A @ x # B)" using D(7) lv by auto
  show ?thesis
  proof (cases "length ks < order t")
    case True
    let ?n = "n\<lparr>ikeys := ks, children := cs\<rparr>"
    let ?t = "put_node x (NInternal ?n) t"
    have run: "internal_insert_locked t x n s c = Some (?t, None)"
      using G(1) True by (simp add: internal_insert_locked_def Let_def flip: idx_def ks_def cs_def)
    have nok: "internal_ok t (hd lv) F (set (last P)) ?n"
      using n(1) G True by (auto simp: internal_ok_def)
    have R: "bt_ok ?t (P @ (A @ x # [] @ B) # Q) F" "entries ?t (hd lv) = entries t (hd lv)"
      by (rule internal_subst [where r = "length (nodes t)" and f = "F (length (nodes t))", OF ok lv P(1)],
          use xb nok n(2) G(6) nx linked_high [OF lkL] in \<open>auto simp: nd_put_node\<close>)+
    then have "bt_ok ?t lv F" using lv by simp
    then show ?thesis
      by (intro exI [of _ ?t] exI [of _ None] exI [of _ lv] exI [of _ F] conjI)
         (use run R(2) in \<open>simp_all add: list_all2_refl\<close>)
  next
    case False
    then have eq: "length ks = order t" using cap by simp
    define m where "m = length ks div 2"
    have m: "m < length ks" using eq D(1) by (simp add: m_def)
    let ?r = "length (nodes t)"
    let ?n1 = "\<lparr>ikeys = take m ks, children = take (m + 1) cs, ihigh_key = Some (ks ! m), iright_link = Some ?r\<rparr>"
    let ?n2 = "\<lparr>ikeys = drop (m + 1) ks, children = drop (m + 1) cs, ihigh_key = ihigh_key n, iright_link = iright_link n\<rparr>"
    define t' where "t' = put_node x (NInternal ?n1) (fst (alloc_node (NInternal ?n2) t))"
    have bl: "butlast (take (m + 1) ks) = take m ks" using m by (simp add: butlast_take)
    have run: "internal_insert_locked t x n s c = Some (t', Some (ks ! m, ?r))"
      using G(1) False
      by (simp add: internal_insert_locked_def Let_def t'_def alloc_node_def bl [symmetric] flip: idx_def ks_def cs_def m_def)
    have nd': "nd t' z = (if z = x then NInternal ?n1 else if z = ?r then NInternal ?n2 else nd t z)" if "z < Suc ?r" for z
      using xb that by (auto simp: t'_def nd_put_node alloc_node_def nth_append)
    have ndx: "nd t' x = NInternal ?n1" and ndr: "nd t' ?r = NInternal ?n2" using xb by (auto simp: nd')
    let ?F = "F(?r := F (cs ! (m + 1)))"
    have csl: "cs ! i \<in> set (last P)" if "i \<le> length ks" for i using G(3,5) that by (simp add: subset_iff)
    then have Fc: "?F (cs ! i) = F (cs ! i)" if "i \<le> length ks" for i using low that by simp
    have n1: "internal_ok t (hd lv) ?F (set (last P)) ?n1"
      unfolding internal_ok_def using G(3-5,7) m eq Fc
      by (auto simp: min_def sorted_wrt_take dest: in_set_takeD)
    have rl: "?F z = F z" if "iright_link n = Some z" for z
      using that linked_right [OF lkL _ , of x z] nx lv Fdom [of z] by auto
    have n2: "internal_ok t (hd lv) ?F (set (last P)) ?n2"
      unfolding internal_ok_def using G(3-5,7) m eq Fc n(1) rl
      by (auto simp: internal_ok_def sorted_wrt_drop dest: in_set_dropD)
    have hdn: "take (m + 1) cs ! 0 = children n ! 0" "drop (m + 1) cs ! 0 = cs ! (m + 1)"
      using G(3,6) m by auto
    have same: "nd t' z = nd t z" if "z < ?r" "z \<noteq> x" for z using that by (subst nd') auto
    have len': "length (nodes t') = Suc ?r" and keep: "root t' = root t" "order t' = order t" "tlen t' = tlen t"
      by (simp_all add: t'_def alloc_node_def)
    have new: "\<exists>n. nd t' z = NInternal n \<and> internal_ok t (hd lv) ?F (set (last P)) n \<and> ?F z = ?F (children n ! 0)"
      if "z \<in> set [x, ?r]" for z
      using that ndx ndr n1 n2 hdn n(2) Fc [of 0] Fc [of "m + 1"] G(6) m xb by auto
    have f: "F (cs ! (m + 1)) \<in> set (hd lv)" using low csl m by simp
    have hk: "B \<noteq> [] \<Longrightarrow> high_key (nd t' (last [x, ?r])) \<noteq> None"
      using linked_high [OF lkL] nx by (simp add: ndr)
    have rl': "right_link (nd t' (last [x, ?r])) = right_link (nd t x)" using nx by (simp add: ndr)
    note S = internal_subst [where F' = ?F and C = "[?r]", OF ok lv P(1) _ refl _ same _ keep refl f new rl' _ hk]
    have R: "bt_ok t' (P @ (A @ x # [?r] @ B) # Q) ?F" "entries t' (hd lv) = entries t (hd lv)"
      "below t' (hd lv) (?F ?r) (ks ! m) = below t (hd lv) (?F ?r) (ks ! m)"
      by (rule S; simp add: len' ndx)+
    have "below t (hd lv) (?F ?r) (ks ! m)" using G(7) [OF m] by simp
    moreover have "list_all2 (\<lambda>a b. set a \<subseteq> set b) lv (P @ (A @ x # [?r] @ B) # Q)"
      unfolding lv by (intro list_all2_appendI list_all2_refl) (auto intro!: list_all2_refl)
    moreover have "?r \<in> set ((P @ (A @ x # [?r] @ B) # Q) ! Suc j)" using P(2) by (simp add: nth_append)
    ultimately show ?thesis
      by (intro exI [of _ t'] exI [of _ "Some (ks ! m, ?r)"] exI [of _ "P @ (A @ x # [?r] @ B) # Q"] exI [of _ ?F] conjI)
         (use run R hdP keep in simp_all)
  qed
qed

section \<open>Insertion as a whole\<close>

lemma level_move_any:
  assumes ok: "bt_ok t lv F" and j: "j < length lv" and x: "x \<in> set (lv ! j)"
  obtains y where "move_right_write t x k = Some y" and "y \<in> set (lv ! j)"
proof -
  have ls: "lv ! j \<in> set lv" using j by simp
  obtain A B where AB: "lv ! j = A @ x # B" using x by (meson split_list)
  have lk: "linked t (x # B)" using bt_okD(7) [OF ok ls] AB by (auto intro: linked_suffix)
  have bd: "\<And>y. y \<in> set (x # B) \<Longrightarrow> y < length (nodes t)" using bt_okD(8) [OF ok ls] AB by auto
  show thesis
    by (rule move_right_chain [where P = "\<lambda>_. True", OF lk bd]) (use that AB in \<open>auto simp: move_right_write_def\<close>)
qed

lemma root_mem: "bt_ok t lv F \<Longrightarrow> root t \<in> set (last lv)"
  using bt_okD(3,4) [of t lv F] by (metis hd_in_set)

lemma root_grow:
  assumes ok: "bt_ok t lv F" and c: "c \<in> set (last lv)" "below t (hd lv) (F c) s"
    and t': "t' = (fst (alloc_node (NInternal \<lparr>ikeys = [s], children = [root t, c], ihigh_key = None, iright_link = None\<rparr>) t))
      \<lparr>root := length (nodes t)\<rparr>"
  shows "bt_ok t' (lv @ [[length (nodes t)]]) (F(length (nodes t) := F (root t)))"
    and "entries t' (hd lv) = entries t (hd lv)"
proof -
  note D = bt_okD [OF ok]
  let ?r = "length (nodes t)" and ?F = "F(length (nodes t) := F (root t))" and ?lv = "lv @ [[length (nodes t)]]"
  let ?n = "\<lparr>ikeys = [s], children = [root t, c], ihigh_key = None, iright_link = None\<rparr>"
  have bd: "z < ?r" if "z \<in> set (concat lv)" for z using that D(8) by auto
  have nd': "nd t' z = (if z = ?r then NInternal ?n else nd t z)" if "z \<le> ?r" for z
    using that by (auto simp: t' alloc_node_def nth_append)
  have same: "nd t' z = nd t z" if "z \<in> set (concat lv)" for z using bd [OF that] by (subst nd') auto
  have ndr: "nd t' ?r = NInternal ?n" by (simp add: nd')
  have keep: "root t' = ?r" "order t' = order t" "tlen t' = tlen t" "length (nodes t') = Suc ?r"
    by (simp_all add: t' alloc_node_def)
  have hdl: "hd ?lv = hd lv" "hd lv \<in> set lv" using D(2) by auto
  have leafsame: "nd t' l = nd t l" if "l \<in> set (hd lv)" for l using that hdl by (intro same) auto
  show e: "entries t' (hd lv) = entries t (hd lv)" using leafsame by (rule entries_cong)
  have b: "below t' (hd lv) c k = below t (hd lv) c k" for c k
    unfolding below_def using leafsame by (metis (no_types, lifting) set_takeWhileD)
  have rt: "root t \<in> set (concat lv)" "c \<in> set (concat lv)" using root_mem [OF ok] c(1) D(2) by auto
  have Fold: "?F z = F z \<and> F z \<in> set (hd lv)" if "z \<in> set (concat lv)" for z
    using that bd [OF that] D(9) by auto
  have old: "level_ok t' (hd lv) ?F (set (lv ! j)) (lv ! Suc j)" if j: "Suc j < length lv" for j
  proof (rule level_ok_mono [OF D(13) [OF j] _ _ keep(2) subset_refl])
    show "linked t (lv ! Suc j)" using D(7) j by simp
    show "nd t' z = nd t z" if "z \<in> set (lv ! Suc j)" for z using that j nth_mem by (intro same) fastforce
    show "?F z = F z \<and> F z \<in> set (hd lv)" if "z \<in> set (lv ! j) \<union> set (lv ! Suc j)" for z
      using that j nth_mem [of j lv] nth_mem [of "Suc j" lv] by (intro Fold) auto
  qed (simp add: b)
  have "internal_ok t' (hd lv) ?F (set (last lv)) ?n"
    using root_mem [OF ok] c D(1) keep(2) Fold [OF rt(2)] b by (simp add: internal_ok_def)
  moreover have "?F ?r = ?F (root t)" using Fold [OF rt(1)] by simp
  ultimately have new: "level_ok t' (hd lv) ?F (set (last lv)) [?r]" using ndr by (simp add: level_ok_def)
  have levels: "level_ok t' (hd lv) ?F (set (?lv ! j)) (?lv ! Suc j)" if "Suc j < length ?lv" for j
  proof (cases "Suc j < length lv")
    case True then show ?thesis using old by (simp add: nth_append)
  next
    case False
    then have "j = length lv - 1" using that by simp
    then show ?thesis using new D(2) by (simp add: nth_append last_conv_nth)
  qed
  have lk: "linked t' ls" if "ls \<in> set ?lv" for ls
    using that D(7) linked_cong [of ls t' t] same ndr by auto
  have leaf: "?F l = l \<and> (\<exists>lf. nd t' l = NLeaf lf \<and> leaf_ok (order t') lf)" if "l \<in> set (hd lv)" for l
  proof -
    have "l \<in> set (concat lv)" using that hdl(2) by auto
    then show ?thesis using D(10,11) [OF that] Fold leafsame [OF that] keep(2) by auto
  qed
  have fen: "fenced (map (\<lambda>l. leaf_of (nd t' l)) (hd lv))"
    using D(12) leafsame by (metis (no_types, lifting) map_eq_conv)
  have bd': "z < length (nodes t') \<and> ?F z \<in> set (hd lv)" if "z \<in> set (concat ?lv)" for z
    using that bd [of z] Fold [of z] Fold [OF rt(1)] keep(4) by (cases "z = ?r") auto
  have dist: "distinct (concat ?lv)" using D(6) bd by auto
  have all: "\<forall>ls\<in>set ?lv. linked t' ls \<and> (\<forall>x\<in>set ls. x < length (nodes t') \<and> ?F x \<in> set (hd lv))"
    using lk bd' by (metis UN_I set_concat)
  have F0: "?F (root t') = hd (hd lv)" using D(5) keep(1) by simp
  show "bt_ok t' ?lv ?F"
    unfolding bt_ok_def hdl(1)
    using D(1,2,14) keep F0 dist all leaf fen levels e by (auto simp del: fun_upd_apply)
qed

lemma propagate_ok:
  assumes "bt_ok t lv F" and "list_all2 (\<lambda>p ls. p \<in> set ls) ps (drop (Suc j) lv)" and "j < length lv"
    and "c \<in> set (lv ! j)" and "below t (hd lv) (F c) s" and "root t = root0"
  shows "\<exists>t' lv' F'. insert_propagate t root0 ps (s, c) = Some (t', Inr ()) \<and> bt_ok t' lv' F' \<and>
    entries t' (hd lv') = entries t (hd lv)"
  using assms
proof (induction ps arbitrary: t lv F j s c)
  case Nil
  have ne: "lv \<noteq> []" and "j = length lv - 1" using Nil.prems(2,3) by auto
  then have c: "c \<in> set (last lv)" using Nil.prems(4) by (simp add: last_conv_nth)
  note G = root_grow [OF Nil.prems(1) c Nil.prems(5) refl]
  have hd: "hd (lv @ xs) = hd lv" for xs using ne by simp
  show ?case
    by (intro exI conjI, rule_tac [2] G(1)) (use G(2) hd Nil.prems(6) in \<open>simp_all add: Let_def alloc_node_def\<close>)
next
  case (Cons p ps)
  then have j: "Suc j < length lv" by (cases "Suc j < length lv") auto
  have d: "drop (Suc j) lv = lv ! Suc j # drop (Suc (Suc j)) lv" using j by (simp add: Cons_nth_drop_Suc)
  have p: "p \<in> set (lv ! Suc j)" and ps: "list_all2 (\<lambda>p ls. p \<in> set ls) ps (drop (Suc (Suc j)) lv)"
    using Cons.prems(2) d by auto
  obtain y where y: "move_right_write t p s = Some y" "y \<in> set (lv ! Suc j)"
    by (rule level_move_any [OF Cons.prems(1) j p])
  obtain n where n: "nd t y = NInternal n"
    using bt_okD(13) [OF Cons.prems(1) j] y(2) by (auto simp: level_ok_def)
  have na: "node_at t y = Some (NInternal n)"
    using bt_okD(8) [OF Cons.prems(1), of "lv ! Suc j" y] j y(2) n by (simp add: node_at_nd)
  obtain t1 sp lv1 F1 where I: "internal_insert_locked t y n s c = Some (t1, sp)" "bt_ok t1 lv1 F1" "root t1 = root t"
    "hd lv1 = hd lv" "entries t1 (hd lv1) = entries t (hd lv)" "list_all2 (\<lambda>a b. set a \<subseteq> set b) lv lv1"
    "\<forall>s' c'. sp = Some (s', c') \<longrightarrow> c' \<in> set (lv1 ! Suc j) \<and> below t1 (hd lv1) (F1 c') s'"
    using internal_insert_ok [OF Cons.prems(1) j y(2) Cons.prems(4,5) n] by blast
  show ?case
  proof (cases sp)
    case None
    then show ?thesis using y na I by auto
  next
    case (Some sc)
    obtain s' c' where sc: "sp = Some (s', c')" using Some by (cases sc) auto
    have sub: "list_all2 (\<lambda>p ls. p \<in> set ls) ps (drop (Suc (Suc j)) lv1)"
      by (rule list_all2_trans [OF _ ps list_all2_dropI [OF I(6)]]) auto
    have len: "Suc j < length lv1" using j I(6) by (simp add: list_all2_lengthD)
    obtain t' lv' F' where "insert_propagate t1 root0 ps (s', c') = Some (t', Inr ())" "bt_ok t' lv' F'"
      "entries t' (hd lv') = entries t1 (hd lv1)"
      using Cons.IH [OF I(2) sub len] I(3,7) sc Cons.prems(6) by blast
    then show ?thesis using y na I sc by auto
  qed
qed

lemma insert_ok:
  assumes ok: "bt_ok t lv F"
  obtains t' lv' F' where "bt_insert t k v = Some (t', Inr ())" and "bt_ok t' lv' F'"
    and "entries t' (hd lv') = upsert k v (entries t (hd lv))"
proof -
  obtain y ps A B lf where L0: "located t lv k y ps A B lf" by (rule locate [OF ok])
  note L = locatedD [OF L0]
  obtain t1 sp lv1 F1 where I: "leaf_insert_locked t y lf k v = Some (t1, sp)" "bt_ok t1 lv1 F1"
    "tl lv1 = tl lv" "root t1 = root t" "entries t1 (hd lv1) = upsert k v (entries t (hd lv))"
    and sp: "\<And>s c. sp = Some (s, c) \<Longrightarrow> c \<in> set (hd lv1) \<and> below t1 (hd lv1) (F1 c) s"
    by (rule leaf_insert_ok [OF ok L0]) blast
  have run: "bt_insert t k v = (case sp of None \<Rightarrow> Some (t1, Inr ()) | Some s \<Rightarrow> insert_propagate t1 (root t) (rev ps) s)"
    using L(2,5,8) I(1) by (simp add: bt_insert.simps [of t] split: option.splits)
  show thesis
  proof (cases sp)
    case None
    then show thesis using that run I by auto
  next
    case (Some sc)
    obtain s c where sc: "sp = Some (s, c)" using Some by (cases sc) auto
    have "list_all2 (\<lambda>p ls. p \<in> set ls) (rev ps) (drop (Suc 0) lv1)" using L(3) I(3) by (simp add: drop_Suc)
    moreover have "lv1 \<noteq> []" by (rule bt_okD(2) [OF I(2)])
    moreover have "c \<in> set (lv1 ! 0)" using sp [OF sc] \<open>lv1 \<noteq> []\<close> by (simp add: hd_conv_nth)
    ultimately obtain t' lv' F' where "insert_propagate t1 (root t) (rev ps) (s, c) = Some (t', Inr ())"
      "bt_ok t' lv' F'" "entries t' (hd lv') = entries t1 (hd lv1)"
      using propagate_ok [OF I(2), of "rev ps" 0 c s "root t"] sp [OF sc] I(4) by auto
    then show thesis using that run I sc by auto
  qed
qed

lemma new_btree_ok: "2 \<le> ord \<Longrightarrow> bt_ok (new_btree nm ord) [[0]] (\<lambda>x. x)"
  by (simp add: bt_ok_def new_btree_def leaf_ok_def leaf_entries_def)

section \<open>Scans\<close>

fun walk_list :: "('s \<Rightarrow> leaf_node \<Rightarrow> 's \<times> bool) \<Rightarrow> 's \<Rightarrow> leaf_node list \<Rightarrow> 's" where
  "walk_list body s [] = s"
| "walk_list body s (l # ls) = (case body s l of (s', stop) \<Rightarrow> if stop then s' else walk_list body s' ls)"

lemma leaf_walk_chain:
  assumes "linked t (x # B)" and "\<And>y. y \<in> set (x # B) \<Longrightarrow> y < length (nodes t) \<and> (\<exists>l. nd t y = NLeaf l)"
  shows "leaf_walk t body s (Some x) = Some (walk_list body s (map (\<lambda>l. leaf_of (nd t l)) (x # B)))"
  using assms
proof (induction B arbitrary: x s)
  case Nil
  obtain l where l: "x < length (nodes t)" "nd t x = NLeaf l" using Nil(2) by auto
  then show ?case using Nil(1)
    by (simp add: leaf_walk.simps [of t body s "Some x"] leaf_walk.simps [of t body _ None] node_at_nd split: prod.splits)
next
  case (Cons z B)
  obtain l where l: "x < length (nodes t)" "nd t x = NLeaf l" using Cons.prems(2) [of x] by auto
  have "leaf_walk t body s' (Some z) = Some (walk_list body s' (map (\<lambda>l. leaf_of (nd t l)) (z # B)))" for s'
    using Cons.prems by (intro Cons.IH) auto
  then show ?case using Cons.prems(1) l
    by (simp add: leaf_walk.simps [of t body s "Some x"] node_at_nd split: prod.splits)
qed

lemma leftmost_ok:
  assumes ok: "bt_ok t lv F"
  shows "find_leftmost_leaf t = Some (hd (hd lv))"
proof -
  note D = bt_okD [OF ok]
  have all: "leftmost_from t x = Some (F x)" if "j < length lv" "x \<in> set (lv ! j)" for j x
    using that
  proof (induction j arbitrary: x)
    case 0
    then have x: "x \<in> set (hd lv)" using D(2) by (simp add: hd_conv_nth)
    then show ?case using D(10,11) [OF x] D(8) [OF hd_mem [OF ok] x]
      by (auto simp: leftmost_from.simps [of t x] node_at_nd)
  next
    case (Suc j)
    obtain n where n: "nd t x = NInternal n" "internal_ok t (hd lv) F (set (lv ! j)) n" "F x = F (children n ! 0)"
      using D(13) [OF Suc.prems(1)] Suc.prems(2) by (auto simp: level_ok_def)
    have x: "x < length (nodes t)" using D(8) [of "lv ! Suc j"] Suc.prems by simp
    have ne: "children n \<noteq> []" and "children n ! 0 \<in> set (lv ! j)" using n(2) by (auto simp: internal_ok_def)
    then have "leftmost_from t (children n ! 0) = Some (F x)" using Suc n(3) by simp
    then show ?case using n(1) x ne by (simp add: leftmost_from.simps [of t x] node_at_nd)
  qed
  have "root t \<in> set (lv ! (length lv - 1))" using root_mem [OF ok] D(2) by (simp add: last_conv_nth)
  then show ?thesis using all [of "length lv - 1" "root t"] D(2,5) by (simp add: find_leftmost_leaf_def)
qed

text \<open>A walk from the leftmost leaf visits the whole chain; a walk from the leaf of a key visits the rest
  of the chain from there.\<close>

lemma walk_from:
  assumes ok: "bt_ok t lv F" and s: "hd lv = A @ y # B"
  shows "leaf_walk t body s (Some y) = Some (walk_list body s (map (\<lambda>l. leaf_of (nd t l)) (y # B)))"
proof (rule leaf_walk_chain)
  show "linked t (y # B)" using bt_okD(7) [OF ok hd_mem [OF ok]] s by (auto intro: linked_suffix)
  show "z < length (nodes t) \<and> (\<exists>l. nd t z = NLeaf l)" if "z \<in> set (y # B)" for z
    using that bt_okD(8) [OF ok hd_mem [OF ok], of z] bt_okD(11) [OF ok, of z] s by auto
qed

lemma walk_all:
  assumes ok: "bt_ok t lv F"
  shows "leaf_walk t body s (Some (hd (hd lv))) = Some (walk_list body s (map (\<lambda>l. leaf_of (nd t l)) (hd lv)))"
proof -
  have "hd lv \<noteq> []" using bt_okD(9) [OF ok, of "last lv"] root_mem [OF ok] bt_okD(2) [OF ok] by fastforce
  then show ?thesis using walk_from [OF ok, of "[]" "hd (hd lv)" "tl (hd lv)" body s] by simp
qed

lemma scan_all_ok: "bt_ok t lv F \<Longrightarrow> scan_all t = Some (entries t (hd lv))"
proof -
  assume ok: "bt_ok t lv F"
  have "walk_list (\<lambda>results leaf. (results @ leaf_entries leaf, False)) r (map (\<lambda>l. leaf_of (nd t l)) ls) = r @ entries t ls" for r ls
    by (induction ls arbitrary: r) auto
  then show ?thesis by (simp add: scan_all_def leftmost_ok [OF ok] walk_all [OF ok])
qed

lemma count_ok: "bt_ok t lv F \<Longrightarrow> bt_count t = Some (length (entries t (hd lv)))"
proof -
  assume ok: "bt_ok t lv F"
  have "walk_list (\<lambda>c leaf. (c + length (lkeys leaf), False)) r (map (\<lambda>l. leaf_of (nd t l)) ls) = r + length (entries t ls)"
    if "\<And>l. l \<in> set ls \<Longrightarrow> leaf_ok (order t) (leaf_of (nd t l))" for r ls
    using that by (induction ls arbitrary: r) (auto simp: leaf_ok_def leaf_entries_def)
  moreover have "leaf_ok (order t) (leaf_of (nd t l))" if "l \<in> set (hd lv)" for l using bt_okD(11) [OF ok that] by auto
  ultimately show ?thesis by (simp add: bt_count_def leftmost_ok [OF ok] walk_all [OF ok])
qed

lemma each_leaf_append:
  "each_leaf f s (xs @ ys) = (case each_leaf f s xs of (s', stop) \<Rightarrow> if stop then (s', True) else each_leaf f s' ys)"
  by (induction f s xs rule: each_leaf.induct) (auto split: prod.splits bool.splits)

lemma for_each_ok: "bt_ok t lv F \<Longrightarrow> for_each t f s = Some (fst (each_leaf f s (entries t (hd lv))))"
proof -
  assume ok: "bt_ok t lv F"
  have "walk_list (\<lambda>s leaf. each_leaf f s (leaf_entries leaf)) s (map (\<lambda>l. leaf_of (nd t l)) ls) = fst (each_leaf f s (entries t ls))" for s ls
    by (induction ls arbitrary: s) (auto simp: each_leaf_append split: prod.splits)
  then show ?thesis by (simp add: for_each_def leftmost_ok [OF ok] walk_all [OF ok])
qed

lemma collect_leaves_ok: "bt_ok t lv F \<Longrightarrow> \<exists>ls. collect_leaves t = Some ls \<and> concat ls = entries t (hd lv) \<and> [] \<notin> set ls"
proof -
  assume ok: "bt_ok t lv F"
  have "\<exists>r'. walk_list (\<lambda>ls leaf. (if leaf_entries leaf \<noteq> [] then ls @ [leaf_entries leaf] else ls, False)) r
      (map (\<lambda>l. leaf_of (nd t l)) ls) = r' \<and> concat r' = concat r @ entries t ls \<and> ([] \<notin> set r \<longrightarrow> [] \<notin> set r')" for r ls
    by (induction ls arbitrary: r) auto
  from this [of "[]" "hd lv"] show ?thesis by (simp add: collect_leaves_def leftmost_ok [OF ok] walk_all [OF ok])
qed

text \<open>The range and prefix scans stop at the first entry past the range. Cutting the entries into leaves
  makes no difference to that.\<close>

lemma drop_start:
  assumes "sorted_wrt (<) ks" and "length vs = length ks"
  shows "drop (case binary_search ks k of Inr i \<Rightarrow> i | Inl i \<Rightarrow> i) (zip ks vs) = filter (\<lambda>e. k \<le> fst e) (zip ks vs)"
  using assms
proof (induction ks arbitrary: vs)
  case (Cons a ks)
  obtain b vs' where vs: "vs = b # vs'" "length vs' = length ks" using Cons.prems(2) by (cases vs) auto
  have all: "filter (\<lambda>e. k \<le> fst e) (zip ks vs') = zip ks vs'" if "k \<le> a"
    using Cons.prems(1) that by (auto simp: filter_id_conv dest!: set_zip_leftD)
  show ?case
    using Cons.IH [OF _ vs(2)] Cons.prems(1) vs all
    by (auto simp: binary_search_Cons not_le not_less split: sum.splits)
qed simp

lemma range_leaf_append:
  "range_leaf hi (xs @ ys) r = (case range_leaf hi xs r of (r', stop) \<Rightarrow> if stop then (r', True) else range_leaf hi ys r')"
  by (induction hi xs r rule: range_leaf.induct) auto

lemma range_leaf_sorted: "ksorted es \<Longrightarrow> fst (range_leaf hi es r) = r @ filter (\<lambda>e. fst e \<le> hi) es"
proof (induction hi es r rule: range_leaf.induct)
  case (2 hi k v es r)
  have "filter (\<lambda>e. fst e \<le> hi) es = []" if "hi < k"
    using 2(2) that by (auto simp: filter_empty_conv not_le dest: order_less_trans)
  then show ?case using 2 by (auto simp: not_less)
qed simp

lemma starts_with_between:
  "pre \<le> k \<Longrightarrow> k \<le> k' \<Longrightarrow> starts_with k' pre \<Longrightarrow> starts_with k pre"
proof (induction pre arbitrary: k k')
  case (Cons a pre)
  obtain b k1 where k: "k = b # k1" using Cons.prems(1) by (cases k) auto
  obtain c k2 where k': "k' = c # k2" using Cons.prems(3) by (cases k') (auto simp: starts_with_def)
  have "c = a" "starts_with k2 pre" using Cons.prems(3) k' by (auto simp: starts_with_def)
  then have "b = a" "pre \<le> k1" "k1 \<le> k2" using Cons.prems(1,2) k k' by auto
  then show ?case using Cons.IH \<open>starts_with k2 pre\<close> k by (auto simp: starts_with_def)
qed (simp add: starts_with_def)

lemma starts_with_le: "starts_with k pre \<Longrightarrow> pre \<le> k"
proof (induction pre arbitrary: k)
  case (Cons a pre)
  then show ?case by (cases k) (auto simp: starts_with_def)
qed simp

lemma prefix_leaf_append:
  "prefix_leaf pre (xs @ ys) r = (case prefix_leaf pre xs r of (r', stop) \<Rightarrow> if stop then (r', True) else prefix_leaf pre ys r')"
  by (induction pre xs r rule: prefix_leaf.induct) auto

lemma prefix_leaf_sorted:
  "ksorted es \<Longrightarrow> \<forall>e\<in>set es. pre \<le> fst e \<Longrightarrow>
   fst (prefix_leaf pre es r) = r @ filter (\<lambda>e. starts_with (fst e) pre) es"
proof (induction pre es r rule: prefix_leaf.induct)
  case (2 pre k v es r)
  have "filter (\<lambda>e. starts_with (fst e) pre) es = []" if "\<not> starts_with k pre"
  proof -
    have "\<not> starts_with (fst e) pre" if "e \<in> set es" for e
      using 2(3,4) that \<open>\<not> starts_with k pre\<close> starts_with_between [of pre k "fst e"] by (auto simp: less_imp_le)
    then show ?thesis by (simp add: filter_empty_conv)
  qed
  moreover have "k > pre" if "\<not> starts_with k pre"
    using 2(4) that by (auto simp: starts_with_def order.strict_iff_order)
  ultimately show ?case using 2 by auto
qed simp

lemma walk_flagged:
  assumes app: "\<And>xs ys r. g (xs @ ys) r = (case g xs r of (r', stop) \<Rightarrow> if stop then (r', True) else g ys r')"
    and nil: "\<And>r. g [] r = (r, False)"
  shows "snd (walk_list (\<lambda>(first, r) leaf. case g (drop (start_index k first leaf) (leaf_entries leaf)) r of
           (r', stop) \<Rightarrow> ((False, r'), stop)) (True, r) (lf # map (\<lambda>l. leaf_of (nd t l)) B)) =
         fst (g (drop (start_index k True lf) (leaf_entries lf) @ entries t B) r)"
proof -
  let ?body = "\<lambda>(first, r) leaf. case g (drop (start_index k first leaf) (leaf_entries leaf)) r of
           (r', stop) \<Rightarrow> ((False, r'), stop)"
  have rest: "snd (walk_list ?body (False, r) (map (\<lambda>l. leaf_of (nd t l)) B)) = fst (g (entries t B) r)" for r
    by (induction B arbitrary: r) (auto simp: app nil start_index_def split: prod.splits)
  show ?thesis by (auto simp: app rest split: prod.splits)
qed

text \<open>The entries a walk from the leaf of \<open>k\<close> sees: all entries from \<open>k\<close> on.\<close>

lemma located_from:
  assumes ok: "bt_ok t lv F" and L0: "located t lv k y ps A B lf"
  shows "drop (start_index k True lf) (leaf_entries lf) @ entries t B = filter (\<lambda>e. k \<le> fst e) (entries t (hd lv))"
proof -
  note L = locatedD [OF L0]
  have "filter (\<lambda>e. k \<le> fst e) (entries t A) = []" using L(11) by (auto simp: filter_empty_conv not_le)
  moreover have "filter (\<lambda>e. k \<le> fst e) (entries t B) = entries t B" using L(12) by (auto simp: filter_id_conv less_imp_le)
  moreover have "drop (start_index k True lf) (leaf_entries lf) = filter (\<lambda>e. k \<le> fst e) (leaf_entries lf)"
    using drop_start [OF L(13,14), of k] by (simp add: start_index_def leaf_entries_def)
  ultimately show ?thesis using L(4,6) by simp
qed

lemma ksorted_filter: "ksorted es \<Longrightarrow> ksorted (filter P es)"
  by (induction es) auto

lemma range_scan_ok:
  assumes ok: "bt_ok t lv F"
  shows "range_scan t lo hi = Some (filter (\<lambda>e. lo \<le> fst e \<and> fst e \<le> hi) (entries t (hd lv)))"
proof -
  obtain y ps A B lf where L0: "located t lv lo y ps A B lf" by (rule locate [OF ok])
  note L = locatedD [OF L0]
  have "range_scan t lo hi = Some (fst (range_leaf hi (filter (\<lambda>e. lo \<le> fst e) (entries t (hd lv))) []))"
    using walk_flagged [where g = "range_leaf hi" and k = lo and r = "[]" and lf = lf and t = t and B = B]
      located_from [OF ok L0] L(1,6)
    by (auto simp: range_scan_def walk_from [OF ok L(4)] range_leaf_append split: prod.splits)
  then show ?thesis
    using range_leaf_sorted [OF ksorted_filter [OF entries_sorted [OF ok]], of hi "\<lambda>e. lo \<le> fst e" "[]"] by (simp add: conj_commute)
qed

lemma prefix_scan_ok:
  assumes ok: "bt_ok t lv F"
  shows "prefix_scan t pre = Some (filter (\<lambda>e. starts_with (fst e) pre) (entries t (hd lv)))"
proof (cases "pre = []")
  case True
  then show ?thesis using scan_all_ok [OF ok] by (simp add: prefix_scan_def starts_with_def)
next
  case False
  obtain y ps A B lf where L0: "located t lv pre y ps A B lf" by (rule locate [OF ok])
  note L = locatedD [OF L0]
  have "prefix_scan t pre = Some (fst (prefix_leaf pre (filter (\<lambda>e. pre \<le> fst e) (entries t (hd lv))) []))"
    using walk_flagged [where g = "prefix_leaf pre" and k = pre and r = "[]" and lf = lf and t = t and B = B]
      located_from [OF ok L0] L(1,6) False
    by (auto simp: prefix_scan_def walk_from [OF ok L(4)] prefix_leaf_append split: prod.splits)
  moreover have "filter (\<lambda>e. starts_with (fst e) pre) (filter (\<lambda>e. pre \<le> fst e) es) = filter (\<lambda>e. starts_with (fst e) pre) es" for es
    by (auto simp: starts_with_le intro: filter_cong)
  ultimately show ?thesis
    using prefix_leaf_sorted [OF ksorted_filter [OF entries_sorted [OF ok]], of "\<lambda>e. pre \<le> fst e" pre "[]"] by simp
qed

section \<open>The interface to the rest of the system\<close>

definition bt_inv :: "btree \<Rightarrow> bool" where
  "bt_inv t \<longleftrightarrow> (\<exists>lv F. bt_ok t lv F)"

definition bt_entries :: "btree \<Rightarrow> (bytes \<times> bytes) list" where
  "bt_entries t = (case scan_all t of Some es \<Rightarrow> es | None \<Rightarrow> [])"

lemma bt_entries_ok: "bt_ok t lv F \<Longrightarrow> bt_entries t = entries t (hd lv)"
  by (simp add: bt_entries_def scan_all_ok)

lemma bt_invE:
  assumes "bt_inv t"
  obtains lv F where "bt_ok t lv F" and "bt_entries t = entries t (hd lv)"
  using assms bt_entries_ok unfolding bt_inv_def by blast

text \<open>What a client of the index relies on: a sorted list of entries and operations that return.\<close>

locale ordered_index =
  fixes inv :: "'t \<Rightarrow> bool" and contents :: "'t \<Rightarrow> (bytes \<times> bytes) list"
    and ins :: "'t \<Rightarrow> bytes \<Rightarrow> bytes \<Rightarrow> ('t \<times> unit result) option" and del :: "'t \<Rightarrow> bytes \<Rightarrow> ('t \<times> bool) option"
    and prefixed :: "'t \<Rightarrow> bytes \<Rightarrow> (bytes \<times> bytes) list option"
    and ranged :: "'t \<Rightarrow> bytes \<Rightarrow> bytes \<Rightarrow> (bytes \<times> bytes) list option"
  assumes contents_sorted: "inv t \<Longrightarrow> ksorted (contents t)"
    and ins_law: "inv t \<Longrightarrow> \<exists>t'. ins t k v = Some (t', Inr ()) \<and> inv t' \<and> contents t' = upsert k v (contents t)"
    and del_law: "inv t \<Longrightarrow> \<exists>t'. del t k = Some (t', k \<in> fst ` set (contents t)) \<and> inv t' \<and> contents t' = remove_key k (contents t)"
    and prefixed_law: "inv t \<Longrightarrow> prefixed t p = Some (filter (\<lambda>e. starts_with (fst e) p) (contents t))"
    and ranged_law: "inv t \<Longrightarrow> ranged t lo hi = Some (filter (\<lambda>e. lo \<le> fst e \<and> fst e \<le> hi) (contents t))"
begin

lemma ins_set:
  assumes "inv t" and "ins t k v = Some (t', r)"
  shows "inv t'" and "r = Inr ()" and "set (contents t') = Set.insert (k, v) {e \<in> set (contents t). fst e \<noteq> k}"
proof -
  obtain t1 where t1: "ins t k v = Some (t1, Inr ())" "inv t1" "contents t1 = upsert k v (contents t)"
    using ins_law [OF assms(1)] by blast
  then show "inv t'" "r = Inr ()" using assms(2) by auto
  have d: "distinct (map fst (contents t))" "distinct (map fst (contents t1))"
    using contents_sorted assms(1) t1(2) sorted_wrt_less_distinct by blast+
  have eq: "map_of (contents t1) = (map_of (contents t))(k \<mapsto> v)"
    using t1(3) contents_sorted [OF assms(1)] by (simp add: map_of_upsert)
  have "(a, b) \<in> set (contents t1) \<longleftrightarrow> (a, b) = (k, v) \<or> (a, b) \<in> set (contents t) \<and> a \<noteq> k" for a b
    using eq map_of_eq_Some_iff [OF d(1), of a b] map_of_eq_Some_iff [OF d(2), of a b] by (auto split: if_splits)
  then show "set (contents t') = Set.insert (k, v) {e \<in> set (contents t). fst e \<noteq> k}"
    using t1(1) assms(2) by auto
qed

lemma del_set:
  assumes "inv t" and "del t k = Some (t', b)"
  shows "inv t'" and "b \<longleftrightarrow> k \<in> fst ` set (contents t)" and "set (contents t') = {e \<in> set (contents t). fst e \<noteq> k}"
  using del_law [OF assms(1), of k] assms(2) by (auto simp: remove_key_def)

end

interpretation bt: ordered_index bt_inv bt_entries bt_insert bt_delete prefix_scan range_scan
proof (unfold_locales, goal_cases)
  case (1 t)
  then show ?case using entries_sorted by (auto elim!: bt_invE)
next
  case (2 t k v)
  then obtain lv F where ok: "bt_ok t lv F" "bt_entries t = entries t (hd lv)" by (rule bt_invE)
  show ?case
    by (rule insert_ok [OF ok(1), of k v]) (use ok(2) bt_entries_ok in \<open>auto simp: bt_inv_def\<close>)
next
  case (3 t k)
  then obtain lv F where ok: "bt_ok t lv F" "bt_entries t = entries t (hd lv)" by (rule bt_invE)
  show ?case
    by (rule delete_ok [OF ok(1), of k]) (use ok(2) bt_entries_ok in \<open>auto simp: bt_inv_def\<close>)
next
  case (4 t p)
  then show ?case by (auto elim!: bt_invE simp: prefix_scan_ok)
next
  case (5 t lo hi)
  then show ?case by (auto elim!: bt_invE simp: range_scan_ok)
qed

lemma new_btree_inv: "2 \<le> ord \<Longrightarrow> bt_inv (new_btree nm ord)"
  using new_btree_ok unfolding bt_inv_def by blast

lemma new_btree_entries: "2 \<le> ord \<Longrightarrow> bt_entries (new_btree nm ord) = []"
  using bt_entries_ok [OF new_btree_ok [of ord nm]] by (simp add: new_btree_def leaf_entries_def)

lemma bt_search_entries: "bt_inv t \<Longrightarrow> bt_search t k = Some (map_of (bt_entries t) k)"
  by (auto elim!: bt_invE simp: search_ok)

section \<open>Properties\<close>

text \<open>A history of insertions and deletions, run on the tree and on a finite map.\<close>

datatype bt_op = BInsert bytes bytes | BDelete bytes

fun bt_run :: "bt_op list \<Rightarrow> btree \<Rightarrow> btree option" where
  "bt_run [] t = Some t"
| "bt_run (BInsert k v # xs) t = do { (t', r) \<leftarrow> bt_insert t k v; bt_run xs t' }"
| "bt_run (BDelete k # xs) t = do { (t', b) \<leftarrow> bt_delete t k; bt_run xs t' }"

fun map_run :: "bt_op list \<Rightarrow> (bytes \<rightharpoonup> bytes) \<Rightarrow> (bytes \<rightharpoonup> bytes)" where
  "map_run [] m = m"
| "map_run (BInsert k v # xs) m = map_run xs (m(k \<mapsto> v))"
| "map_run (BDelete k # xs) m = map_run xs (m(k := None))"

lemma bt_run_ok:
  "bt_inv t \<Longrightarrow> \<exists>t'. bt_run xs t = Some t' \<and> bt_inv t' \<and> map_of (bt_entries t') = map_run xs (map_of (bt_entries t))"
proof (induction xs arbitrary: t)
  case (Cons x xs)
  show ?case
  proof (cases x)
    case (BInsert k v)
    obtain t1 where t1: "bt_insert t k v = Some (t1, Inr ())" "bt_inv t1" "bt_entries t1 = upsert k v (bt_entries t)"
      using bt.ins_law [OF Cons.prems] by blast
    then have "map_of (bt_entries t1) = (map_of (bt_entries t))(k \<mapsto> v)"
      using map_of_upsert bt.contents_sorted [OF Cons.prems] by simp
    then show ?thesis using Cons.IH [OF t1(2)] t1(1) BInsert by (auto simp del: fun_upd_apply)
  next
    case (BDelete k)
    obtain t1 b where t1: "bt_delete t k = Some (t1, b)" "bt_inv t1" "bt_entries t1 = remove_key k (bt_entries t)"
      using bt.del_law [OF Cons.prems] by blast
    then have "map_of (bt_entries t1) = (map_of (bt_entries t))(k := None)" by (simp add: map_of_remove_key)
    then show ?thesis using Cons.IH [OF t1(2)] t1(1) BDelete by (auto simp del: fun_upd_apply)
  qed
qed auto

text \<open>C5. Every history of insertions and deletions on a fresh tree of order at least two runs to its end,
  whatever splits it causes, and afterwards \<open>search\<close> returns for every key what a finite map holds
  after the same history.\<close>

theorem btree_history:
  assumes "2 \<le> ord"
  shows "\<exists>t. bt_run xs (new_btree nm ord) = Some t \<and> (\<forall>k. bt_search t k = Some (map_run xs Map.empty k))"
  using bt_run_ok [OF new_btree_inv [OF assms], of xs nm] bt_search_entries new_btree_entries [OF assms] by fastforce

theorem btree_history_witness:
  "\<exists>t. bt_run [BInsert [1] [10], BInsert [2] [20], BInsert [3] [30], BDelete [2]] (new_btree ''t'' 2) = Some t \<and>
     bt_search t [1] = Some (Some [10]) \<and> bt_search t [2] = Some None \<and> bt_search t [3] = Some (Some [30])"
  using btree_history [of 2 "[BInsert [1] [10], BInsert [2] [20], BInsert [3] [30], BDelete [2]]" "''t''"] by auto

text \<open>C6. \<open>insert\<close> returns \<open>Ok\<close>, keeps the tree well formed and leaves exactly the old entries with the
  key's value added or replaced, in key order.\<close>

theorem bt_insert_correct:
  assumes "bt_inv t"
  shows "\<exists>t'. bt_insert t k v = Some (t', Inr ()) \<and> bt_inv t' \<and> bt_entries t' = upsert k v (bt_entries t)"
  using assms by (rule bt.ins_law)

theorem bt_insert_correct_witness:
  "\<exists>t'. bt_insert (new_btree ''t'' 2) [5] [6] = Some (t', Inr ()) \<and> bt_entries t' = [([5], [6])]"
  using bt_insert_correct [OF new_btree_inv, of 2 "''t''" "[5]" "[6]"] by (auto simp: new_btree_entries)

text \<open>C7. \<open>delete\<close> returns whether the key was present, keeps the tree well formed and removes exactly
  that key's entry.\<close>

theorem bt_delete_correct:
  assumes "bt_inv t"
  shows "\<exists>t'. bt_delete t k = Some (t', k \<in> fst ` set (bt_entries t)) \<and> bt_inv t' \<and>
    bt_entries t' = filter (\<lambda>e. fst e \<noteq> k) (bt_entries t)"
  using bt.del_law [OF assms, of k] by (simp add: remove_key_def)

theorem bt_delete_correct_witness:
  "\<exists>t'. bt_delete (new_btree ''t'' 2) [5] = Some (t', False) \<and> bt_inv t' \<and> bt_entries t' = []"
  using bt_delete_correct [OF new_btree_inv, of 2 "''t''" "[5]"] by (simp add: new_btree_entries)

text \<open>C8. The contents of a well-formed tree are strictly increasing by key. A range scan returns exactly
  the entries with key between the two bounds inclusive, a prefix scan exactly those whose key starts with
  the prefix, both in key order.\<close>

theorem bt_scans_correct:
  assumes "bt_inv t"
  shows "sorted_wrt (<) (map fst (bt_entries t)) \<and>
    range_scan t lo hi = Some (filter (\<lambda>e. lo \<le> fst e \<and> fst e \<le> hi) (bt_entries t)) \<and>
    prefix_scan t pre = Some (filter (\<lambda>e. take (length pre) (fst e) = pre) (bt_entries t))"
  using bt.contents_sorted [OF assms] bt.ranged_law [OF assms] bt.prefixed_law [OF assms] by (simp add: starts_with_def)

theorem bt_scans_correct_witness:
  "range_scan (new_btree ''t'' 4) [1] [2] = Some [] \<and> prefix_scan (new_btree ''t'' 4) [7] = Some []"
  using bt_scans_correct [OF new_btree_inv, of 4 "''t''" "[1]" "[2]" "[7]"] by (simp add: new_btree_entries)

text \<open>\<open>count\<close>, the running length and the number of entries agree, and \<open>for_each\<close> and
  \<open>collect_leaves\<close> visit exactly the entries, in order.\<close>

lemma bt_count_correct:
  assumes "bt_inv t"
  shows "bt_count t = Some (length (bt_entries t)) \<and> approx_len t = of_nat (length (bt_entries t)) \<and>
    for_each t (\<lambda>es e. (es @ [e], True)) [] = Some (bt_entries t) \<and>
    (\<exists>ls. collect_leaves t = Some ls \<and> concat ls = bt_entries t \<and> [] \<notin> set ls)"
proof -
  obtain lv F where ok: "bt_ok t lv F" and e: "bt_entries t = entries t (hd lv)" using assms by (rule bt_invE)
  have "each_leaf (\<lambda>es e. (es @ [e], True)) r es = (r @ es, False)" for r and es :: "(bytes \<times> bytes) list"
    by (induction es arbitrary: r) auto
  then show ?thesis
    using count_ok [OF ok] for_each_ok [OF ok, of "\<lambda>es e. (es @ [e], True)" "[]"] collect_leaves_ok [OF ok] bt_okD(14) [OF ok] e
    by (simp add: approx_len_def)
qed

end
