(* ===== verification/Values.thy ===== *)
theory Values
  imports Prelude
begin

unbundle bit_operations_syntax

text \<open>
  The values of \<open>bytedb-core/src/tuple/value.rs\<close>: data types, accessors, the two comparison functions and
  the textual form of UUIDs. An \<open>i64\<close>, \<open>i32\<close> or \<open>i128\<close> is a word read by \<open>sint\<close>; an \<open>f64\<close> is
  its IEEE 754 bit pattern, compared by \<open>f64_partial_cmp\<close>; a string is its UTF-8 bytes, whose
  lexicographic order is the order of \<open>str\<close>. The type variable stands for \<open>serde_json::Value\<close>.
\<close>

section \<open>Types and values\<close>

datatype data_type = TBool | TInt64 | TFloat64 | TText | TBytes | TJson | TTimestamp | TDate | TDecimal | TUuid | TInterval

datatype 'j val =
    Null
  | VBool bool
  | VInt64 u64
  | VFloat64 u64
  | VText bytes
  | VBytes bytes
  | VJson 'j
  | VTimestamp u64
  | VDate u32
  | VDecimal u128 u8
  | VUuid bytes
  | VInterval u64

fun data_type_of :: "'j val \<Rightarrow> data_type option" where
  "data_type_of Null = None"
| "data_type_of (VBool _) = Some TBool"
| "data_type_of (VInt64 _) = Some TInt64"
| "data_type_of (VFloat64 _) = Some TFloat64"
| "data_type_of (VText _) = Some TText"
| "data_type_of (VBytes _) = Some TBytes"
| "data_type_of (VJson _) = Some TJson"
| "data_type_of (VTimestamp _) = Some TTimestamp"
| "data_type_of (VDate _) = Some TDate"
| "data_type_of (VDecimal _ _) = Some TDecimal"
| "data_type_of (VUuid _) = Some TUuid"
| "data_type_of (VInterval _) = Some TInterval"

definition is_null :: "'j val \<Rightarrow> bool" where
  "is_null v = (case v of Null \<Rightarrow> True | _ \<Rightarrow> False)"

definition as_i64 :: "'j val \<Rightarrow> u64 option" where
  "as_i64 v = (case v of VInt64 n \<Rightarrow> Some n | _ \<Rightarrow> None)"

definition as_text :: "'j val \<Rightarrow> bytes option" where
  "as_text v = (case v of VText s \<Rightarrow> Some s | _ \<Rightarrow> None)"

definition as_bool :: "'j val \<Rightarrow> bool option" where
  "as_bool v = (case v of VBool b \<Rightarrow> Some b | _ \<Rightarrow> None)"

section \<open>Numbers of the standard library\<close>

datatype ordering = Less | Equal | Greater

definition cmp :: "'a::linorder \<Rightarrow> 'a \<Rightarrow> ordering" where
  "cmp a b = (if a < b then Less else if a = b then Equal else Greater)"

text \<open>\<open>f64\<close>: a NaN has all exponent bits set and a nonzero mantissa. Other numbers are ordered by
  sign and magnitude, where the two zeros are equal.\<close>

definition f64_is_nan :: "u64 \<Rightarrow> bool" where
  "f64_is_nan b \<longleftrightarrow> unat (take_bit 63 b) > 2047 * 2 ^ 52"

definition f64_rank :: "u64 \<Rightarrow> int" where
  "f64_rank b = (if bit b 63 then - int (unat (take_bit 63 b)) else int (unat (take_bit 63 b)))"

definition f64_partial_cmp :: "u64 \<Rightarrow> u64 \<Rightarrow> ordering option" where
  "f64_partial_cmp a b =
     (if f64_is_nan a \<or> f64_is_nan b then None else Some (cmp (f64_rank a) (f64_rank b)))"

text \<open>\<open>n as f64\<close> for an \<open>i64\<close>: round to nearest, ties to even. The mantissa is \<open>q\<close>, whose leading one
  adds to the exponent field, so that a mantissa rounded up to \<open>2 ^ 53\<close> carries into the exponent.\<close>

fun bit_length :: "nat \<Rightarrow> nat" where
  "bit_length n = (if n = 0 then 0 else Suc (bit_length (n div 2)))"

declare bit_length.simps [simp del]

definition i64_as_f64 :: "u64 \<Rightarrow> u64" where
  "i64_as_f64 w =
     (let v = sint w; n = nat \<bar>v\<bar> in
      if n = 0 then 0
      else
        let e = bit_length n - 1;
            q = (if e \<le> 52 then n * 2 ^ (52 - e)
                 else
                   let s = 2 ^ (e - 52); q0 = n div s; r = n mod s; half = s div 2
                   in if r > half \<or> r = half \<and> odd q0 then q0 + 1 else q0);
            mag = (e + 1022) * 2 ^ 52 + q
        in of_nat (if v < 0 then 2 ^ 63 + mag else mag))"

definition as_f64 :: "'j val \<Rightarrow> u64 option" where
  "as_f64 v = (case v of VFloat64 f \<Rightarrow> Some f | VInt64 n \<Rightarrow> Some (i64_as_f64 n) | _ \<Rightarrow> None)"

definition i128_max :: int where "i128_max = 2 ^ 127 - 1"
definition i128_min :: int where "i128_min = - (2 ^ 127)"

definition i128_checked_mul :: "u128 \<Rightarrow> u128 \<Rightarrow> u128 option" where
  "i128_checked_mul a b =
     (let p = sint a * sint b in if i128_min \<le> p \<and> p \<le> i128_max then Some (of_int p) else None)"

definition i128_saturating_mul :: "u128 \<Rightarrow> u128 \<Rightarrow> u128" where
  "i128_saturating_mul a b = of_int (max i128_min (min i128_max (sint a * sint b)))"

section \<open>Comparison\<close>

text \<open>\<open>10i128.pow\<close> wraps around in a release build, as multiplication of words does.\<close>

definition decimal_align :: "u128 \<Rightarrow> u8 \<Rightarrow> u128 \<Rightarrow> u8 \<Rightarrow> u128 \<times> u128" where
  "decimal_align a sa b sb =
     (if sa = sb then (a, b)
      else if sa < sb then (i128_saturating_mul a (10 ^ unat (sb - sa)), b)
      else (a, i128_saturating_mul b (10 ^ unat (sa - sb))))"

definition scmp :: "'a::len word \<Rightarrow> 'a word \<Rightarrow> ordering" where
  "scmp a b = cmp (sint a) (sint b)"

definition compare :: "'j val \<Rightarrow> 'j val \<Rightarrow> ordering option" where
  "compare a b = (case a of
     Null \<Rightarrow> (case b of Null \<Rightarrow> Some Equal | _ \<Rightarrow> Some Less)
   | VBool x \<Rightarrow> (case b of Null \<Rightarrow> Some Greater | VBool y \<Rightarrow> Some (cmp x y) | _ \<Rightarrow> None)
   | VInt64 x \<Rightarrow> (case b of
         Null \<Rightarrow> Some Greater
       | VInt64 y \<Rightarrow> Some (scmp x y)
       | VFloat64 y \<Rightarrow> f64_partial_cmp (i64_as_f64 x) y
       | VDecimal y sb \<Rightarrow>
           (case i128_checked_mul (scast x) (10 ^ unat sb) of None \<Rightarrow> None | Some aa \<Rightarrow> Some (scmp aa y))
       | _ \<Rightarrow> None)
   | VFloat64 x \<Rightarrow> (case b of
         Null \<Rightarrow> Some Greater
       | VInt64 y \<Rightarrow> f64_partial_cmp x (i64_as_f64 y)
       | VFloat64 y \<Rightarrow> f64_partial_cmp x y
       | _ \<Rightarrow> None)
   | VText x \<Rightarrow> (case b of Null \<Rightarrow> Some Greater | VText y \<Rightarrow> Some (cmp x y) | _ \<Rightarrow> None)
   | VBytes x \<Rightarrow> (case b of Null \<Rightarrow> Some Greater | VBytes y \<Rightarrow> Some (cmp x y) | _ \<Rightarrow> None)
   | VJson _ \<Rightarrow> (case b of Null \<Rightarrow> Some Greater | _ \<Rightarrow> None)
   | VTimestamp x \<Rightarrow> (case b of Null \<Rightarrow> Some Greater | VTimestamp y \<Rightarrow> Some (scmp x y) | _ \<Rightarrow> None)
   | VDate x \<Rightarrow> (case b of Null \<Rightarrow> Some Greater | VDate y \<Rightarrow> Some (scmp x y) | _ \<Rightarrow> None)
   | VUuid x \<Rightarrow> (case b of Null \<Rightarrow> Some Greater | VUuid y \<Rightarrow> Some (cmp x y) | _ \<Rightarrow> None)
   | VInterval _ \<Rightarrow> (case b of Null \<Rightarrow> Some Greater | _ \<Rightarrow> None)
   | VDecimal x sa \<Rightarrow> (case b of
         Null \<Rightarrow> Some Greater
       | VDecimal y sb \<Rightarrow> (case decimal_align x sa y sb of (na, nb) \<Rightarrow> Some (scmp na nb))
       | VInt64 y \<Rightarrow>
           (case i128_checked_mul (scast y) (10 ^ unat sa) of None \<Rightarrow> None | Some bb \<Rightarrow> Some (scmp x bb))
       | _ \<Rightarrow> None))"

definition unwrap_or :: "'a option \<Rightarrow> 'a \<Rightarrow> 'a" where
  "unwrap_or x d = (case x of Some y \<Rightarrow> y | None \<Rightarrow> d)"

definition cmp_fast :: "'j val \<Rightarrow> 'j val \<Rightarrow> ordering" where
  "cmp_fast a b = (case a of
     Null \<Rightarrow> (case b of Null \<Rightarrow> Equal | _ \<Rightarrow> Less)
   | VInt64 x \<Rightarrow> (case b of
         Null \<Rightarrow> Greater
       | VInt64 y \<Rightarrow> scmp x y
       | VFloat64 y \<Rightarrow> unwrap_or (f64_partial_cmp (i64_as_f64 x) y) Equal
       | _ \<Rightarrow> Equal)
   | VFloat64 x \<Rightarrow> (case b of
         Null \<Rightarrow> Greater
       | VInt64 y \<Rightarrow> unwrap_or (f64_partial_cmp x (i64_as_f64 y)) Equal
       | VFloat64 y \<Rightarrow> unwrap_or (f64_partial_cmp x y) Equal
       | _ \<Rightarrow> Equal)
   | VText x \<Rightarrow> (case b of Null \<Rightarrow> Greater | VText y \<Rightarrow> cmp x y | _ \<Rightarrow> Equal)
   | VBool x \<Rightarrow> (case b of Null \<Rightarrow> Greater | VBool y \<Rightarrow> cmp x y | _ \<Rightarrow> Equal)
   | VBytes x \<Rightarrow> (case b of Null \<Rightarrow> Greater | VBytes y \<Rightarrow> cmp x y | _ \<Rightarrow> Equal)
   | VTimestamp x \<Rightarrow> (case b of Null \<Rightarrow> Greater | VTimestamp y \<Rightarrow> scmp x y | _ \<Rightarrow> Equal)
   | VDate x \<Rightarrow> (case b of Null \<Rightarrow> Greater | VDate y \<Rightarrow> scmp x y | _ \<Rightarrow> Equal)
   | VUuid x \<Rightarrow> (case b of Null \<Rightarrow> Greater | VUuid y \<Rightarrow> cmp x y | _ \<Rightarrow> Equal)
   | VInterval x \<Rightarrow> (case b of Null \<Rightarrow> Greater | VInterval y \<Rightarrow> scmp x y | _ \<Rightarrow> Equal)
   | VDecimal x sa \<Rightarrow> (case b of
         Null \<Rightarrow> Greater
       | VDecimal y sb \<Rightarrow> (case decimal_align x sa y sb of (na, nb) \<Rightarrow> scmp na nb)
       | _ \<Rightarrow> Equal)
   | VJson _ \<Rightarrow> (case b of Null \<Rightarrow> Greater | _ \<Rightarrow> Equal))"

text \<open>\<open>impl PartialEq for Value\<close>.\<close>

definition value_eq :: "'j val \<Rightarrow> 'j val \<Rightarrow> bool" where
  "value_eq a b \<longleftrightarrow> compare a b = Some Equal"

section \<open>UUID text\<close>

definition hex_nibble :: "u8 \<Rightarrow> u8 option" where
  "hex_nibble c =
     (if 48 \<le> c \<and> c \<le> 57 then Some (c - 48)
      else if 97 \<le> c \<and> c \<le> 102 then Some (c - 97 + 10)
      else if 65 \<le> c \<and> c \<le> 70 then Some (c - 65 + 10)
      else None)"

fun parse_hex_pairs :: "bytes \<Rightarrow> bytes option" where
  "parse_hex_pairs (h # l # rest) =
     (case hex_nibble h of None \<Rightarrow> None
      | Some hi \<Rightarrow> (case hex_nibble l of None \<Rightarrow> None
      | Some lo \<Rightarrow> (case parse_hex_pairs rest of None \<Rightarrow> None
      | Some out \<Rightarrow> Some ((push_bit 4 hi OR lo) # out))))"
| "parse_hex_pairs _ = Some []"

definition parse_uuid :: "bytes \<Rightarrow> bytes option" where
  "parse_uuid s =
     (let b = filter (\<lambda>c. c \<noteq> 45) s in if length b \<noteq> 32 then None else parse_hex_pairs b)"

definition hex_digit :: "u8 \<Rightarrow> u8" where
  "hex_digit n = (if n < 10 then 48 + n else 87 + n)"

fun format_uuid_from :: "nat \<Rightarrow> bytes \<Rightarrow> bytes" where
  "format_uuid_from i [] = []"
| "format_uuid_from i (b # bs) =
     (if i = 4 \<or> i = 6 \<or> i = 8 \<or> i = 10 then [45] else []) @
     [hex_digit (drop_bit 4 b), hex_digit (b AND 15)] @ format_uuid_from (Suc i) bs"

definition format_uuid :: "bytes \<Rightarrow> bytes" where
  "format_uuid b = format_uuid_from 0 b"

lemma compare_simps [simp]:
  "compare (Null) b = (case b of Null \<Rightarrow> Some Equal | _ \<Rightarrow> Some Less)"
  "compare (VBool x2) b = (case b of Null \<Rightarrow> Some Greater | VBool y \<Rightarrow> Some (cmp x2 y) | _ \<Rightarrow> None)"
  "compare (VInt64 x3) b = (case b of Null \<Rightarrow> Some Greater | VInt64 y \<Rightarrow> Some (scmp x3 y) | VFloat64 y \<Rightarrow> f64_partial_cmp (i64_as_f64 x3) y | VDecimal y sb \<Rightarrow> (case i128_checked_mul (scast x3) (10 ^ unat sb) of None \<Rightarrow> None | Some aa \<Rightarrow> Some (scmp aa y)) | _ \<Rightarrow> None)"
  "compare (VFloat64 x4) b = (case b of Null \<Rightarrow> Some Greater | VInt64 y \<Rightarrow> f64_partial_cmp x4 (i64_as_f64 y) | VFloat64 y \<Rightarrow> f64_partial_cmp x4 y | _ \<Rightarrow> None)"
  "compare (VText x5) b = (case b of Null \<Rightarrow> Some Greater | VText y \<Rightarrow> Some (cmp x5 y) | _ \<Rightarrow> None)"
  "compare (VBytes x6) b = (case b of Null \<Rightarrow> Some Greater | VBytes y \<Rightarrow> Some (cmp x6 y) | _ \<Rightarrow> None)"
  "compare (VJson z7) b = (case b of Null \<Rightarrow> Some Greater | _ \<Rightarrow> None)"
  "compare (VTimestamp x8) b = (case b of Null \<Rightarrow> Some Greater | VTimestamp y \<Rightarrow> Some (scmp x8 y) | _ \<Rightarrow> None)"
  "compare (VDate x9) b = (case b of Null \<Rightarrow> Some Greater | VDate y \<Rightarrow> Some (scmp x9 y) | _ \<Rightarrow> None)"
  "compare (VUuid x10) b = (case b of Null \<Rightarrow> Some Greater | VUuid y \<Rightarrow> Some (cmp x10 y) | _ \<Rightarrow> None)"
  "compare (VInterval z11) b = (case b of Null \<Rightarrow> Some Greater | _ \<Rightarrow> None)"
  "compare (VDecimal x12 sa) b = (case b of Null \<Rightarrow> Some Greater | VDecimal y sb \<Rightarrow> (case decimal_align x12 sa y sb of (na, nb) \<Rightarrow> Some (scmp na nb)) | VInt64 y \<Rightarrow> (case i128_checked_mul (scast y) (10 ^ unat sa) of None \<Rightarrow> None | Some bb \<Rightarrow> Some (scmp x12 bb)) | _ \<Rightarrow> None)"
  by (simp_all add: compare_def)

lemma cmp_fast_simps [simp]:
  "cmp_fast (Null) b = (case b of Null \<Rightarrow> Equal | _ \<Rightarrow> Less)"
  "cmp_fast (VInt64 x14) b = (case b of Null \<Rightarrow> Greater | VInt64 y \<Rightarrow> scmp x14 y | VFloat64 y \<Rightarrow> unwrap_or (f64_partial_cmp (i64_as_f64 x14) y) Equal | _ \<Rightarrow> Equal)"
  "cmp_fast (VFloat64 x15) b = (case b of Null \<Rightarrow> Greater | VInt64 y \<Rightarrow> unwrap_or (f64_partial_cmp x15 (i64_as_f64 y)) Equal | VFloat64 y \<Rightarrow> unwrap_or (f64_partial_cmp x15 y) Equal | _ \<Rightarrow> Equal)"
  "cmp_fast (VText x16) b = (case b of Null \<Rightarrow> Greater | VText y \<Rightarrow> cmp x16 y | _ \<Rightarrow> Equal)"
  "cmp_fast (VBool x17) b = (case b of Null \<Rightarrow> Greater | VBool y \<Rightarrow> cmp x17 y | _ \<Rightarrow> Equal)"
  "cmp_fast (VBytes x18) b = (case b of Null \<Rightarrow> Greater | VBytes y \<Rightarrow> cmp x18 y | _ \<Rightarrow> Equal)"
  "cmp_fast (VTimestamp x19) b = (case b of Null \<Rightarrow> Greater | VTimestamp y \<Rightarrow> scmp x19 y | _ \<Rightarrow> Equal)"
  "cmp_fast (VDate x20) b = (case b of Null \<Rightarrow> Greater | VDate y \<Rightarrow> scmp x20 y | _ \<Rightarrow> Equal)"
  "cmp_fast (VUuid x21) b = (case b of Null \<Rightarrow> Greater | VUuid y \<Rightarrow> cmp x21 y | _ \<Rightarrow> Equal)"
  "cmp_fast (VInterval x22) b = (case b of Null \<Rightarrow> Greater | VInterval y \<Rightarrow> scmp x22 y | _ \<Rightarrow> Equal)"
  "cmp_fast (VDecimal x23 sa) b = (case b of Null \<Rightarrow> Greater | VDecimal y sb \<Rightarrow> (case decimal_align x23 sa y sb of (na, nb) \<Rightarrow> scmp na nb) | _ \<Rightarrow> Equal)"
  "cmp_fast (VJson z24) b = (case b of Null \<Rightarrow> Greater | _ \<Rightarrow> Equal)"
  by (simp_all add: cmp_fast_def)

section \<open>Comparison is symmetric, and the two comparisons agree\<close>

fun flip :: "ordering \<Rightarrow> ordering" where
  "flip Less = Greater"
| "flip Equal = Equal"
| "flip Greater = Less"

lemma cmp_flip: "cmp b a = flip (cmp a b)"
  by (auto simp: cmp_def)

lemma scmp_flip: "scmp b a = flip (scmp a b)"
  unfolding scmp_def by (rule cmp_flip)

lemma f64_partial_cmp_flip: "f64_partial_cmp b a = map_option flip (f64_partial_cmp a b)"
  by (auto simp: f64_partial_cmp_def intro: cmp_flip)

lemma decimal_align_swap: "decimal_align b sb a sa = prod.swap (decimal_align a sa b sb)"
  by (auto simp: decimal_align_def)

lemma align_flip:
  "(case decimal_align b sb a sa of (nb, na) \<Rightarrow> scmp nb na) = flip (case decimal_align a sa b sb of (na, nb) \<Rightarrow> scmp na nb)"
  by (subst decimal_align_swap) (auto split: prod.split intro: scmp_flip)

lemma compare_flip: "compare b a = map_option flip (compare a b)"
proof (cases "\<exists>x sa y sb. a = VDecimal x sa \<and> b = VDecimal y sb")
  case True
  then obtain x sa y sb where "a = VDecimal x sa" "b = VDecimal y sb" by blast
  then show ?thesis using align_flip [of y sb x sa] by (simp add: case_prod_beta)
next
  case False
  then show ?thesis
    by (cases a; cases b; simp split: option.split;
        (intro allI impI cmp_flip scmp_flip f64_partial_cmp_flip)?)
qed

definition decimal_vs_int :: "'j val \<Rightarrow> 'j val \<Rightarrow> bool" where
  "decimal_vs_int a b \<longleftrightarrow> (case (a, b) of (VDecimal _ _, VInt64 _) \<Rightarrow> True | (VInt64 _, VDecimal _ _) \<Rightarrow> True | _ \<Rightarrow> False)"

text \<open>C9. Where \<open>compare\<close> gives an answer, \<open>cmp_fast\<close> gives the same one, except between a decimal and
  an integer, which only \<open>compare\<close> orders.\<close>

theorem cmp_fast_agrees:
  assumes "compare a b = Some r" and "\<not> decimal_vs_int a b"
  shows "cmp_fast a b = r"
  using assms
  by (cases a; cases b; simp add: decimal_vs_int_def unwrap_or_def split: prod.splits)

theorem cmp_fast_agrees_witness:
  "compare (VInt64 3) (VInt64 5 :: unit val) = Some Less \<and> cmp_fast (VInt64 3) (VInt64 5 :: unit val) = Less"
  using cmp_fast_agrees [of "VInt64 3 :: unit val" "VInt64 5" Less]
  by (simp add: scmp_def cmp_def decimal_vs_int_def)

section \<open>UUID round trip\<close>

lemma nibble_cases:
  fixes n :: u8
  assumes "n < 16"
  shows "n \<in> {0, 1, 2, 3, 4, 5, 6, 7, 8, 9, 10, 11, 12, 13, 14, 15}"
proof -
  have "unat n < 16" using assms by (simp add: word_less_nat_alt)
  then have "unat n \<in> set [0..<16]" by simp
  moreover have "n = of_nat (unat n)" by simp
  ultimately have "n \<in> set (map of_nat [0..<16])" by (metis image_eqI set_map)
  then show ?thesis by (simp add: upt_rec)
qed

lemma hex_nibble_digit: "n < 16 \<Longrightarrow> hex_nibble (hex_digit n) = Some n \<and> hex_digit n \<noteq> 45"
  by (drule nibble_cases, elim insertE emptyE) (simp_all add: hex_nibble_def hex_digit_def)

lemma byte_nibbles:
  fixes b :: u8
  shows "drop_bit 4 b < 16" and "b AND 15 < 16" and "push_bit 4 (drop_bit 4 b) OR (b AND 15) = b"
proof -
  have "unat (drop_bit 4 b) = unat b div 16" by (simp add: drop_bit_eq_div unat_div_distrib)
  moreover have "unat b < 2 ^ LENGTH(8)" by (rule unsigned_less)
  ultimately show "drop_bit 4 b < 16" by (simp add: word_less_nat_alt)
  have m: "(15 :: u8) = mask 4" by (simp add: mask_eq_exp_minus_1)
  show "b AND 15 < 16" 
    unfolding m take_bit_eq_mask [symmetric] word_less_nat_alt unsigned_take_bit_eq
    using take_bit_nat_less_exp [of 4 "unat b"] by simp
  show "push_bit 4 (drop_bit 4 b) OR (b AND 15) = b"
    unfolding m by (rule bit_eqI) (auto simp: bit_simps)
qed

lemma filter_format: "filter (\<lambda>c. c \<noteq> 45) (format_uuid_from i bs) =
    concat (map (\<lambda>b. [hex_digit (drop_bit 4 b), hex_digit (b AND 15)]) bs)"
proof (induction bs arbitrary: i)
  case (Cons b bs)
  then show ?case
    using hex_nibble_digit [OF byte_nibbles(1) [of b]] hex_nibble_digit [OF byte_nibbles(2) [of b]] by simp
qed simp

lemma parse_hex_format: "parse_hex_pairs (concat (map (\<lambda>b. [hex_digit (drop_bit 4 b), hex_digit (b AND 15)]) bs)) = Some bs"
proof (induction bs)
  case (Cons b bs)
  then show ?case
    using hex_nibble_digit [OF byte_nibbles(1) [of b]] hex_nibble_digit [OF byte_nibbles(2) [of b]] byte_nibbles(3) [of b] by simp
qed simp

text \<open>C10. A UUID of 16 bytes is read back from the text it prints as.\<close>

theorem uuid_roundtrip:
  assumes "length b = 16"
  shows "parse_uuid (format_uuid b) = Some b"
proof -
  have "length (concat (map (\<lambda>b. [hex_digit (drop_bit 4 b), hex_digit (b AND 15)]) bs)) = 2 * length bs" for bs :: bytes
    by (induction bs) auto
  then show ?thesis using assms by (simp add: parse_uuid_def format_uuid_def filter_format parse_hex_format)
qed

theorem uuid_roundtrip_witness: "parse_uuid (format_uuid (replicate 16 171)) = Some (replicate 16 171)"
  by (rule uuid_roundtrip) simp

end
