(* ===== verification/OrderKey.thy ===== *)
theory OrderKey
  imports Values
begin

unbundle bit_operations_syntax

text \<open>
  The order-preserving key encoding of \<open>bytedb-core/src/index/order_key.rs\<close>. The encoding of a value sorts,
  byte by byte, as the value does, and no encoding is a proper prefix of another one of the same type:
  so the concatenated encodings of several columns sort as the columns do. \<open>js\<close> is the
  \<open>to_string\<close> of \<open>serde_json\<close>.
\<close>

section \<open>The encoder\<close>

fun encode_var :: "bytes \<Rightarrow> bytes" where
  "encode_var [] = [0, 0]"
| "encode_var (b # bs) = (if b = 0 then [0, 255] else [b]) @ encode_var bs"

definition encode_body :: "('j \<Rightarrow> bytes) \<Rightarrow> 'j val \<Rightarrow> bytes" where
  "encode_body js v = (case v of
     Null \<Rightarrow> []
   | VBool b \<Rightarrow> [if b then 1 else 0]
   | VInt64 n \<Rightarrow> to_be (n XOR push_bit 63 1)
   | VTimestamp n \<Rightarrow> to_be (n XOR push_bit 63 1)
   | VInterval n \<Rightarrow> to_be (n XOR push_bit 63 1)
   | VDate d \<Rightarrow> to_be (d XOR push_bit 31 1)
   | VFloat64 f \<Rightarrow> to_be (if f AND push_bit 63 1 \<noteq> 0 then NOT f else f OR push_bit 63 1)
   | VDecimal m _ \<Rightarrow> to_be (m XOR push_bit 127 1)
   | VUuid b \<Rightarrow> b
   | VText s \<Rightarrow> encode_var s
   | VJson j \<Rightarrow> encode_var (js j)
   | VBytes b \<Rightarrow> encode_var b)"

definition encode_one :: "('j \<Rightarrow> bytes) \<Rightarrow> 'j val \<Rightarrow> bytes" where
  "encode_one js v = (case v of Null \<Rightarrow> [0] | _ \<Rightarrow> 1 # encode_body js v)"

definition encode_okey_into :: "('j \<Rightarrow> bytes) \<Rightarrow> 'j val list \<Rightarrow> bytes \<Rightarrow> bytes" where
  "encode_okey_into js vs buf = fold (\<lambda>v buf. buf @ encode_one js v) vs buf"

definition encode_okey :: "('j \<Rightarrow> bytes) \<Rightarrow> 'j val list \<Rightarrow> bytes" where
  "encode_okey js vs = fold (\<lambda>v buf. buf @ encode_one js v) vs []"

definition encode_okey_owned :: "('j \<Rightarrow> bytes) \<Rightarrow> 'j val list \<Rightarrow> bytes" where
  "encode_okey_owned js vs = fold (\<lambda>v buf. buf @ encode_one js v) vs []"

section \<open>Big-endian words sort as numbers\<close>

lemma append_less_iff:
  fixes a b :: "'a::linorder list"
  assumes "length a = length b"
  shows "a @ xs < b @ ys \<longleftrightarrow> a < b \<or> a = b \<and> xs < ys"
  using assms by (induction a b rule: list_induct2) auto

lemma base_less: "c < 256 \<Longrightarrow> d < 256 \<Longrightarrow> (a < b \<or> a = b \<and> c < d) \<longleftrightarrow> 256 * a + c < 256 * b + (d :: nat)"
  by (cases a b rule: linorder_cases) auto

lemma be_less:
  "m < 256 ^ n \<Longrightarrow> k < 256 ^ n \<Longrightarrow> rev (le_enc n m) < rev (le_enc n k) \<longleftrightarrow> m < k"
proof (induction n arbitrary: m k)
  case (Suc n)
  have d: "m div 256 < 256 ^ n" "k div 256 < 256 ^ n" using Suc.prems by (auto simp: less_mult_imp_div_less mult.commute)
  have low: "(of_nat (m mod 256) :: u8) < of_nat (k mod 256) \<longleftrightarrow> m mod 256 < k mod 256"
    by (simp add: word_less_nat_alt unat_of_nat)
  have inj: "rev (le_enc n (m div 256)) = rev (le_enc n (k div 256)) \<longleftrightarrow> m div 256 = k div 256"
    using le_dec_enc_mod [of n "m div 256"] le_dec_enc_mod [of n "k div 256"] d by (metis mod_less rev_is_rev_conv)
  have "rev (le_enc (Suc n) m) < rev (le_enc (Suc n) k) \<longleftrightarrow>
      m div 256 < k div 256 \<or> m div 256 = k div 256 \<and> m mod 256 < k mod 256"
    using Suc.IH [OF d] inj low by (simp add: append_less_iff)
  also have "\<dots> \<longleftrightarrow> m < k"
    using base_less [of "m mod 256" "k mod 256" "m div 256" "k div 256"] by simp
  finally show ?case .
qed simp

lemma xor_top:
  fixes w :: "'a::len word"
  shows "w XOR push_bit (LENGTH('a) - 1) 1 = w + 2 ^ (LENGTH('a) - 1)"
proof -
  let ?n = "LENGTH('a) - 1"
  have two: "(2::'a word) ^ ?n + 2 ^ ?n = 0"
  proof -
    have "(2::'a word) ^ ?n + 2 ^ ?n = 2 ^ Suc ?n" by (simp only: mult_2 power_Suc)
    also have "Suc ?n = LENGTH('a)" by simp
    finally show ?thesis by (simp only: word_exp_length_eq_0)
  qed
  have "w XOR push_bit ?n 1 = flip_bit ?n w" by (simp add: flip_bit_eq_xor)
  also have "\<dots> = w + 2 ^ ?n"
  proof (cases "bit w ?n")
    case True
    then have "flip_bit ?n w = w - 2 ^ ?n" by (simp add: flip_bit_eq_if unset_bit_eq)
    also have "\<dots> = w + 2 ^ ?n" using two by (simp add: diff_eq_eq add.assoc)
    finally show ?thesis .
  next
    case False
    then show ?thesis by (simp add: flip_bit_eq_if set_bit_eq)
  qed
  finally show ?thesis .
qed

lemma uint_flip_sign:
  fixes w :: "'a::len word"
  shows "uint (w XOR push_bit (LENGTH('a) - 1) 1) = sint w + 2 ^ (LENGTH('a) - 1)"
proof -
  have "uint (w + 2 ^ (LENGTH('a) - 1)) = take_bit LENGTH('a) (uint w + 2 ^ (LENGTH('a) - 1))"
  proof -
    have "w + 2 ^ (LENGTH('a) - 1) = word_of_int (uint w + 2 ^ (LENGTH('a) - 1))" by simp
    then show ?thesis by (simp only: uint_word_of_int_eq)
  qed
  also have "\<dots> = sint w + 2 ^ (LENGTH('a) - 1)"
    by (simp add: sint_uint signed_take_bit_eq_take_bit_shift)
  finally show ?thesis unfolding xor_top .
qed

lemma to_be_less:
  fixes a b :: "'a::len word"
  assumes "LENGTH('a) = 8 * n"
  shows "to_be a < to_be b \<longleftrightarrow> a < b" and "to_be a = to_be b \<longleftrightarrow> a = b"
proof -
  have p: "2 ^ LENGTH('a) = (256 :: nat) ^ n" by (simp add: assms power_mult)
  have u: "unat w < 256 ^ n" for w :: "'a word"
    unfolding p [symmetric] by (rule unsigned_less)
  show "to_be a < to_be b \<longleftrightarrow> a < b"
    using be_less [OF u u] by (simp add: to_be_def to_le_def assms word_less_nat_alt)
  show "to_be a = to_be b \<longleftrightarrow> a = b"
  proof
    assume "to_be a = to_be b"
    then have "le_enc n (unat a) = le_enc n (unat b)" by (simp add: to_be_def to_le_def assms)
    then have "unat a mod 256 ^ n = unat b mod 256 ^ n" by (metis le_dec_enc_mod)
    then show "a = b" using u by (simp add: word_unat_eq_iff)
  qed simp
qed

lemma to_be_append_less:
  fixes a b :: "'a::len word"
  assumes "LENGTH('a) = 8 * n"
  shows "to_be a @ xs < to_be b @ ys \<longleftrightarrow> a < b \<or> a = b \<and> xs < ys"
  by (simp add: append_less_iff length_to_be to_be_less [OF assms])

lemma signed_key:
  fixes a b :: "'a::len word"
  shows "a XOR push_bit (LENGTH('a) - 1) 1 < b XOR push_bit (LENGTH('a) - 1) 1 \<longleftrightarrow> sint a < sint b"
  unfolding word_less_alt uint_flip_sign by simp

lemma signed_append_less:
  fixes a b :: "'a::len word"
  assumes "LENGTH('a) = 8 * n" and "k = LENGTH('a) - 1"
  shows "to_be (a XOR push_bit k 1) @ xs < to_be (b XOR push_bit k 1) @ ys \<longleftrightarrow>
    scmp a b = Less \<or> scmp a b = Equal \<and> xs < ys"
proof -
  have "a XOR push_bit k 1 = b XOR push_bit k 1 \<longleftrightarrow> a = b"
    using uint_flip_sign [of a] uint_flip_sign [of b] by (auto simp: assms(2)) (metis add_right_cancel signed_word_eqI)
  moreover have "sint a = sint b \<longleftrightarrow> a = b" by (auto intro: signed_word_eqI)
  ultimately show ?thesis
    using signed_key [of a b] to_be_append_less [OF assms(1), of "a XOR push_bit k 1" xs "b XOR push_bit k 1" ys]
    by (auto simp: scmp_def cmp_def assms(2))
qed

section \<open>Strings and floats\<close>

lemma encode_var_less: "encode_var a @ xs < encode_var b @ ys \<longleftrightarrow> a < b \<or> a = b \<and> xs < ys"
proof (induction a arbitrary: b)
  case Nil
  show ?case
  proof (cases b)
    case (Cons d b')
    then show ?thesis by (auto simp: word_neq_0_conv)
  qed simp
next
  case (Cons c a)
  show ?case
  proof (cases b)
    case Nil
    then show ?thesis by (auto simp: not_less word_neq_0_conv)
  next
    case (Cons d b')
    then show ?thesis using Cons.IH [of b'] by (auto simp: word_neq_0_conv)
  qed
qed

definition f64_key :: "u64 \<Rightarrow> u64" where
  "f64_key f = (if f AND push_bit 63 1 \<noteq> 0 then NOT f else f OR push_bit 63 1)"

lemma top_bit: "f AND push_bit 63 1 \<noteq> 0 \<longleftrightarrow> bit (f :: u64) 63"
  unfolding push_bit_of_1 by (simp only: and_exp_eq_0_iff_not_bit not_not)

lemma unat_split: "unat (f :: u64) = (if bit f 63 then 2 ^ 63 else 0) + unat (take_bit 63 f)"
proof -
  have t: "unat (take_bit 63 f) = unat f mod 2 ^ 63"
    unfolding unsigned_take_bit_eq by (rule take_bit_eq_mod)
  have "unat f < 2 ^ LENGTH(64)" by (rule unsigned_less)
  then have "unat f div 2 ^ 63 < 2" by (simp add: div_less_iff_less_mult)
  moreover have "bit f 63 \<longleftrightarrow> odd (unat f div 2 ^ 63)"
  proof -
    have "bit f 63 \<longleftrightarrow> bit (unat f) 63" by (simp add: bit_unsigned_iff)
    then show ?thesis by (simp only: bit_iff_odd)
  qed
  ultimately have "unat f div 2 ^ 63 = (if bit f 63 then 1 else 0)" by (auto simp: less_2_cases_iff)
  then show ?thesis using t mult_div_mod_eq [of "2 ^ 63" "unat f"] by (simp split: if_splits)
qed

lemma mag_less: "unat (take_bit 63 (f :: u64)) < 2 ^ 63"
  unfolding unsigned_take_bit_eq by (rule take_bit_nat_less_exp)

lemma f64_key_rank:
  "int (unat (f64_key f)) = 2 ^ 63 + f64_rank f - (if bit f 63 then 1 else 0)"
proof (cases "bit f 63")
  case True
  have "NOT f = - 1 - f" by (simp add: not_eq_complement)
  moreover have "unat (- 1 - f) = unat (- 1 :: u64) - unat f" by (rule unat_sub) (rule word_order.extremum)
  moreover have "unat (- 1 :: u64) = 2 ^ 64 - 1" by (simp add: unsigned_minus_1_eq_mask mask_eq_exp_minus_1)
  ultimately have "unat (NOT f) = 2 ^ 64 - 1 - unat f" by simp
  moreover have "f64_key f = NOT f" unfolding f64_key_def top_bit using True by simp
  ultimately show ?thesis
    using unat_split [of f] mag_less [of f] unfolding f64_rank_def by (simp only: True if_True of_nat_diff) simp
next
  case False
  have "f OR push_bit 63 1 = f + 2 ^ 63"
    unfolding set_bit_eq_or [symmetric] set_bit_eq using False by simp
  moreover have "unat (f + 2 ^ 63) = unat f + 2 ^ 63"
    using False unat_split [of f] mag_less [of f] by (subst unat_word_ariths) simp
  moreover have "f64_key f = f OR push_bit 63 1" unfolding f64_key_def top_bit using False by simp
  ultimately show ?thesis
    using unat_split [of f] unfolding f64_rank_def by (simp only: False if_False of_nat_add) simp
qed

lemma f64_append_less:
  assumes "\<not> f64_is_nan a" "\<not> f64_is_nan b" and "f64_rank a = f64_rank b \<Longrightarrow> a = b"
  shows "to_be (f64_key a) @ xs < to_be (f64_key b) @ ys \<longleftrightarrow>
    unwrap_or (f64_partial_cmp a b) Equal = Less \<or> unwrap_or (f64_partial_cmp a b) Equal = Equal \<and> xs < ys"
proof -
  have len: "LENGTH(64) = 8 * 8" by simp
  have neg: "f64_rank c \<le> 0" if "bit c 63" for c using that by (simp add: f64_rank_def)
  have pos: "0 \<le> f64_rank c" if "\<not> bit c 63" for c using that by (simp add: f64_rank_def)
  have ne: "f64_rank a \<noteq> f64_rank b" if "bit a 63 \<noteq> bit b 63" using assms(3) that by auto
  have lt: "f64_key a < f64_key b \<longleftrightarrow> f64_rank a < f64_rank b"
  proof -
    have "f64_key a < f64_key b \<longleftrightarrow> int (unat (f64_key a)) < int (unat (f64_key b))"
      by (simp only: word_less_nat_alt of_nat_less_iff)
    also have "\<dots> \<longleftrightarrow> f64_rank a < f64_rank b"
      unfolding f64_key_rank using ne neg [of a] pos [of a] neg [of b] pos [of b]
      by (cases "bit a 63"; cases "bit b 63") auto
    finally show ?thesis .
  qed
  have eq: "f64_key a = f64_key b \<longleftrightarrow> f64_rank a = f64_rank b"
  proof
    assume "f64_key a = f64_key b"
    then have "int (unat (f64_key a)) = int (unat (f64_key b))" by simp
    then show "f64_rank a = f64_rank b"
      unfolding f64_key_rank using lt \<open>f64_key a = f64_key b\<close> neg [of a] pos [of a] neg [of b] pos [of b]
      by (cases "bit a 63"; cases "bit b 63") auto
  qed (use assms(3) in simp)
  show ?thesis
    unfolding to_be_append_less [OF len] lt eq using assms(1,2)
    by (auto simp: f64_partial_cmp_def unwrap_or_def cmp_def)
qed

section \<open>Encodings sort as values\<close>

text \<open>
  The pairs of values on which the key order is the value order: a null against anything, and two values of
  one type, except that floats must not be NaN nor the two zeros, that decimals must have one scale, and that
  JSON values, which \<open>cmp_fast\<close> does not order, are left out.
\<close>

definition okey_comparable :: "'j val \<Rightarrow> 'j val \<Rightarrow> bool" where
  "okey_comparable v w = (case v of
     Null \<Rightarrow> True
   | VBool _ \<Rightarrow> (case w of Null \<Rightarrow> True | VBool _ \<Rightarrow> True | _ \<Rightarrow> False)
   | VInt64 _ \<Rightarrow> (case w of Null \<Rightarrow> True | VInt64 _ \<Rightarrow> True | _ \<Rightarrow> False)
   | VTimestamp _ \<Rightarrow> (case w of Null \<Rightarrow> True | VTimestamp _ \<Rightarrow> True | _ \<Rightarrow> False)
   | VInterval _ \<Rightarrow> (case w of Null \<Rightarrow> True | VInterval _ \<Rightarrow> True | _ \<Rightarrow> False)
   | VDate _ \<Rightarrow> (case w of Null \<Rightarrow> True | VDate _ \<Rightarrow> True | _ \<Rightarrow> False)
   | VFloat64 a \<Rightarrow> (case w of Null \<Rightarrow> True
       | VFloat64 b \<Rightarrow> \<not> f64_is_nan a \<and> \<not> f64_is_nan b \<and> (f64_rank a = f64_rank b \<longrightarrow> a = b) | _ \<Rightarrow> False)
   | VDecimal _ s \<Rightarrow> (case w of Null \<Rightarrow> True | VDecimal _ t \<Rightarrow> s = t | _ \<Rightarrow> False)
   | VUuid a \<Rightarrow> (case w of Null \<Rightarrow> True | VUuid b \<Rightarrow> length a = 16 \<and> length b = 16 | _ \<Rightarrow> False)
   | VText _ \<Rightarrow> (case w of Null \<Rightarrow> True | VText _ \<Rightarrow> True | _ \<Rightarrow> False)
   | VJson _ \<Rightarrow> w = Null
   | VBytes _ \<Rightarrow> (case w of Null \<Rightarrow> True | VBytes _ \<Rightarrow> True | _ \<Rightarrow> False))"

lemma encode_one_simps [simp]:
  "encode_one js Null = [0]"
  "encode_one js (VBool b) = [1, if b then 1 else 0]"
  "encode_one js (VInt64 n) = 1 # to_be (n XOR push_bit 63 1)"
  "encode_one js (VTimestamp n) = 1 # to_be (n XOR push_bit 63 1)"
  "encode_one js (VInterval n) = 1 # to_be (n XOR push_bit 63 1)"
  "encode_one js (VDate d) = 1 # to_be (d XOR push_bit 31 1)"
  "encode_one js (VFloat64 f) = 1 # to_be (f64_key f)"
  "encode_one js (VDecimal m s) = 1 # to_be (m XOR push_bit 127 1)"
  "encode_one js (VUuid u) = 1 # u"
  "encode_one js (VText t) = 1 # encode_var t"
  "encode_one js (VJson j) = 1 # encode_var (js j)"
  "encode_one js (VBytes u) = 1 # encode_var u"
  by (simp_all add: encode_one_def encode_body_def f64_key_def)

lemma encode_one_cases: "v = Null \<or> (\<exists>bs. encode_one js v = 1 # bs)"
  by (cases v) simp_all

lemmas signed_less_bits =
  signed_append_less [where 'a = 64 and n = 8 and k = 63, simplified]
  signed_append_less [where 'a = 32 and n = 4 and k = 31, simplified]
  signed_append_less [where 'a = 128 and n = 16 and k = 127, simplified]

lemma encode_one_less:
  "okey_comparable v w \<Longrightarrow> encode_one js v @ xs < encode_one js w @ ys \<longleftrightarrow>
    cmp_fast v w = Less \<or> cmp_fast v w = Equal \<and> xs < ys"
proof (cases "v = Null \<or> w = Null")
  case True
  then show ?thesis
    using encode_one_cases [of v js] encode_one_cases [of w js]
    by (cases v; cases w) auto
next
  case False
  assume c: "okey_comparable v w"
  show ?thesis
    using False c
    by (cases v; cases w) (simp_all add: okey_comparable_def signed_less_bits encode_var_less f64_append_less
      append_less_iff decimal_align_def cmp_def)
qed

lemma cmp_fast_flip: "okey_comparable v w \<Longrightarrow> cmp_fast w v = flip (cmp_fast v w)"
  by (cases v; cases w) (simp_all add: okey_comparable_def cmp_def scmp_def f64_partial_cmp_def decimal_align_def
    unwrap_or_def, (meson less_asym)+)

lemma okey_comparable_sym: "okey_comparable v w \<Longrightarrow> okey_comparable w v"
  by (cases v; cases w) (auto simp: okey_comparable_def)

lemma encode_one_eq:
  assumes "okey_comparable v w" and "encode_one js v @ xs = encode_one js w @ ys"
  shows "cmp_fast v w = Equal \<and> xs = ys"
proof -
  have "cmp_fast w v = flip (cmp_fast v w)" by (rule cmp_fast_flip [OF assms(1)])
  then show ?thesis
    using encode_one_less [OF assms(1), of js xs ys] encode_one_less [OF okey_comparable_sym [OF assms(1)], of js ys xs] assms(2)
    by (cases "cmp_fast v w") auto
qed

section \<open>Rows of columns\<close>

text \<open>Rows compare column by column: the first column that differs decides.\<close>

fun cmp_row :: "'j val list \<Rightarrow> 'j val list \<Rightarrow> ordering" where
  "cmp_row (v # vs) (w # ws) = (case cmp_fast v w of Equal \<Rightarrow> cmp_row vs ws | c \<Rightarrow> c)"
| "cmp_row _ _ = Equal"

abbreviation rows_comparable :: "'j val list \<Rightarrow> 'j val list \<Rightarrow> bool" where
  "rows_comparable \<equiv> list_all2 okey_comparable"

lemma encode_fold: "fold (\<lambda>v buf. buf @ encode_one js v) vs buf = buf @ concat (map (encode_one js) vs)"
  by (induction vs arbitrary: buf) auto

lemma encode_okey_concat: "encode_okey js vs = concat (map (encode_one js) vs)"
  by (simp add: encode_okey_def encode_fold)

lemma encode_okey_Nil [simp]: "encode_okey js [] = []"
  and encode_okey_Cons [simp]: "encode_okey js (v # vs) = encode_one js v @ encode_okey js vs"
  by (simp_all add: encode_okey_concat)

lemma encode_okey_less:
  "rows_comparable vs ws \<Longrightarrow> encode_okey js vs @ xs < encode_okey js ws @ ys \<longleftrightarrow>
    cmp_row vs ws = Less \<or> cmp_row vs ws = Equal \<and> xs < ys"
proof (induction vs ws rule: list_all2_induct)
  case (Cons v vs w ws)
  then show ?case
    using encode_one_less [OF Cons(1), of js "encode_okey js vs @ xs" "encode_okey js ws @ ys"]
    by (cases "cmp_fast v w") simp_all
qed simp

lemma encode_okey_eq:
  "rows_comparable vs ws \<Longrightarrow> encode_okey js vs @ xs = encode_okey js ws @ ys \<Longrightarrow> cmp_row vs ws = Equal \<and> xs = ys"
proof (induction vs ws rule: list_all2_induct)
  case (Cons v vs w ws)
  then show ?case using encode_one_eq [OF Cons(1), of js "encode_okey js vs @ xs" "encode_okey js ws @ ys"] by simp
qed simp

text \<open>C11. For two rows with the same number of columns, in which each column is null in one of them or has one type in both, with
decimals of one scale, floats that are neither NaN nor zeros of different sign, and no JSON: the key of a row, with any suffix (the
primary key) after it, sorts as bytes exactly as the row sorts by its columns, and as the suffixes do when the columns are equal.\<close>

theorem okey_order_preserving:
  assumes "rows_comparable vs ws"
  shows "encode_okey js vs @ pk < encode_okey js ws @ pk' \<longleftrightarrow>
    cmp_row vs ws = Less \<or> cmp_row vs ws = Equal \<and> pk < pk'"
  using assms by (rule encode_okey_less)

theorem okey_order_preserving_witness:
  "rows_comparable [VInt64 (- 1), VText [97, 0]] ([VInt64 (- 1), VText [97, 0, 5]] :: bytes val list) \<and>
   encode_okey id [VInt64 (- 1), VText [97, 0]] @ [9] < encode_okey id [VInt64 (- 1), VText [97, 0, 5]] @ [1]"
proof -
  let ?a = "[VInt64 (- 1), VText [97, 0]] :: bytes val list" and ?b = "[VInt64 (- 1), VText [97, 0, 5]] :: bytes val list"
  have c: "rows_comparable ?a ?b" by (simp add: okey_comparable_def)
  moreover have "cmp_row ?a ?b = Less" by (simp add: scmp_def cmp_def)
  ultimately show ?thesis using okey_order_preserving [OF c, of id "[9]" "[1]"] by simp
qed

section \<open>Where the key order is not the value order\<close>

text \<open>
  The key of a decimal is its mantissa alone. A \<open>DECIMAL\<close> column stores every value with the scale it was written with, so on values of
  different scales the keys sort the other way (2.0 and 15), distinguish equal values (1.0 and 1) and identify different ones (1.5 and 0.15).
\<close>

lemma okey_ignores_scale:
  "cmp_fast (VDecimal 20 1) (VDecimal 15 0) = Less \<and> encode_okey js [VDecimal 15 0] < encode_okey js [VDecimal 20 1]"
  "cmp_fast (VDecimal 10 1) (VDecimal 1 0) = Equal \<and> encode_okey js [VDecimal 10 1] \<noteq> encode_okey js [VDecimal 1 0]"
  "cmp_fast (VDecimal 15 1) (VDecimal 15 2) \<noteq> Equal \<and> encode_okey js [VDecimal 15 1] = encode_okey js [VDecimal 15 2]"
proof -
  note keys = signed_append_less [where 'a = 128 and n = 16 and k = 127 and xs = "[]" and ys = "[]", simplified]
  show "cmp_fast (VDecimal 20 1) (VDecimal 15 0) = Less \<and> encode_okey js [VDecimal 15 0] < encode_okey js [VDecimal 20 1]"
    using keys [of 15 20] by (simp add: decimal_align_def i128_saturating_mul_def i128_min_def i128_max_def scmp_def cmp_def)
  have "to_be (1 XOR push_bit 127 1 :: 128 word) < to_be (10 XOR push_bit 127 1 :: 128 word)"
    using keys [of 1 10] by (simp add: scmp_def cmp_def)
  then show "cmp_fast (VDecimal 10 1) (VDecimal 1 0) = Equal \<and> encode_okey js [VDecimal 10 1] \<noteq> encode_okey js [VDecimal 1 0]"
    by (auto simp: decimal_align_def i128_saturating_mul_def i128_min_def i128_max_def scmp_def cmp_def)
  show "cmp_fast (VDecimal 15 1) (VDecimal 15 2) \<noteq> Equal \<and> encode_okey js [VDecimal 15 1] = encode_okey js [VDecimal 15 2]"
    by (simp add: decimal_align_def i128_saturating_mul_def i128_min_def i128_max_def scmp_def cmp_def)
qed

text \<open>The two zeros are equal as floats, and a NaN is equal to every float for \<open>cmp_fast\<close>; their keys are different.\<close>

lemma okey_zero_and_nan:
  "cmp_fast (VFloat64 0) (VFloat64 (push_bit 63 1)) = Equal \<and> encode_okey js [VFloat64 0] \<noteq> encode_okey js [VFloat64 (push_bit 63 1)]"
  "cmp_fast (VFloat64 0) (VFloat64 0x7FF8000000000000) = Equal \<and>
   encode_okey js [VFloat64 0] \<noteq> encode_okey js [VFloat64 0x7FF8000000000000]"
  by (simp_all add: f64_partial_cmp_def f64_is_nan_def f64_rank_def unwrap_or_def f64_key_def to_be_less(2) [where n = 8] cmp_def)

end
