(* ===== verification/Secondary.thy ===== *)
theory Secondary
  imports BTree OrderKey
begin

text \<open>
  Secondary indexes, \<open>bytedb-core/src/index/secondary.rs\<close>, and the iterator of \<open>index/iterator.rs\<close>. An entry of
  the index is the key of the indexed columns followed by the primary key; its value is the primary key. The
  operations are those of the B+tree, so, as there, \<open>None\<close> is a run that does not return.
\<close>

section \<open>The index\<close>

record sec_index =
  sec_name :: string
  sec_columns :: "nat list"
  sec_unique :: bool
  sec_tree :: btree

definition sec_new :: "string \<Rightarrow> nat list \<Rightarrow> bool \<Rightarrow> sec_index" where
  "sec_new nm cols uniq =
     \<lparr>sec_name = nm, sec_columns = cols, sec_unique = uniq, sec_tree = new_btree (nm @ ''_sec'') 128\<rparr>"

definition key_prefix :: "('j \<Rightarrow> bytes) \<Rightarrow> 'j val list \<Rightarrow> bytes" where
  "key_prefix js vals = encode_okey js vals"

definition composite :: "('j \<Rightarrow> bytes) \<Rightarrow> 'j val list \<Rightarrow> bytes \<Rightarrow> bytes" where
  "composite js vals pk = key_prefix js vals @ pk"

definition sec_insert :: "('j \<Rightarrow> bytes) \<Rightarrow> sec_index \<Rightarrow> 'j val list \<Rightarrow> bytes \<Rightarrow> (sec_index \<times> unit result) option" where
  "sec_insert js ix vals pk = do {
     existing \<leftarrow> (if sec_unique ix then prefix_scan (sec_tree ix) (key_prefix js vals) else Some []);
     if list_ex (\<lambda>(_, v). v \<noteq> pk) existing
     then Some (ix, Inl (Internal (''unique index '' @ sec_name ix @ '' violated'')))
     else do {
       (t, r) \<leftarrow> bt_insert (sec_tree ix) (composite js vals pk) pk;
       Some (ix\<lparr>sec_tree := t\<rparr>, r) } }"

definition sec_remove :: "('j \<Rightarrow> bytes) \<Rightarrow> sec_index \<Rightarrow> 'j val list \<Rightarrow> bytes \<Rightarrow> (sec_index \<times> unit result) option" where
  "sec_remove js ix vals pk = do {
     (t, _) \<leftarrow> bt_delete (sec_tree ix) (composite js vals pk);
     Some (ix\<lparr>sec_tree := t\<rparr>, Inr ()) }"

definition lookup_eq :: "('j \<Rightarrow> bytes) \<Rightarrow> sec_index \<Rightarrow> 'j val list \<Rightarrow> bytes list option" where
  "lookup_eq js ix vals = map_option (map snd) (prefix_scan (sec_tree ix) (key_prefix js vals))"

text \<open>The loop pops trailing \<open>0xFF\<close> bytes and increments the byte before them.\<close>

fun prefix_successor_rev :: "bytes \<Rightarrow> bytes option" where
  "prefix_successor_rev [] = None"
| "prefix_successor_rev (x # xs) = (if x = 255 then prefix_successor_rev xs else Some (rev ((x + 1) # xs)))"

definition prefix_successor :: "bytes \<Rightarrow> bytes option" where
  "prefix_successor p = prefix_successor_rev (rev p)"

definition lookup_range :: "('j \<Rightarrow> bytes) \<Rightarrow> sec_index \<Rightarrow> 'j val option \<Rightarrow> 'j val option \<Rightarrow> bytes list option" where
  "lookup_range js ix lo hi =
     (let start = (case lo of Some v \<Rightarrow> encode_okey js [v] | None \<Rightarrow> []);
          stop = (case hi of Some v \<Rightarrow> unwrap_or (prefix_successor (encode_okey js [v])) [255] | None \<Rightarrow> [255])
      in map_option (map snd) (range_scan (sec_tree ix) start stop))"

definition sec_len :: "sec_index \<Rightarrow> u64" where
  "sec_len ix = approx_len (sec_tree ix)"

definition sec_is_empty :: "sec_index \<Rightarrow> bool" where
  "sec_is_empty ix = (sec_len ix = 0)"

section \<open>The iterator\<close>

record btree_iterator =
  items :: "(bytes \<times> bytes) list"
  position :: nat

definition iter_new :: "btree \<Rightarrow> bytes option \<Rightarrow> bytes option \<Rightarrow> btree_iterator option" where
  "iter_new t start stop = do {
     its \<leftarrow> (case (start, stop) of (Some s, Some e) \<Rightarrow> range_scan t s e | _ \<Rightarrow> scan_all t);
     Some \<lparr>items = its, position = 0\<rparr> }"

definition iter_has_next :: "btree_iterator \<Rightarrow> bool" where
  "iter_has_next it = (position it < length (items it))"

definition iter_next :: "btree_iterator \<Rightarrow> btree_iterator \<times> (bytes \<times> bytes) option" where
  "iter_next it = (if position it < length (items it)
     then (it\<lparr>position := position it + 1\<rparr>, Some (items it ! position it))
     else (it, None))"

text \<open>A \<open>for\<close> loop over the iterator: \<open>next\<close> until it returns \<open>None\<close>.\<close>

function iter_collect :: "btree_iterator \<Rightarrow> (bytes \<times> bytes) list" where
  "iter_collect it = (case iter_next it of (it', Some x) \<Rightarrow> x # iter_collect it' | (_, None) \<Rightarrow> [])"
  by pat_completeness auto
termination
  by (relation "measure (\<lambda>it. length (items it) - position it)") (auto simp: iter_next_def split: if_splits)

declare iter_collect.simps [simp del]

section \<open>What the index holds\<close>

text \<open>
  The index holds the set \<open>R\<close> of pairs of indexed columns and primary key; the columns of all its rows, and of
  the row at hand, are comparable.
\<close>

definition sec_holds :: "('j \<Rightarrow> bytes) \<Rightarrow> sec_index \<Rightarrow> ('j val list \<times> bytes) set \<Rightarrow> bool" where
  "sec_holds js ix R \<longleftrightarrow> bt_inv (sec_tree ix) \<and>
     set (bt_entries (sec_tree ix)) = (\<lambda>(vs, pk). (encode_okey js vs @ pk, pk)) ` R"

definition same_pks :: "('j val list \<times> bytes) set \<Rightarrow> 'j val list \<Rightarrow> bytes set" where
  "same_pks R vs = {pk. \<exists>ws. (ws, pk) \<in> R \<and> cmp_row ws vs = Equal}"

abbreviation fits_index :: "('j val list \<times> bytes) set \<Rightarrow> 'j val list \<Rightarrow> bool" where
  "fits_index R vs \<equiv> \<forall>(ws, _) \<in> R. rows_comparable ws vs"

lemma starts_with_append: "starts_with k p \<longleftrightarrow> (\<exists>s. k = p @ s)"
proof
  assume "starts_with k p"
  then show "\<exists>s. k = p @ s" using append_take_drop_id [of "length p" k] unfolding starts_with_def by metis
qed (auto simp: starts_with_def)

lemma encode_okey_Equal:
  assumes "rows_comparable vs ws" and "cmp_row vs ws = Equal"
  shows "encode_okey js vs = encode_okey js ws"
proof -
  have "cmp_row ws vs = Equal" using assms
    by (induction vs ws rule: list_all2_induct) (auto simp: cmp_fast_flip split: ordering.splits)
  moreover have "rows_comparable ws vs"
    using assms(1) by (auto simp: list_all2_conv_all_nth okey_comparable_sym)
  ultimately show ?thesis
    using encode_okey_less [OF assms(1), of js "[]" "[]"] encode_okey_less [of ws vs js "[]" "[]"] assms(2) by auto
qed

lemma starts_with_okey:
  assumes "rows_comparable ws vs"
  shows "starts_with (encode_okey js ws @ pk) (encode_okey js vs) \<longleftrightarrow> cmp_row ws vs = Equal"
proof
  assume "starts_with (encode_okey js ws @ pk) (encode_okey js vs)"
  then show "cmp_row ws vs = Equal" unfolding starts_with_append using encode_okey_eq [OF assms] by blast
next
  assume "cmp_row ws vs = Equal"
  then show "starts_with (encode_okey js ws @ pk) (encode_okey js vs)"
    by (simp add: encode_okey_Equal [OF assms] starts_with_def)
qed

lemma composite_eq:
  assumes "rows_comparable ws vs"
  shows "encode_okey js ws @ pk = encode_okey js vs @ pk' \<longleftrightarrow> cmp_row ws vs = Equal \<and> pk = pk'"
proof
  assume "cmp_row ws vs = Equal \<and> pk = pk'"
  then show "encode_okey js ws @ pk = encode_okey js vs @ pk'" using encode_okey_Equal [OF assms, of js] by simp
qed (rule encode_okey_eq [OF assms])

lemma sec_prefix_scan:
  assumes "sec_holds js ix R" and "fits_index R vs"
  obtains es where "prefix_scan (sec_tree ix) (encode_okey js vs) = Some es"
    and "map snd es = sorted_list_of_set (same_pks R vs)" and "finite (same_pks R vs)"
    and "set (map snd es) = same_pks R vs"
proof -
  let ?p = "encode_okey js vs"
  let ?es = "filter (\<lambda>e. starts_with (fst e) ?p) (bt_entries (sec_tree ix))"
  have inv: "bt_inv (sec_tree ix)" and set_es: "set (bt_entries (sec_tree ix)) = (\<lambda>(vs, pk). (encode_okey js vs @ pk, pk)) ` R"
    using assms(1) by (auto simp: sec_holds_def)
  have e: "fst e = ?p @ snd e \<and> (\<exists>ws. (ws, snd e) \<in> R \<and> cmp_row ws vs = Equal)" if "e \<in> set ?es" for e
    using that assms(2) encode_okey_Equal starts_with_okey unfolding filter_set [symmetric] set_es by fastforce
  have "set (map snd ?es) = same_pks R vs" (is "?l = _")
  proof
    show "?l \<subseteq> same_pks R vs" using e by (auto simp: same_pks_def)
    show "same_pks R vs \<subseteq> ?l"
    proof
      fix pk assume "pk \<in> same_pks R vs"
      then obtain ws where "(ws, pk) \<in> R" "cmp_row ws vs = Equal" by (auto simp: same_pks_def)
      then have "(encode_okey js ws @ pk, pk) \<in> set ?es"
        using assms(2) starts_with_okey [of ws vs] unfolding filter_set [symmetric] set_es by fastforce
      then show "pk \<in> ?l" by force
    qed
  qed
  moreover have "sorted_wrt (<) (map snd ?es)"
  proof -
    have "ksorted ?es" using bt.contents_sorted [OF inv] by (simp add: sorted_wrt_map sorted_wrt_filter)
    then have "sorted_wrt (\<lambda>a b. fst a < fst b) ?es" by (simp add: sorted_wrt_map)
    have lt: "snd a < snd b" if "a \<in> set ?es" "b \<in> set ?es" "fst a < fst b" for a b
      using e [OF that(1)] e [OF that(2)] that(3) append_less_iff [of ?p ?p] by simp
    with \<open>sorted_wrt (\<lambda>a b. fst a < fst b) ?es\<close> have "sorted_wrt (\<lambda>a b. snd a < snd b) ?es"
      using sorted_wrt_mono_rel [of ?es "\<lambda>a b. fst a < fst b" "\<lambda>a b. snd a < snd b"] by blast
    then show ?thesis by (simp add: sorted_wrt_map)
  qed
  moreover from this have "distinct (map snd ?es)" by (rule sorted_wrt_less_distinct)
  ultimately have "map snd ?es = sorted_list_of_set (same_pks R vs)"
    using sorted_list_of_set.idem_if_sorted_distinct [of "map snd ?es"] by (simp only: strict_sorted_iff)
  moreover have "finite (same_pks R vs)" unfolding \<open>set (map snd ?es) = same_pks R vs\<close> [symmetric] by simp
  ultimately show thesis
    using that bt.prefixed_law [OF inv, of ?p] \<open>set (map snd ?es) = same_pks R vs\<close> by blast
qed


section \<open>The operations on the set of rows\<close>

lemma list_ex_other: "list_ex (\<lambda>(_, v). v \<noteq> pk) xs \<longleftrightarrow> \<not> set (map snd xs) \<subseteq> {pk}"
  by (induction xs) auto

lemma sec_insert_ok:
  assumes "sec_holds js ix R" and "fits_index R vs" and "sec_unique ix \<Longrightarrow> same_pks R vs \<subseteq> {pk}"
  shows "\<exists>t. sec_insert js ix vs pk = Some (ix\<lparr>sec_tree := t\<rparr>, Inr ()) \<and>
    sec_holds js (ix\<lparr>sec_tree := t\<rparr>) (insert (vs, pk) R)"
proof -
  let ?k = "encode_okey js vs @ pk"
  have inv: "bt_inv (sec_tree ix)" and es: "set (bt_entries (sec_tree ix)) = (\<lambda>(vs, pk). (encode_okey js vs @ pk, pk)) ` R"
    using assms(1) by (auto simp: sec_holds_def)
  obtain t where t: "bt_insert (sec_tree ix) ?k pk = Some (t, Inr ())" using bt.ins_law [OF inv] by blast
  have same: "snd e = pk" if e: "e \<in> set (bt_entries (sec_tree ix))" "fst e = ?k" for e
  proof -
    obtain ws qk where "(ws, qk) \<in> R" "e = (encode_okey js ws @ qk, qk)" using e(1) unfolding es by auto
    then show ?thesis using assms(2) e(2) composite_eq [of ws vs js qk pk] by auto
  qed
  have "set (bt_entries t) = (\<lambda>(vs, pk). (encode_okey js vs @ pk, pk)) ` insert (vs, pk) R"
    unfolding bt.ins_set(3) [OF inv t] image_insert es [symmetric] case_prod_conv using same
    by (intro set_eqI) (metis (mono_tags, lifting) insert_iff mem_Collect_eq prod.collapse)
  moreover have "bt_inv t" by (rule bt.ins_set(1) [OF inv t])
  moreover obtain xs where xs: "prefix_scan (sec_tree ix) (encode_okey js vs) = Some xs" "set (map snd xs) = same_pks R vs"
    by (rule sec_prefix_scan [OF assms(1,2)])
  moreover have "\<not> list_ex (\<lambda>(_, v). v \<noteq> pk) xs" if "sec_unique ix"
    unfolding list_ex_other xs(2) using assms(3) [OF that] by simp
  ultimately show ?thesis
    by (intro exI [of _ t] conjI)
      (simp_all add: t sec_insert_def key_prefix_def composite_def sec_holds_def)
qed

lemma sec_insert_violation:
  assumes "sec_holds js ix R" and "fits_index R vs" and "sec_unique ix" and "\<not> same_pks R vs \<subseteq> {pk}"
  shows "sec_insert js ix vs pk = Some (ix, Inl (Internal (''unique index '' @ sec_name ix @ '' violated'')))"
proof -
  obtain xs where xs: "prefix_scan (sec_tree ix) (encode_okey js vs) = Some xs" "set (map snd xs) = same_pks R vs"
    by (rule sec_prefix_scan [OF assms(1,2)])
  then have "list_ex (\<lambda>(_, v). v \<noteq> pk) xs" using assms(4) by (simp only: list_ex_other xs(2) not_False_eq_True)
  then show ?thesis using assms(3) xs(1) by (simp add: sec_insert_def key_prefix_def)
qed

lemma sec_remove_ok:
  assumes "sec_holds js ix R" and "fits_index R vs"
  shows "\<exists>t. sec_remove js ix vs pk = Some (ix\<lparr>sec_tree := t\<rparr>, Inr ()) \<and>
    sec_holds js (ix\<lparr>sec_tree := t\<rparr>) {(ws, qk) \<in> R. \<not> (cmp_row ws vs = Equal \<and> qk = pk)}"
proof -
  let ?k = "encode_okey js vs @ pk"
  have inv: "bt_inv (sec_tree ix)" and es: "set (bt_entries (sec_tree ix)) = (\<lambda>(vs, pk). (encode_okey js vs @ pk, pk)) ` R"
    using assms(1) by (auto simp: sec_holds_def)
  obtain t b where t: "bt_delete (sec_tree ix) ?k = Some (t, b)" using bt.del_law [OF inv] by blast
  have eq: "encode_okey js ws @ qk = ?k \<longleftrightarrow> cmp_row ws vs = Equal \<and> qk = pk" if "(ws, qk) \<in> R" for ws qk
    by (rule composite_eq) (use assms(2) that in auto)
  have "{r \<in> R. fst ((\<lambda>(vs, pk). (encode_okey js vs @ pk, pk)) r) \<noteq> ?k} = {(ws, qk) \<in> R. \<not> (cmp_row ws vs = Equal \<and> qk = pk)}"
    (is "?A = ?B")
  proof (rule set_eqI)
    fix r
    show "r \<in> ?A \<longleftrightarrow> r \<in> ?B" using eq [of "fst r" "snd r"] by (cases r) (simp only: mem_Collect_eq fst_conv snd_conv case_prod_conv, blast)
  qed
  then have "set (bt_entries t) = (\<lambda>(vs, pk). (encode_okey js vs @ pk, pk)) ` {(ws, qk) \<in> R. \<not> (cmp_row ws vs = Equal \<and> qk = pk)}"
    unfolding bt.del_set(3) [OF inv t] es Compr_image_eq by (simp only:)
  then show ?thesis
    using bt.del_set(1) [OF inv t] by (intro exI [of _ t] conjI)
      (simp_all add: t sec_remove_def key_prefix_def composite_def sec_holds_def)
qed

lemma lookup_eq_ok:
  assumes "sec_holds js ix R" and "fits_index R vs"
  shows "lookup_eq js ix vs = Some (sorted_list_of_set (same_pks R vs)) \<and> finite (same_pks R vs)"
  by (rule sec_prefix_scan [OF assms]) (simp add: lookup_eq_def key_prefix_def)

section \<open>Ranges\<close>

lemma prefix_successor_Cons:
  "prefix_successor (x # xs) = (case prefix_successor xs of Some ys \<Rightarrow> Some (x # ys)
     | None \<Rightarrow> if x = 255 then None else Some [x + 1])"
proof -
  have "prefix_successor_rev (ys @ [x]) = (case prefix_successor_rev ys of Some zs \<Rightarrow> Some (x # zs)
     | None \<Rightarrow> if x = 255 then None else Some [x + 1])" for ys
    by (induction ys) auto
  then show ?thesis by (simp add: prefix_successor_def)
qed

lemma byte_le_255: "y \<le> (255 :: u8)"
proof -
  have "unat y < 2 ^ LENGTH(8)" by (rule unsigned_less)
  then show ?thesis by (simp add: word_le_nat_alt)
qed

lemma less_Suc_byte:
  assumes "x \<noteq> (255 :: u8)"
  shows "y < x + 1 \<longleftrightarrow> y \<le> x"
proof -
  have "unat x < 2 ^ LENGTH(8)" by (rule unsigned_less)
  moreover have "unat x \<noteq> 255" using assms by (auto simp: word_unat_eq_iff)
  ultimately show ?thesis by (simp add: word_less_nat_alt word_le_nat_alt unat_word_ariths less_Suc_eq_le)
qed

lemma starts_with_Cons [simp]: "starts_with (y # k) (x # p) \<longleftrightarrow> y = x \<and> starts_with k p"
  by (auto simp: starts_with_def)

lemma prefix_successor_less:
  "(\<forall>q. prefix_successor p = Some q \<longrightarrow> k < q \<longleftrightarrow> k < p \<or> starts_with k p) \<and>
   (prefix_successor p = None \<longrightarrow> k < p \<or> starts_with k p)"
proof (induction p arbitrary: k)
  case Nil
  then show ?case by (simp add: prefix_successor_def starts_with_def)
next
  case (Cons x p)
  show ?case
  proof (cases k)
    case Nil
    then show ?thesis by (auto simp: prefix_successor_Cons split: option.splits)
  next
    case k: (Cons y k')
    show ?thesis
    proof (cases "prefix_successor p")
      case None
      then have "k' < p \<or> starts_with k' p" using Cons.IH [of k'] by blast
      then show ?thesis
        using None k byte_le_255 [of y] less_Suc_byte [of x y] by (simp add: prefix_successor_Cons) (meson le_less)
    next
      case (Some q)
      then have "k' < q \<longleftrightarrow> k' < p \<or> starts_with k' p" using Cons.IH [of k'] by blast
      then show ?thesis using Some k by (simp add: prefix_successor_Cons) blast
    qed
  qed
qed

text \<open>The rows of \<open>R\<close> whose first column is in the range.\<close>

definition in_range :: "'j val option \<Rightarrow> 'j val option \<Rightarrow> 'j val list \<Rightarrow> bool" where
  "in_range lo hi ws \<longleftrightarrow> (case lo of Some l \<Rightarrow> cmp_fast (hd ws) l \<noteq> Less | None \<Rightarrow> True) \<and>
     (case hi of Some h \<Rightarrow> cmp_fast (hd ws) h \<noteq> Greater | None \<Rightarrow> True)"

abbreviation bound_ok :: "'j val option \<Rightarrow> 'j val list \<Rightarrow> bool" where
  "bound_ok b ws \<equiv> \<forall>v. b = Some v \<longrightarrow> okey_comparable (hd ws) v"

lemma encode_one_byte: "\<exists>b bs. encode_one js v = b # bs \<and> b \<noteq> 255"
  by (cases v) auto

lemma encode_one_successor: "\<exists>q. prefix_successor (encode_one js v) = Some q"
proof -
  obtain b bs where "encode_one js v = b # bs" "b \<noteq> 255" using encode_one_byte [of js v] by blast
  then show ?thesis by (simp add: prefix_successor_Cons split: option.splits)
qed

lemma encode_one_starts:
  assumes "okey_comparable w v"
  shows "encode_one js w @ rest < encode_one js v \<or> starts_with (encode_one js w @ rest) (encode_one js v) \<longleftrightarrow> cmp_fast w v \<noteq> Greater"
  using encode_one_less [OF assms, of js rest "[]"] starts_with_okey [of "[w]" "[v]" js rest] assms
  by (cases "cmp_fast w v") simp_all

lemma upper_bound:
  assumes "okey_comparable w v" and "prefix_successor (encode_one js v) = Some q" and "rest \<noteq> []"
  shows "encode_one js w @ rest \<le> q \<longleftrightarrow> cmp_fast w v \<noteq> Greater"
proof -
  have less: "k < q \<longleftrightarrow> k < encode_one js v \<or> starts_with k (encode_one js v)" for k
    using prefix_successor_less [of "encode_one js v" k] assms(2) by blast
  have "encode_one js w < encode_one js w @ rest" using assms(3) append_less_iff [of "encode_one js w" "encode_one js w" "[]" rest] by (cases rest) auto
  then have "encode_one js w @ rest \<le> q \<Longrightarrow> encode_one js w @ [] < q" by simp
  then show ?thesis
    using less [of "encode_one js w @ rest"] less [of "encode_one js w @ []"]
      encode_one_starts [OF assms(1), of js rest] encode_one_starts [OF assms(1), of js "[]"] by fastforce
qed

lemma lower_bound:
  assumes "okey_comparable w v"
  shows "encode_one js v \<le> encode_one js w @ rest \<longleftrightarrow> cmp_fast w v \<noteq> Less"
  using encode_one_less [OF assms, of js rest "[]"] by (cases "cmp_fast w v") (auto simp: not_less [symmetric])

lemma lookup_range_ok:
  assumes "sec_holds js ix R" and rows: "\<forall>(ws, pk) \<in> R. ws \<noteq> [] \<and> pk \<noteq> [] \<and> bound_ok lo ws \<and> bound_ok hi ws"
  shows "\<exists>pks. lookup_range js ix lo hi = Some pks \<and> set pks = {pk. \<exists>ws. (ws, pk) \<in> R \<and> in_range lo hi ws}"
proof -
  let ?lo = "case lo of Some v \<Rightarrow> encode_okey js [v] | None \<Rightarrow> []"
  let ?hi = "case hi of Some v \<Rightarrow> unwrap_or (prefix_successor (encode_okey js [v])) [255] | None \<Rightarrow> [255]"
  have inv: "bt_inv (sec_tree ix)" and es: "set (bt_entries (sec_tree ix)) = (\<lambda>(vs, pk). (encode_okey js vs @ pk, pk)) ` R"
    using assms(1) by (auto simp: sec_holds_def)
  have key: "?lo \<le> encode_okey js ws @ pk \<and> encode_okey js ws @ pk \<le> ?hi \<longleftrightarrow> in_range lo hi ws" if r: "(ws, pk) \<in> R" for ws pk
  proof -
    obtain w ws' where ws: "ws = w # ws'" and pk: "encode_okey js ws' @ pk \<noteq> []" using rows r by (cases ws) auto
    have b: "bound_ok lo ws" "bound_ok hi ws" using rows r by auto
    have "?lo \<le> encode_okey js ws @ pk \<longleftrightarrow> (case lo of Some l \<Rightarrow> cmp_fast w l \<noteq> Less | None \<Rightarrow> True)"
      using b(1) lower_bound [of w _ js "encode_okey js ws' @ pk"] by (simp add: ws split: option.split)
    moreover have "encode_okey js ws @ pk \<le> ?hi \<longleftrightarrow> (case hi of Some h \<Rightarrow> cmp_fast w h \<noteq> Greater | None \<Rightarrow> True)"
    proof (cases hi)
      case None
      obtain c cs where "encode_one js w = c # cs" "c \<noteq> 255" using encode_one_byte [of js w] by blast
      then show ?thesis using None ws byte_le_255 [of c] by simp
    next
      case (Some h)
      obtain q where q: "prefix_successor (encode_one js h) = Some q" using encode_one_successor by blast
      show ?thesis using b(2) Some q ws upper_bound [OF _ q pk, of w] by (simp add: unwrap_or_def)
    qed
    ultimately show ?thesis by (simp only: in_range_def ws list.sel)
  qed
  let ?es = "filter (\<lambda>e. ?lo \<le> fst e \<and> fst e \<le> ?hi) (bt_entries (sec_tree ix))"
  have "set (map snd ?es) = {pk. \<exists>ws. (ws, pk) \<in> R \<and> in_range lo hi ws}"
    using key unfolding set_map set_filter es Compr_image_eq image_image by force
  then show ?thesis using bt.ranged_law [OF inv, of ?lo ?hi] by (simp add: lookup_range_def)
qed

section \<open>Properties\<close>

text \<open>A history of operations on the index, and on the set of rows that it stands for.\<close>

datatype 'j sec_op = SInsert "'j val list" bytes | SRemove "'j val list" bytes

fun op_row :: "'j sec_op \<Rightarrow> 'j val list" where
  "op_row (SInsert vs _) = vs"
| "op_row (SRemove vs _) = vs"

fun sec_step :: "('j \<Rightarrow> bytes) \<Rightarrow> 'j sec_op \<Rightarrow> sec_index \<Rightarrow> (sec_index \<times> unit result) option" where
  "sec_step js (SInsert vs pk) ix = sec_insert js ix vs pk"
| "sec_step js (SRemove vs pk) ix = sec_remove js ix vs pk"

fun sec_run :: "('j \<Rightarrow> bytes) \<Rightarrow> 'j sec_op list \<Rightarrow> sec_index \<Rightarrow> sec_index option" where
  "sec_run js [] ix = Some ix"
| "sec_run js (x # xs) ix = do { (ix', _) \<leftarrow> sec_step js x ix; sec_run js xs ix' }"

fun row_step :: "bool \<Rightarrow> 'j sec_op \<Rightarrow> ('j val list \<times> bytes) set \<Rightarrow> ('j val list \<times> bytes) set" where
  "row_step uniq (SInsert vs pk) R = (if uniq \<and> \<not> same_pks R vs \<subseteq> {pk} then R else insert (vs, pk) R)"
| "row_step uniq (SRemove vs pk) R = {(ws, qk) \<in> R. \<not> (cmp_row ws vs = Equal \<and> qk = pk)}"

definition row_run :: "bool \<Rightarrow> 'j sec_op list \<Rightarrow> ('j val list \<times> bytes) set" where
  "row_run uniq xs = fold (row_step uniq) xs {}"

abbreviation all_comparable :: "'j val list set \<Rightarrow> bool" where
  "all_comparable U \<equiv> \<forall>vs \<in> U. \<forall>ws \<in> U. rows_comparable vs ws"

lemma sec_step_ok:
  assumes "sec_holds js ix R" and "fits_index R (op_row x)"
  shows "\<exists>ix' r. sec_step js x ix = Some (ix', r) \<and> sec_holds js ix' (row_step (sec_unique ix) x R) \<and>
    sec_unique ix' = sec_unique ix"
proof (cases x)
  case (SInsert vs pk)
  show ?thesis
  proof (cases "sec_unique ix \<and> \<not> same_pks R vs \<subseteq> {pk}")
    case True
    then show ?thesis using sec_insert_violation [OF assms(1), of vs pk] assms SInsert by simp
  next
    case False
    then show ?thesis using sec_insert_ok [OF assms(1), of vs pk] assms(2) SInsert by fastforce
  qed
next
  case (SRemove vs pk)
  then show ?thesis using sec_remove_ok [OF assms(1), of vs pk] assms(2) by fastforce
qed

lemma row_step_rows: "fst ` row_step uniq x R \<subseteq> insert (op_row x) (fst ` R)"
  by (cases x) auto

lemma fits_index_of: "all_comparable U \<Longrightarrow> fst ` R \<subseteq> U \<Longrightarrow> vs \<in> U \<Longrightarrow> fits_index R vs"
  by (auto simp: image_subset_iff)

lemma sec_run_ok:
  assumes "sec_holds js ix R" and "all_comparable (fst ` R \<union> op_row ` set xs)"
  shows "\<exists>ix'. sec_run js xs ix = Some ix' \<and> sec_holds js ix' (fold (row_step (sec_unique ix)) xs R)"
  using assms
proof (induction xs arbitrary: ix R)
  case (Cons x xs)
  have "fits_index R (op_row x)" by (rule fits_index_of [OF Cons.prems(2)]) auto
  then obtain ix' r where s: "sec_step js x ix = Some (ix', r)" "sec_holds js ix' (row_step (sec_unique ix) x R)"
      "sec_unique ix' = sec_unique ix"
    using sec_step_ok [OF Cons.prems(1)] by blast
  have "fst ` row_step (sec_unique ix) x R \<union> op_row ` set xs \<subseteq> fst ` R \<union> op_row ` set (x # xs)"
    using row_step_rows [of "sec_unique ix" x R] by auto
  then have "all_comparable (fst ` row_step (sec_unique ix) x R \<union> op_row ` set xs)"
    using Cons.prems(2) by (meson subsetD)
  then show ?case using Cons.IH [OF s(2)] s by simp
qed simp

lemma sec_new_holds: "sec_holds js (sec_new nm cols uniq) {}"
  by (simp add: sec_holds_def sec_new_def new_btree_inv new_btree_entries)

lemma row_run_rows: "fst ` fold (row_step uniq) xs R \<subseteq> fst ` R \<union> op_row ` set xs"
proof (induction xs arbitrary: R)
  case (Cons x xs)
  have "fst ` fold (row_step uniq) xs (row_step uniq x R) \<subseteq> insert (op_row x) (fst ` R) \<union> op_row ` set xs"
    using Cons.IH [of "row_step uniq x R"] row_step_rows [of uniq x R] by (rule order_trans [OF _ Un_mono [OF _ order_refl]])
  then show ?case by simp
qed simp

lemma cmp_row_encode: "rows_comparable ws vs \<Longrightarrow> cmp_row ws vs = Equal \<longleftrightarrow> encode_okey js ws = encode_okey js vs"
  using composite_eq [of ws vs js "[]" "[]"] by simp

lemma row_step_unique:
  assumes "fits_index R (op_row x)"
    and "\<forall>(ws, pk) \<in> R. \<forall>(us, qk) \<in> R. encode_okey js ws = encode_okey js us \<longrightarrow> pk = qk"
  shows "\<forall>(ws, pk) \<in> row_step True x R. \<forall>(us, qk) \<in> row_step True x R. encode_okey js ws = encode_okey js us \<longrightarrow> pk = qk"
proof (cases x)
  case (SInsert vs pk)
  have eq: "qk = pk" if "same_pks R vs \<subseteq> {pk}" "(ws, qk) \<in> R" "encode_okey js ws = encode_okey js vs" for ws qk
  proof -
    have "rows_comparable ws vs" using assms(1) that(2) SInsert by auto
    then have "qk \<in> same_pks R vs" using that(2,3) by (auto simp: same_pks_def cmp_row_encode [of ws vs js])
    then show ?thesis using that(1) by blast
  qed
  show ?thesis
  proof (cases "same_pks R vs \<subseteq> {pk}")
    case True
    show ?thesis using eq [OF True] SInsert True assms(2) by (auto 0 4)
  qed (use SInsert assms(2) in simp)
next
  case (SRemove vs pk)
  then show ?thesis using assms(2) by auto
qed

lemma row_run_unique:
  assumes "all_comparable (op_row ` set xs)"
  shows "\<forall>(ws, pk) \<in> row_run True xs. \<forall>(us, qk) \<in> row_run True xs. encode_okey js ws = encode_okey js us \<longrightarrow> pk = qk"
  using assms
proof (induction xs rule: rev_induct)
  case (snoc x xs)
  have "fits_index (row_run True xs) (op_row x)"
    by (rule fits_index_of [OF snoc.prems]) (use row_run_rows [of True xs "{}"] in \<open>auto simp: row_run_def\<close>)
  then show ?case using row_step_unique [of "row_run True xs" x js] snoc by (simp add: row_run_def)
qed (simp add: row_run_def)

text \<open>C12. Let the rows of a history and the row that is looked up be pairwise comparable: the same number of columns, each null or of one
type, decimals of one scale, no NaN, no zeros of different sign, no JSON. After the history of insertions and removals on a fresh secondary index, \<open>lookup_eq\<close> returns, sorted and without repetition, exactly the primary keys of the rows
equal to the given one that the history inserted and did not remove; an insertion that the unique constraint
refuses leaves no trace.\<close>

theorem secondary_history:
  assumes "all_comparable (insert vs (op_row ` set xs))"
  shows "\<exists>ix. sec_run js xs (sec_new nm cols uniq) = Some ix \<and>
    lookup_eq js ix vs = Some (sorted_list_of_set (same_pks (row_run uniq xs) vs))"
proof -
  obtain ix where ix: "sec_run js xs (sec_new nm cols uniq) = Some ix" "sec_holds js ix (row_run uniq xs)"
    using sec_run_ok [OF sec_new_holds, of xs js nm cols uniq] assms
    by (auto simp: row_run_def sec_new_def)
  moreover have "fits_index (row_run uniq xs) vs"
    by (rule fits_index_of [OF assms]) (use row_run_rows [of uniq xs "{}"] in \<open>auto simp: row_run_def\<close>)
  ultimately show ?thesis using lookup_eq_ok by blast
qed

theorem secondary_history_witness:
  "\<exists>ix. sec_run id [SInsert [VInt64 10] [1], SInsert [VInt64 10] [2], SRemove [VInt64 10] [1]]
      (sec_new ''ix'' [1] False) = Some ix \<and> lookup_eq id ix [VInt64 10] = Some [[2]]"
proof -
  let ?xs = "[SInsert [VInt64 10] [1], SInsert [VInt64 10] [2], SRemove [VInt64 10] [1]] :: bytes sec_op list"
  have "same_pks (row_run False ?xs) [VInt64 10] = {[2]}"
    by (auto simp: row_run_def same_pks_def scmp_def cmp_def)
  then show ?thesis
    using secondary_history [of "[VInt64 10]" ?xs id "''ix''" "[1]" False] by (simp add: okey_comparable_def)
qed

text \<open>C13. Under the unique constraint no history of insertions and removals puts two primary keys under equal rows, for rows that are
pairwise comparable: the same number of columns, each null or of one type, decimals of one scale, no NaN, no zeros of different sign, no JSON. (Decimals of different scales are not: see \<open>okey_ignores_scale\<close>.)\<close>

theorem unique_index_invariant:
  assumes "all_comparable (insert vs (op_row ` set xs))"
  shows "\<exists>ix pks. sec_run js xs (sec_new nm cols True) = Some ix \<and> lookup_eq js ix vs = Some pks \<and> length pks \<le> 1"
proof -
  let ?R = "row_run True xs"
  obtain ix where ix: "sec_run js xs (sec_new nm cols True) = Some ix" "sec_holds js ix ?R"
    using sec_run_ok [OF sec_new_holds, of xs js nm cols True] assms
    by (auto simp: row_run_def sec_new_def)
  have fits: "fits_index ?R vs"
    by (rule fits_index_of [OF assms]) (use row_run_rows [of True xs "{}"] in \<open>auto simp: row_run_def\<close>)
  have enc: "\<exists>ws. (ws, pk) \<in> ?R \<and> encode_okey js ws = encode_okey js vs" if pk: "pk \<in> same_pks ?R vs" for pk
  proof -
    obtain ws where ws: "(ws, pk) \<in> ?R" "cmp_row ws vs = Equal" using pk by (auto simp: same_pks_def)
    then have "rows_comparable ws vs" using fits by auto
    then show ?thesis using ws encode_okey_Equal by blast
  qed
  have uniq: "\<forall>(ws, pk) \<in> ?R. \<forall>(us, qk) \<in> ?R. encode_okey js ws = encode_okey js us \<longrightarrow> pk = qk"
    by (rule row_run_unique) (use assms in simp)
  have "pk = qk" if p: "pk \<in> same_pks ?R vs" and q: "qk \<in> same_pks ?R vs" for pk qk
    using enc [OF p] enc [OF q] uniq by force
  then have "card (same_pks ?R vs) \<le> 1" by (metis card_le_Suc0_iff_eq One_nat_def card.infinite le0)
  then show ?thesis using ix(1) lookup_eq_ok [OF ix(2) fits] by simp
qed

theorem unique_index_invariant_witness:
  "\<exists>ix pks. sec_run id [SInsert [VBool True] [1], SInsert [VBool True] [2]] (sec_new ''ix'' [0] True) = Some ix \<and>
    lookup_eq id ix [VBool True] = Some pks \<and> length pks \<le> 1"
  using unique_index_invariant [of "[VBool True] :: bytes val list" "[SInsert [VBool True] [1], SInsert [VBool True] [2]]" id "''ix''" "[0]"]
  by (simp add: okey_comparable_def)

text \<open>C14. On an index that holds rows with at least one column and non-empty primary keys, and for bounds that are comparable with the
first column of every row (of its type or null, of its scale, no NaN, no zero of the other sign, no JSON), \<open>lookup_range\<close> returns exactly the primary
keys of the rows whose first column is not below the lower bound and not above the upper one.\<close>

theorem lookup_range_correct:
  assumes "sec_holds js ix R"
    and "\<forall>(ws, pk) \<in> R. ws \<noteq> [] \<and> pk \<noteq> [] \<and> bound_ok lo ws \<and> bound_ok hi ws"
  shows "\<exists>pks. lookup_range js ix lo hi = Some pks \<and> set pks = {pk. \<exists>ws. (ws, pk) \<in> R \<and> in_range lo hi ws}"
  using assms by (rule lookup_range_ok)

theorem lookup_range_correct_witness:
  "\<exists>t. sec_insert id (sec_new ''ix'' [1] False) [VInt64 7] [1] = Some ((sec_new ''ix'' [1] False)\<lparr>sec_tree := t\<rparr>, Inr ()) \<and>
     (\<exists>pks. lookup_range id ((sec_new ''ix'' [1] False)\<lparr>sec_tree := t\<rparr>) (Some (VInt64 5)) (Some (VInt64 7)) = Some pks \<and>
       set pks = {[1]})"
proof -
  let ?ix = "sec_new ''ix'' [1] False" and ?R = "{([VInt64 7] :: bytes val list, [1 :: u8])}"
  obtain t where t: "sec_insert id ?ix [VInt64 7] [1] = Some (?ix\<lparr>sec_tree := t\<rparr>, Inr ())" "sec_holds id (?ix\<lparr>sec_tree := t\<rparr>) ?R"
    using sec_insert_ok [OF sec_new_holds [of id "''ix''" "[1]" False], of "[VInt64 7]" "[1]"] by (auto simp: sec_new_def)
  have "{pk. \<exists>ws. (ws, pk) \<in> ?R \<and> in_range (Some (VInt64 5)) (Some (VInt64 7)) ws} = {[1]}"
    by (auto simp: in_range_def scmp_def cmp_def)
  then show ?thesis
    using lookup_range_correct [OF t(2), of "Some (VInt64 5)" "Some (VInt64 7)"] t(1)
    by (auto simp: okey_comparable_def)
qed

lemma bt_scan_all: "bt_inv t \<Longrightarrow> scan_all t = Some (bt_entries t)"
  using scan_all_ok by (auto elim!: bt_invE)

lemma iter_collect_drop: "position it \<le> length (items it) \<Longrightarrow> iter_collect it = drop (position it) (items it)"
proof (induction it rule: iter_collect.induct)
  case (1 it)
  then show ?case
    by (subst iter_collect.simps) (auto simp: iter_next_def Cons_nth_drop_Suc split: prod.splits option.splits)
qed

text \<open>Iterating to the end visits every entry of the scan that the iterator was opened on, in order, and
stops; with only one of the two bounds the iterator scans the whole tree.\<close>

lemma iterator_visits:
  assumes "bt_inv t"
  shows "\<exists>it. iter_new t lo hi = Some it \<and> iter_collect it =
    (case (lo, hi) of (Some l, Some h) \<Rightarrow> filter (\<lambda>e. l \<le> fst e \<and> fst e \<le> h) (bt_entries t) | _ \<Rightarrow> bt_entries t)"
proof (cases "lo = None \<or> hi = None")
  case True
  then show ?thesis using bt_scan_all [OF assms] by (auto simp: iter_new_def iter_collect_drop split: option.split)
next
  case False
  then show ?thesis using bt.ranged_law [OF assms] by (auto simp: iter_new_def iter_collect_drop)
qed

end
