(* ===== verification/Schema.thy ===== *)
theory Schema
  imports Values
begin

text \<open>
  Columns, schemas and sequences: \<open>bytedb-core/src/tuple/schema.rs\<close>. A schema keeps a map from column names to
  positions beside the list of columns; the sequence generator hands out the values of auto-increment columns.
\<close>

section \<open>Columns\<close>

record 'j col_def =
  col_name :: string
  col_type :: data_type
  nullable :: bool
  primary_key :: bool
  unique_col :: bool
  auto_increment :: bool
  default_value :: "'j val option"
  max_length :: "nat option"

definition column_new :: "string \<Rightarrow> data_type \<Rightarrow> 'j col_def" where
  "column_new nm ty = \<lparr>col_name = nm, col_type = ty, nullable = True, primary_key = False, unique_col = False,
     auto_increment = False, default_value = None, max_length = None\<rparr>"

definition col_not_null :: "'j col_def \<Rightarrow> 'j col_def" where
  "col_not_null c = c\<lparr>nullable := False\<rparr>"

definition col_primary_key :: "'j col_def \<Rightarrow> 'j col_def" where
  "col_primary_key c = c\<lparr>primary_key := True, nullable := False\<rparr>"

definition col_unique :: "'j col_def \<Rightarrow> 'j col_def" where
  "col_unique c = c\<lparr>unique_col := True\<rparr>"

definition col_auto_increment :: "'j col_def \<Rightarrow> 'j col_def" where
  "col_auto_increment c = c\<lparr>auto_increment := True\<rparr>"

definition col_with_default :: "'j val \<Rightarrow> 'j col_def \<Rightarrow> 'j col_def" where
  "col_with_default v c = c\<lparr>default_value := Some v\<rparr>"

definition col_with_max_length :: "nat \<Rightarrow> 'j col_def \<Rightarrow> 'j col_def" where
  "col_with_max_length n c = c\<lparr>max_length := Some n\<rparr>"

section \<open>Schemas\<close>

datatype fk_action = Restrict | Cascade | SetNull

record foreign_key =
  fk_columns :: "string list"
  ref_table :: string
  ref_columns :: "string list"
  on_delete :: fk_action
  on_update :: fk_action

record 'j schema =
  columns :: "'j col_def list"
  table_name :: string
  check_constraints :: "string list"
  foreign_keys :: "foreign_key list"
  column_map :: "(string \<times> nat) list"

text \<open>
  The hash map is an association list with the newest entry first, so that a repeated name maps to its
  last position, as in \<open>collect\<close>.
\<close>

definition build_column_map :: "'j col_def list \<Rightarrow> (string \<times> nat) list" where
  "build_column_map cols = rev (zip (map col_name cols) [0..<length cols])"

definition schema_new :: "string \<Rightarrow> 'j col_def list \<Rightarrow> 'j schema" where
  "schema_new nm cols = \<lparr>columns = cols, table_name = nm, check_constraints = [], foreign_keys = [],
     column_map = build_column_map cols\<rparr>"

text \<open>A deserialised schema rebuilds the map, which is not stored.\<close>

definition schema_of_serde :: "'j col_def list \<Rightarrow> string \<Rightarrow> string list \<Rightarrow> foreign_key list \<Rightarrow> 'j schema" where
  "schema_of_serde cols nm checks fks = \<lparr>columns = cols, table_name = nm, check_constraints = checks, foreign_keys = fks,
     column_map = build_column_map cols\<rparr>"

definition column_index :: "'j schema \<Rightarrow> string \<Rightarrow> nat option" where
  "column_index sc nm = map_of (column_map sc) nm"

definition schema_column :: "'j schema \<Rightarrow> string \<Rightarrow> 'j col_def option" where
  "schema_column sc nm = map_option (\<lambda>i. columns sc ! i) (map_of (column_map sc) nm)"

definition primary_key_columns :: "'j schema \<Rightarrow> nat list" where
  "primary_key_columns sc = map fst (filter (\<lambda>(_, c). primary_key c) (enumerate 0 (columns sc)))"

definition unique_columns :: "'j schema \<Rightarrow> nat list" where
  "unique_columns sc = map fst (filter (\<lambda>(_, c). unique_col c \<and> \<not> primary_key c) (enumerate 0 (columns sc)))"

definition num_columns :: "'j schema \<Rightarrow> nat" where
  "num_columns sc = length (columns sc)"

definition column_names :: "'j schema \<Rightarrow> string list" where
  "column_names sc = map col_name (columns sc)"

section \<open>Sequences\<close>

text \<open>
  The generator is shared: \<open>next\<close> is one atomic addition, but \<open>observe\<close> loads the counter and then
  tries to exchange it, again and again until the exchange succeeds or the counter is large enough.
  A session that is inside \<open>observe\<close> remembers the value to observe and the counter it last saw. The counter is an
  \<open>i64\<close>; \<open>value + 1\<close> and the addition wrap around.
\<close>

record seq_state =
  counter :: u64
  observers :: "nat \<rightharpoonup> u64 \<times> u64"
  handed_out :: "u64 list"

definition seq_new :: "u64 \<Rightarrow> seq_state" where
  "seq_new start = \<lparr>counter = start, observers = Map.empty, handed_out = []\<rparr>"

text \<open>The steps of the sessions; \<open>handed_out\<close> records the results of \<open>next\<close>.\<close>

datatype seq_step = Next | ObserveLoad nat u64 | ObserveTry nat

fun seq_do :: "seq_step \<Rightarrow> seq_state \<Rightarrow> seq_state" where
  "seq_do Next s = s\<lparr>counter := counter s + 1, handed_out := handed_out s @ [counter s]\<rparr>"
| "seq_do (ObserveLoad i v) s =
     (case observers s i of Some _ \<Rightarrow> s | None \<Rightarrow> s\<lparr>observers := (observers s)(i \<mapsto> (v, counter s))\<rparr>)"
| "seq_do (ObserveTry i) s =
     (case observers s i of
        None \<Rightarrow> s
      | Some (v, current) \<Rightarrow>
          if sint v \<ge> sint current
          then (if counter s = current
                then s\<lparr>counter := v + 1, observers := (observers s)(i := None)\<rparr>
                else s\<lparr>observers := (observers s)(i \<mapsto> (v, counter s))\<rparr>)
          else s\<lparr>observers := (observers s)(i := None)\<rparr>)"

section \<open>The column map\<close>

lemma map_of_column_map:
  assumes "distinct (map col_name cols)" and "i < length cols"
  shows "map_of (build_column_map cols) (col_name (cols ! i)) = Some i"
proof -
  have "(col_name (cols ! i), i) \<in> set (build_column_map cols)"
    using assms(2) by (auto simp: build_column_map_def in_set_zip intro!: exI [of _ i])
  moreover have "map fst (build_column_map cols) = rev (map col_name cols)"
    by (simp add: build_column_map_def rev_map [symmetric])
  ultimately show ?thesis using assms(1) by (intro map_of_is_SomeI) simp_all
qed

lemma column_map_sound:
  assumes "map_of (build_column_map cols) nm = Some i"
  shows "i < length cols \<and> col_name (cols ! i) = nm"
proof -
  have "(nm, i) \<in> set (zip (map col_name cols) [0..<length cols])"
    using map_of_SomeD [OF assms] by (simp add: build_column_map_def)
  then show ?thesis by (auto simp: in_set_zip)
qed

section \<open>Invariant of the sequence\<close>

definition seq_inv :: "int \<Rightarrow> seq_state \<Rightarrow> bool" where
  "seq_inv bound s \<longleftrightarrow> sint (counter s) \<le> bound \<and>
     sorted_wrt (\<lambda>a b. sint a < sint b) (handed_out s @ [counter s]) \<and>
     (\<forall>i v c. observers s i = Some (v, c) \<longrightarrow> sint v < bound \<and> sint c \<le> sint (counter s))"

lemma seq_invD:
  "seq_inv bound s \<Longrightarrow> observers s i = Some (v, c) \<Longrightarrow> sint v < bound \<and> sint c \<le> sint (counter s)"
  unfolding seq_inv_def by blast

lemma sint_Suc: "sint c < 2 ^ 63 - 1 \<Longrightarrow> sint (c + 1 :: u64) = sint c + 1"
proof -
  assume "sint c < 2 ^ 63 - 1"
  moreover have "- (2 ^ 63) \<le> sint c" using sint_greater_eq [of c] by simp
  ultimately have "signed_take_bit 63 (sint c + 1) = sint c + 1"
    by (intro signed_take_bit_int_eq_self) auto
  moreover have "sint (c + 1) = signed_take_bit 63 (sint c + 1)" using sint_word_ariths(1) [of c 1] by simp
  ultimately show ?thesis by simp
qed

lemma sorted_wrt_raise:
  assumes "sorted_wrt (\<lambda>a b. sint a < sint b) (xs @ [c])" and "sint c \<le> sint d"
  shows "sorted_wrt (\<lambda>a b. sint a < sint b) (xs @ [d])"
  using assms by (auto simp: sorted_wrt_append)

fun observed :: "seq_step \<Rightarrow> int \<Rightarrow> bool" where
  "observed (ObserveLoad i v) bound = (sint v < bound)"
| "observed _ bound = True"

lemma seq_inv_mono: "seq_inv b s \<Longrightarrow> b \<le> c \<Longrightarrow> seq_inv c s"
  unfolding seq_inv_def by (meson order_trans less_le_trans)

lemma seq_do_inv:
  assumes "seq_inv bound s" and "observed x bound" and "bound + 1 < 2 ^ 63"
  shows "seq_inv (bound + 1) (seq_do x s)"
proof (cases x)
  case Next
  have "sint (counter s + 1) = sint (counter s) + 1" using assms(1,3) by (intro sint_Suc) (simp add: seq_inv_def)
  moreover have "sint v < bound + 1 \<and> sint c \<le> sint (counter s) + 1" if "observers s i = Some (v, c)" for i v c
    using seq_invD [OF assms(1) that] by simp
  ultimately show ?thesis
    using assms(1) Next by (auto simp: seq_inv_def sorted_wrt_append)
next
  case (ObserveLoad i v)
  then show ?thesis
    using assms(2) seq_inv_mono [OF assms(1), of "bound + 1"] by (auto simp: seq_inv_def split: option.splits)
next
  case (ObserveTry i)
  show ?thesis
  proof (cases "observers s i")
    case None
    then show ?thesis using ObserveTry seq_inv_mono [OF assms(1), of "bound + 1"] by simp
  next
    case (Some p)
    obtain v c where p: "p = (v, c)" by (cases p)
    have v: "sint v < bound" and c: "sint c \<le> sint (counter s)" using seq_invD [OF assms(1), of i v c] Some p by auto
    have v1: "sint (v + 1) = sint v + 1" using v assms(3) by (intro sint_Suc) simp
    show ?thesis
    proof (cases "sint v \<ge> sint c \<and> counter s = c")
      case True
      have "sorted_wrt (\<lambda>a b. sint a < sint b) (handed_out s @ [v + 1])"
        by (rule sorted_wrt_raise [of _ "counter s"]) (use assms(1) True v1 in \<open>auto simp: seq_inv_def\<close>)
      moreover have "sint v' < bound + 1 \<and> sint c' \<le> sint v + 1" if "observers s j = Some (v', c')" for j v' c'
        using seq_invD [OF assms(1) that] True by auto
      ultimately show ?thesis using ObserveTry Some p True v1 v by (auto simp: seq_inv_def)
    next
      case False
      then show ?thesis using ObserveTry Some p v seq_inv_mono [OF assms(1), of "bound + 1"] by (auto simp: seq_inv_def)
    qed
  qed
qed

lemma seq_run_inv:
  assumes "seq_inv bound s" and "list_all (\<lambda>x. observed x bound) xs" and "bound + int (length xs) < 2 ^ 63"
  shows "seq_inv (bound + int (length xs)) (fold seq_do xs s)"
  using assms
proof (induction xs arbitrary: s bound)
  case (Cons x xs)
  have "list_all (\<lambda>x. observed x (bound + 1)) xs"
  proof (rule list.pred_mono_strong)
    show "list_all (\<lambda>x. observed x bound) xs" using Cons.prems(2) by simp
    show "observed y bound \<Longrightarrow> observed y (bound + 1)" for y by (cases y) auto
  qed
  moreover have "seq_inv (bound + 1) (seq_do x s)" using seq_do_inv [OF Cons.prems(1)] Cons.prems by simp
  ultimately show ?case using Cons.IH [of "bound + 1" "seq_do x s"] Cons.prems(3) by (simp add: add.assoc)
qed simp

section \<open>Properties\<close>

text \<open>In a schema with distinct column names the position of a name is the position of the column with that
name, and a name that no column has is not found.\<close>

lemma column_index_correct:
  assumes "distinct (column_names (schema_new nm cols))"
  shows "column_index (schema_new nm cols) c = Some i \<longleftrightarrow> i < length cols \<and> col_name (cols ! i) = c"
  using assms map_of_column_map [of cols i] column_map_sound [of cols c i]
  by (auto simp: column_index_def schema_new_def column_names_def)

text \<open>C15. However the steps of the sessions interleave, the values that \<open>next\<close> hands out are strictly
increasing, hence distinct, and when a session leaves \<open>observe\<close> the counter is above the value it observed: provided that the start
and every observed value are below a bound that leaves room for the number of steps under the largest \<open>i64\<close>.\<close>

theorem sequence_values_increase:
  assumes "sint start < bound" and "list_all (\<lambda>x. observed x bound) xs" and "bound + int (length xs) < 2 ^ 63 - 1"
  shows "let s = fold seq_do xs (seq_new start) in
    sorted_wrt (\<lambda>a b. sint a < sint b) (handed_out s) \<and>
    (\<forall>i v c. observers s i = Some (v, c) \<and> observers (seq_do (ObserveTry i) s) i = None \<longrightarrow>
      sint v < sint (counter (seq_do (ObserveTry i) s)))"
proof -
  let ?s = "fold seq_do xs (seq_new start)"
  have inv: "seq_inv (bound + int (length xs)) ?s"
    by (rule seq_run_inv) (use assms in \<open>auto simp: seq_inv_def seq_new_def\<close>)
  have "sint v < sint (counter (seq_do (ObserveTry i) ?s))"
    if o: "observers ?s i = Some (v, c)" "observers (seq_do (ObserveTry i) ?s) i = None" for i v c
  proof -
    have "sint (v + 1) = sint v + 1" using seq_invD [OF inv o(1)] assms(3) by (intro sint_Suc) simp
    moreover have "sint c \<le> sint (counter ?s)" using seq_invD [OF inv o(1)] by simp
    ultimately show ?thesis using o by (auto split: if_splits)
  qed
  moreover have "sorted_wrt (\<lambda>a b. sint a < sint b) (handed_out ?s)" using inv by (simp add: seq_inv_def sorted_wrt_append)
  ultimately show ?thesis unfolding Let_def by blast
qed

theorem sequence_values_increase_witness:
  "handed_out (fold seq_do [Next, ObserveLoad 0 9, Next, ObserveTry 0, ObserveTry 0, Next] (seq_new 1)) = [1, 2, 10] \<and>
   sorted_wrt (\<lambda>a b. sint a < sint b)
     (handed_out (fold seq_do [Next, ObserveLoad 0 9, Next, ObserveTry 0, ObserveTry 0, Next] (seq_new 1)))"
  using sequence_values_increase [of 1 10 "[Next, ObserveLoad 0 9, Next, ObserveTry 0, ObserveTry 0, Next]"]
  by (simp add: seq_new_def Let_def)

text \<open>
  Without that bound the claim is false: \<open>observe\<close> of the largest \<open>i64\<close> computes \<open>value + 1\<close>, which wraps around in a release build
  (and panics in a debug build), and the sequence goes on with the smallest \<open>i64\<close>.
\<close>

lemma observe_max_wraps:
  "handed_out (fold seq_do [Next, ObserveLoad 0 (2 ^ 63 - 1), ObserveTry 0, Next] (seq_new 1)) = [1, - (2 ^ 63)] \<and>
   sint (- (2 ^ 63) :: 64 word) < sint (1 :: 64 word)"
  by (simp add: seq_new_def)

end
