(* ===== verification/Tuples.thy ===== *)
theory Tuples
  imports Schema "HOL-Library.Monad_Syntax"
begin

text \<open>
  Rows and their byte format: \<open>bytedb-core/src/tuple/tuple.rs\<close> and \<open>bytedb-core/src/compress.rs\<close>.

  A row is stored as the number of its values (one byte) and the encoded values; readers work on the stored
  bytes at a position. The compression crates and \<open>serde_json\<close> are the fields of \<open>libs\<close>;
  \<open>libs_ok\<close> says that decompressing what was compressed gives it back. That a JSON value is read back from its text is not assumed
  in general, as \<open>serde_json\<close> limits the nesting and reads some floats only approximately: it is a condition on the JSON values of a row, \<open>json_ok\<close>. A \<open>None\<close>
  of the source is \<open>None\<close> here. UTF-8 validation belongs to the standard library and is modelled.
\<close>

section \<open>External libraries\<close>

record 'j libs =
  lz4_compress :: "bytes \<Rightarrow> bytes"
  lz4_decompress :: "bytes \<Rightarrow> nat \<Rightarrow> bytes option"
  zstd_compress :: "bytes \<Rightarrow> bytes option"
  zstd_decode_all :: "bytes \<Rightarrow> bytes option"
  json_to_string :: "'j \<Rightarrow> bytes"
  json_from_str :: "bytes \<Rightarrow> 'j option"

section \<open>UTF-8\<close>

definition cont_byte :: "u8 \<Rightarrow> bool" where
  "cont_byte b \<longleftrightarrow> 128 \<le> b \<and> b \<le> 191"

text \<open>The bytes that may follow a leading byte of a two, three or four byte sequence.\<close>

definition second_ok :: "u8 \<Rightarrow> u8 \<Rightarrow> bool" where
  "second_ok a b \<longleftrightarrow>
     (if a = 224 then 160 \<le> b \<and> b \<le> 191
      else if a = 237 then 128 \<le> b \<and> b \<le> 159
      else if a = 240 then 144 \<le> b \<and> b \<le> 191
      else if a = 244 then 128 \<le> b \<and> b \<le> 143
      else cont_byte b)"

fun from_utf8 :: "bytes \<Rightarrow> bool" where
  "from_utf8 [] = True"
| "from_utf8 (a # rest) =
     (if a < 128 then from_utf8 rest
      else if 194 \<le> a \<and> a \<le> 223 then
        (case rest of b # rest' \<Rightarrow> cont_byte b \<and> from_utf8 rest' | _ \<Rightarrow> False)
      else if 224 \<le> a \<and> a \<le> 239 then
        (case rest of b # c # rest' \<Rightarrow> second_ok a b \<and> cont_byte c \<and> from_utf8 rest' | _ \<Rightarrow> False)
      else if 240 \<le> a \<and> a \<le> 244 then
        (case rest of b # c # d # rest' \<Rightarrow> second_ok a b \<and> cont_byte c \<and> cont_byte d \<and> from_utf8 rest' | _ \<Rightarrow> False)
      else False)"

section \<open>Compression envelope\<close>

definition MIN_COMPRESS_SIZE :: nat where "MIN_COMPRESS_SIZE = 1024"

datatype algo = Lz4 | Zstd

definition envelope :: "u8 \<Rightarrow> nat \<Rightarrow> bytes \<Rightarrow> bytes" where
  "envelope tag n buf = tag # to_le (of_nat n :: u64) @ to_le (of_nat (length buf) :: u32) @ buf"

definition compress :: "'j libs \<Rightarrow> bytes \<Rightarrow> (bytes \<times> algo) option" where
  "compress L data =
     (if length data < MIN_COMPRESS_SIZE then None
      else
        let lz4_buf = lz4_compress L data in
        if length lz4_buf < length data then Some (envelope 12 (length data) lz4_buf, Lz4)
        else do {
          zstd_buf \<leftarrow> zstd_compress L data;
          if length zstd_buf < length data then Some (envelope 13 (length data) zstd_buf, Zstd) else None })"

definition decompress :: "'j libs \<Rightarrow> bytes \<Rightarrow> bytes option" where
  "decompress L data =
     (if length data < 13 then None
      else
        let tag = data ! 0;
            orig_size = unat (from_le (rd_range 1 8 data) :: u64);
            comp_size = unat (from_le (rd_range 9 4 data) :: u32)
        in if length data < 13 + comp_size then None
           else
             let compressed = rd_range 13 comp_size data in
             if tag = 12 then do {
               out \<leftarrow> lz4_decompress L compressed orig_size;
               if length out = orig_size then Some out else None }
             else if tag = 13 then do {
               out \<leftarrow> zstd_decode_all L compressed;
               if length out = orig_size then Some out else None }
             else None)"

section \<open>Values as bytes\<close>

definition encode_value :: "'j libs \<Rightarrow> 'j val \<Rightarrow> bytes" where
  "encode_value L v = (case v of
     Null \<Rightarrow> [0]
   | VBool b \<Rightarrow> [1, if b then 1 else 0]
   | VInt64 n \<Rightarrow> 2 # to_le n
   | VFloat64 f \<Rightarrow> 3 # to_le f
   | VText s \<Rightarrow> 4 # to_le (of_nat (length s) :: u32) @ s
   | VBytes b \<Rightarrow> (case compress L b of
         Some (compressed, _) \<Rightarrow> compressed
       | None \<Rightarrow> 5 # to_le (of_nat (length b) :: u32) @ b)
   | VJson j \<Rightarrow> (let s = json_to_string L j in 6 # to_le (of_nat (length s) :: u32) @ s)
   | VTimestamp t \<Rightarrow> 7 # to_le t
   | VDate d \<Rightarrow> 8 # to_le d
   | VDecimal m s \<Rightarrow> 9 # to_le m @ [s]
   | VUuid b \<Rightarrow> 10 # b
   | VInterval us \<Rightarrow> 11 # to_le us)"

text \<open>A fixed-width field and a field with its length in front, at a position.\<close>

definition word_at :: "nat \<Rightarrow> ('a::len word \<Rightarrow> 'v) \<Rightarrow> bytes \<Rightarrow> nat \<Rightarrow> ('v \<times> nat) option" where
  "word_at n f data p = (if p + n > length data then None else Some (f (from_le (rd_range p n data)), p + n))"

definition lp_at :: "bytes \<Rightarrow> nat \<Rightarrow> (bytes \<times> nat) option" where
  "lp_at data p =
     (if p + 4 > length data then None
      else
        let len = unat (from_le (rd_range p 4 data) :: u32)
        in if p + 4 + len > length data then None else Some (rd_range (p + 4) len data, p + 4 + len))"

definition decode_value :: "'j libs \<Rightarrow> bytes \<Rightarrow> nat \<Rightarrow> ('j val \<times> nat) option" where
  "decode_value L data pos =
     (if pos \<ge> length data then None
      else
        let tag = data ! pos; p = pos + 1 in
        if tag = 0 then Some (Null, p)
        else if tag = 1 then (if p \<ge> length data then None else Some (VBool (data ! p \<noteq> 0), p + 1))
        else if tag = 2 then word_at 8 VInt64 data p
        else if tag = 3 then word_at 8 VFloat64 data p
        else if tag = 4 then map_option (\<lambda>(s, e). (VText s, e)) (lp_at data p)
        else if tag = 5 then map_option (\<lambda>(b, e). (VBytes b, e)) (lp_at data p)
        else if tag = 12 \<or> tag = 13 then
          (if p + 13 > length data then None
           else
             let comp_size = unat (from_le (rd_range (p + 8) 4 data) :: u32);
                 stop = pos + 13 + comp_size
             in if stop > length data then None
                else map_option (\<lambda>b. (VBytes b, stop)) (decompress L (rd_range pos (13 + comp_size) data)))
        else if tag = 6 then do {
          (s, e) \<leftarrow> lp_at data p;
          if \<not> from_utf8 s then None else map_option (\<lambda>j. (VJson j, e)) (json_from_str L s) }
        else if tag = 7 then word_at 8 VTimestamp data p
        else if tag = 8 then word_at 4 VDate data p
        else if tag = 9 then
          (if p + 17 > length data then None
           else Some (VDecimal (from_le (rd_range p 16 data)) (data ! (p + 16)), p + 17))
        else if tag = 10 then (if p + 16 > length data then None else Some (VUuid (rd_range p 16 data), p + 16))
        else if tag = 11 then word_at 8 VInterval data p
        else None)"

definition skip_value :: "bytes \<Rightarrow> nat \<Rightarrow> nat option" where
  "skip_value data pos =
     (if pos \<ge> length data then None
      else
        let tag = data ! pos; p = pos + 1 in
        if tag = 0 then Some p
        else if tag = 1 then Some (p + 1)
        else if tag = 2 \<or> tag = 3 \<or> tag = 7 then Some (p + 8)
        else if tag = 8 then Some (p + 4)
        else if tag = 10 then Some (p + 16)
        else if tag = 9 then Some (p + 17)
        else if tag = 11 then Some (p + 8)
        else if tag = 12 \<or> tag = 13 then
          (if p + 12 > length data then None
           else Some (p + 13 + unat (from_le (rd_range (p + 8) 4 data) :: u32)))
        else if tag = 22 then (if p + 16 > length data then None else Some (p + 16))
        else if tag = 4 \<or> tag = 5 \<or> tag = 6 then
          (if p + 4 > length data then None
           else Some (p + 4 + unat (from_le (rd_range p 4 data) :: u32)))
        else None)"

section \<open>Rows as bytes\<close>

definition serialize :: "'j libs \<Rightarrow> 'j val list \<Rightarrow> bytes" where
  "serialize L vs = of_nat (length vs) # concat (map (encode_value L) vs)"

text \<open>The loop over the columns, from a position.\<close>

fun decode_values :: "'j libs \<Rightarrow> bytes \<Rightarrow> nat \<Rightarrow> nat \<Rightarrow> 'j val list option" where
  "decode_values L data 0 pos = Some []"
| "decode_values L data (Suc n) pos = do {
     (v, p) \<leftarrow> decode_value L data pos;
     vs \<leftarrow> decode_values L data n p;
     Some (v # vs) }"

definition deserialize_to_vec :: "'j libs \<Rightarrow> bytes \<Rightarrow> 'j val list option" where
  "deserialize_to_vec L data = (if data = [] then None else decode_values L data (unat (data ! 0)) 1)"

definition deserialize :: "'j libs \<Rightarrow> bytes \<Rightarrow> 'j val list option" where
  "deserialize L data = deserialize_to_vec L data"

text \<open>\<open>needed\<close> is what is left of the list of needed columns: the source moves a pointer into it.\<close>

fun decode_columns :: "'j libs \<Rightarrow> bytes \<Rightarrow> nat \<Rightarrow> nat \<Rightarrow> nat list \<Rightarrow> nat \<Rightarrow> 'j val list option" where
  "decode_columns L data 0 col needed pos = Some []"
| "decode_columns L data (Suc n) col needed pos =
     (if needed \<noteq> [] \<and> hd needed = col
      then do {
        (v, p) \<leftarrow> decode_value L data pos;
        vs \<leftarrow> decode_columns L data n (col + 1) (tl needed) p;
        Some (v # vs) }
      else do {
        p \<leftarrow> skip_value data pos;
        vs \<leftarrow> decode_columns L data n (col + 1) needed p;
        Some (Null # vs) })"

definition deserialize_columns :: "'j libs \<Rightarrow> bytes \<Rightarrow> nat list \<Rightarrow> 'j val list option" where
  "deserialize_columns L data needed = (if data = [] then None else decode_columns L data (unat (data ! 0)) 0 needed 1)"

definition key_bytes :: "'j libs \<Rightarrow> 'j val list \<Rightarrow> nat list \<Rightarrow> bytes" where
  "key_bytes L vs key_columns = concat (map (\<lambda>i. if i < length vs then encode_value L (vs ! i) else []) key_columns)"

section \<open>Reading columns in place\<close>

fun ranges_from :: "bytes \<Rightarrow> nat \<Rightarrow> nat \<Rightarrow> (nat \<times> nat) list option" where
  "ranges_from data 0 pos = Some []"
| "ranges_from data (Suc n) pos = do {
     e \<leftarrow> skip_value data pos;
     rs \<leftarrow> ranges_from data n e;
     Some ((pos, e) # rs) }"

definition column_ranges :: "bytes \<Rightarrow> (nat \<times> nat) list option" where
  "column_ranges data = (if data = [] then None else ranges_from data (unat (data ! 0)) 1)"

fun has_blob_from :: "bytes \<Rightarrow> nat \<Rightarrow> nat \<Rightarrow> bool" where
  "has_blob_from data 0 pos = False"
| "has_blob_from data (Suc n) pos =
     (if pos \<ge> length data then False
      else if data ! pos = 22 then True
      else case skip_value data pos of Some p \<Rightarrow> has_blob_from data n p | None \<Rightarrow> False)"

definition has_blob_ref :: "bytes \<Rightarrow> bool" where
  "has_blob_ref data = (if data = [] then False else has_blob_from data (unat (data ! 0)) 1)"

fun blobs_from :: "bytes \<Rightarrow> nat \<Rightarrow> nat \<Rightarrow> bytes list \<Rightarrow> bytes list" where
  "blobs_from data 0 pos out = out"
| "blobs_from data (Suc n) pos out =
     (if pos \<ge> length data then out
      else
        let out = (if data ! pos = 22 \<and> pos + 17 \<le> length data then out @ [rd_range (pos + 1) 16 data] else out)
        in case skip_value data pos of Some p \<Rightarrow> blobs_from data n p out | None \<Rightarrow> out)"

definition collect_blob_refs :: "bytes \<Rightarrow> bytes list \<Rightarrow> bytes list" where
  "collect_blob_refs data out = (if data = [] then out else blobs_from data (unat (data ! 0)) 1 out)"

fun skip_many :: "bytes \<Rightarrow> nat \<Rightarrow> nat \<Rightarrow> nat option" where
  "skip_many data 0 pos = Some pos"
| "skip_many data (Suc n) pos = do { p \<leftarrow> skip_value data pos; skip_many data n p }"

definition column_offset :: "bytes \<Rightarrow> nat \<Rightarrow> nat option" where
  "column_offset data col_idx =
     (if data = [] then None
      else if col_idx \<ge> unat (data ! 0) then None
      else skip_many data col_idx 1)"

definition read_int64_at :: "bytes \<Rightarrow> nat \<Rightarrow> u64 option" where
  "read_int64_at data col_idx = do {
     pos \<leftarrow> column_offset data col_idx;
     if pos \<ge> length data then None
     else if data ! pos = 2 \<or> data ! pos = 7
     then (if pos + 9 > length data then None else Some (from_le (rd_range (pos + 1) 8 data)))
     else None }"


definition compare_column_int64 :: "bytes \<Rightarrow> nat \<Rightarrow> u64 \<Rightarrow> ordering option" where
  "compare_column_int64 data col_idx literal = do {
     pos \<leftarrow> column_offset data col_idx;
     if pos \<ge> length data then None
     else if data ! pos = 0 then None
     else if data ! pos = 2 \<or> data ! pos = 7
     then (if pos + 9 > length data then None
           else Some (scmp (from_le (rd_range (pos + 1) 8 data)) literal))
     else None }"

definition compare_column_float64 :: "bytes \<Rightarrow> nat \<Rightarrow> u64 \<Rightarrow> ordering option" where
  "compare_column_float64 data col_idx literal = do {
     pos \<leftarrow> column_offset data col_idx;
     if pos \<ge> length data then None
     else if data ! pos = 0 then None
     else if data ! pos = 3
     then (if pos + 9 > length data then None
           else f64_partial_cmp (from_le (rd_range (pos + 1) 8 data)) literal)
     else if data ! pos = 2
     then (if pos + 9 > length data then None
           else f64_partial_cmp (i64_as_f64 (from_le (rd_range (pos + 1) 8 data))) literal)
     else None }"

definition compare_column_text :: "bytes \<Rightarrow> nat \<Rightarrow> bytes \<Rightarrow> ordering option" where
  "compare_column_text data col_idx literal = do {
     pos \<leftarrow> column_offset data col_idx;
     if pos \<ge> length data then None
     else if data ! pos = 0 then None
     else if data ! pos = 4
     then do {
       (s, _) \<leftarrow> lp_at data (pos + 1);
       if from_utf8 s then Some (cmp s literal) else None }
     else None }"

definition op_matches :: "u8 \<Rightarrow> ordering \<Rightarrow> bool" where
  "op_matches op ord =
     (if op = 0 then ord = Equal
      else if op = 1 then ord \<noteq> Equal
      else if op = 2 then ord = Less
      else if op = 3 then ord = Greater
      else if op = 4 then ord \<noteq> Greater
      else if op = 5 then ord \<noteq> Less
      else True)"

definition raw_filter_matches :: "bytes \<Rightarrow> nat \<Rightarrow> u8 \<Rightarrow> 'j val \<Rightarrow> bool option" where
  "raw_filter_matches data col_idx op literal = do {
     ord \<leftarrow> (case literal of
         VInt64 v \<Rightarrow> compare_column_int64 data col_idx v
       | VFloat64 v \<Rightarrow> compare_column_float64 data col_idx v
       | VText v \<Rightarrow> compare_column_text data col_idx v
       | _ \<Rightarrow> None);
     Some (op_matches op ord) }"

section \<open>Validation against a schema\<close>






section \<open>Rows in memory\<close>

definition tuple_get :: "'j val list \<Rightarrow> nat \<Rightarrow> 'j val option" where
  "tuple_get vs i = (if i < length vs then Some (vs ! i) else None)"

definition tuple_set :: "'j val list \<Rightarrow> nat \<Rightarrow> 'j val \<Rightarrow> 'j val list" where
  "tuple_set vs i v = (if i < length vs then vs[i := v] else vs)"


section \<open>Positions are relative\<close>

lemma range_shift:
  "rd_range (length pre + i) n (pre @ xs) = rd_range i n xs"
  "rd_range (Suc (length pre + i)) n (pre @ xs) = rd_range (Suc i) n xs"
  "rd_range (numeral k + (length pre + i)) n (pre @ xs) = rd_range (numeral k + i) n xs"
  by (simp_all add: rd_range_def)

lemma nth_shift:
  "(pre @ xs) ! (Suc (length pre + i)) = xs ! Suc i"
  "(pre @ xs) ! (numeral k + (length pre + i)) = xs ! (numeral k + i)"
  by (simp_all add: nth_append)

lemmas shifts = range_shift nth_shift

lemma word_at_shift:
  "word_at n f (pre @ xs) (length pre + p) = map_option (map_prod id ((+) (length pre))) (word_at n f xs p)"
  by (simp add: word_at_def shifts)

lemma lp_at_shift: "lp_at (pre @ xs) (length pre + p) = map_option (map_prod id ((+) (length pre))) (lp_at xs p)"
  by (simp add: lp_at_def Let_def add.assoc shifts)

lemma decode_value_shift:
  "decode_value L (pre @ xs) (length pre + p) = map_option (map_prod id ((+) (length pre))) (decode_value L xs p)"
proof -
  have w: "word_at n f (pre @ xs) (length pre + p + 1) = map_option (map_prod id ((+) (length pre))) (word_at n f xs (p + 1))" for n and f :: "'x::len word \<Rightarrow> 'y"
    using word_at_shift [of n f pre xs "p + 1"] by (simp add: add.assoc)
  have l: "lp_at (pre @ xs) (length pre + p + 1) = map_option (map_prod id ((+) (length pre))) (lp_at xs (p + 1))"
    using lp_at_shift [of pre xs "p + 1"] by (simp add: add.assoc)
  show ?thesis
    unfolding decode_value_def w l Let_def
    by (cases "lp_at xs (p + 1)") (simp_all add: add.assoc shifts option.map_comp comp_def case_prod_beta split: option.split bind_split)
qed

lemma skip_value_shift: "skip_value (pre @ xs) (length pre + p) = map_option ((+) (length pre)) (skip_value xs p)"
  unfolding skip_value_def Let_def by (simp add: add.assoc shifts)

section \<open>Encoding and decoding one value\<close>

text \<open>
  What the format relies on of its libraries: decompression inverts compression, and a compressed buffer is
  never empty (an LZ4 block has a token, a Zstandard frame its magic number).
\<close>

definition libs_ok :: "'j libs \<Rightarrow> bool" where
  "libs_ok L \<longleftrightarrow>
     (\<forall>b. b \<noteq> [] \<longrightarrow> lz4_compress L b \<noteq> [] \<and> lz4_decompress L (lz4_compress L b) (length b) = Some b) \<and>
     (\<forall>b c. zstd_compress L b = Some c \<and> b \<noteq> [] \<longrightarrow> c \<noteq> [] \<and> zstd_decode_all L c = Some b)"

text \<open>The values that Rust can hold and the format can store.\<close>

definition val_ok :: "'j libs \<Rightarrow> 'j val \<Rightarrow> bool" where
  "val_ok L v = (case v of
     VText s \<Rightarrow> fits32 s \<and> from_utf8 s
   | VBytes b \<Rightarrow> fits32 b
   | VJson j \<Rightarrow> fits32 (json_to_string L j)
   | VUuid u \<Rightarrow> length u = 16
   | _ \<Rightarrow> True)"

text \<open>A JSON value whose text is valid UTF-8 and parses to it.\<close>

definition json_ok :: "'j libs \<Rightarrow> 'j val \<Rightarrow> bool" where
  "json_ok L v = (case v of VJson j \<Rightarrow> from_utf8 (json_to_string L j) \<and> json_from_str L (json_to_string L j) = Some j | _ \<Rightarrow> True)"

definition storable :: "'j libs \<Rightarrow> 'j val \<Rightarrow> bool" where
  "storable L v \<longleftrightarrow> val_ok L v \<and> json_ok L v"

lemma word_at_enc:
  "n = length (to_le w) \<Longrightarrow> from_le (to_le w) = w \<Longrightarrow> word_at n f (tag # to_le w @ s) (Suc 0) = Some (f w, Suc n)"
  by (simp add: word_at_def rd_range_def)

lemma lp_at_enc: "fits32 b \<Longrightarrow> lp_at (tag # to_le (of_nat (length b) :: u32) @ b @ s) (Suc 0) = Some (b, 5 + length b)"
  by (simp add: lp_at_def rd_range_def)

lemma compress_cases:
  assumes "compress L b = Some (c, a)"
  obtains (lz4) buf where "buf = lz4_compress L b" "c = envelope 12 (length b) buf" "length buf < length b" "b \<noteq> []"
  | (zstd) buf where "zstd_compress L b = Some buf" "c = envelope 13 (length b) buf" "length buf < length b" "b \<noteq> []"
  using assms
  by (cases "b = []") (auto simp: compress_def MIN_COMPRESS_SIZE_def Let_def split: if_splits bind_splits)

lemma decompress_envelope:
  assumes "fits32 b" and "length buf < length b" and "n = length b"
  shows "decompress L (envelope tag n buf @ s) =
    (if tag = 12 then do { out \<leftarrow> lz4_decompress L buf (length b); if length out = length b then Some out else None }
     else if tag = 13 then do { out \<leftarrow> zstd_decode_all L buf; if length out = length b then Some out else None }
     else None)"
proof -
  have u: "unat (of_nat (length b) :: u64) = length b" "unat (of_nat (length buf) :: u32) = length buf"
    using assms(1,2) by (simp_all add: fits32_def unat_of_nat)
  show ?thesis
    by (simp add: decompress_def envelope_def rd_range_def u assms(3) Let_def)
qed

lemma compressed_roundtrip:
  assumes "libs_ok L" and "fits32 b" and "compress L b = Some (c, a)"
  shows "decompress L c = Some b"
  using assms(3)
proof (cases rule: compress_cases)
  case (lz4 buf)
  then show ?thesis
    using decompress_envelope [OF assms(2) lz4(3) refl, of L 12 "[]"] assms(1) by (simp add: libs_ok_def)
next
  case (zstd buf)
  then show ?thesis
    using decompress_envelope [OF assms(2) zstd(3) refl, of L 13 "[]"] assms(1) by (simp add: libs_ok_def)
qed

lemma decode_compressed:
  assumes "libs_ok L" and "fits32 b" and "compress L b = Some (c, a)"
  shows "decode_value L (c @ s) 0 = Some (VBytes b, length c) \<and> skip_value (c @ s) 0 = Some (Suc (length c))"
proof -
  obtain tag buf where c: "c = envelope tag (length b) buf" "tag = 12 \<or> tag = 13" "length buf < length b" "buf \<noteq> []"
    using assms(3) by (cases rule: compress_cases) (use assms(1) in \<open>auto simp: libs_ok_def\<close>)
  have u: "unat (of_nat (length buf) :: u32) = length buf" using assms(2) c(3) by (simp add: fits32_def unat_of_nat)
  have len: "length c = 13 + length buf" by (simp add: c(1) envelope_def)
  have "rd_range 9 4 (c @ s) = to_le (of_nat (length buf) :: u32)" by (simp add: c(1) envelope_def rd_range_def)
  moreover have "rd_range 0 (13 + length buf) (c @ s) = c" using len by (simp add: rd_range_def)
  moreover have "c ! 0 = tag" "c \<noteq> []" by (auto simp: c(1) envelope_def)
  ultimately show ?thesis
    using c(2,4) len u compressed_roundtrip [OF assms]
    by (auto simp: decode_value_def skip_value_def Let_def nth_append)
qed

lemma decode_encode_0:
  assumes "libs_ok L" and "storable L v"
  shows "decode_value L (encode_value L v @ s) 0 = Some (v, length (encode_value L v))"
proof (cases v)
  case (VBytes b)
  then show ?thesis
  proof (cases "compress L b")
    case None
    then show ?thesis using VBytes assms(2) by (simp add: encode_value_def decode_value_def storable_def val_ok_def Let_def lp_at_enc)
  next
    case (Some p)
    then show ?thesis
      using VBytes assms(2) decode_compressed [OF assms(1), of b "fst p" "snd p" s]
      by (cases p) (simp add: encode_value_def storable_def val_ok_def)
  qed
qed (use assms in \<open>simp_all add: encode_value_def decode_value_def storable_def val_ok_def json_ok_def Let_def
      word_at_enc lp_at_enc rd_range_def nth_append\<close>)

text \<open>The values that are not stored compressed.\<close>

definition plain :: "'j libs \<Rightarrow> 'j val \<Rightarrow> bool" where
  "plain L v = (case v of VBytes b \<Rightarrow> compress L b = None | _ \<Rightarrow> True)"

lemma skip_encode_0:
  assumes "val_ok L v" and "plain L v"
  shows "skip_value (encode_value L v @ s) 0 = Some (length (encode_value L v))"
  using assms
  by (cases v) (simp_all add: encode_value_def skip_value_def val_ok_def plain_def Let_def rd_range_def)

lemma decode_encode:
  "libs_ok L \<Longrightarrow> storable L v \<Longrightarrow>
    decode_value L (pre @ encode_value L v @ s) (length pre) = Some (v, length (pre @ encode_value L v))"
  using decode_value_shift [of L pre "encode_value L v @ s" 0] decode_encode_0 [of L v s] by simp

lemma skip_encode:
  "val_ok L v \<Longrightarrow> plain L v \<Longrightarrow>
    skip_value (pre @ encode_value L v @ s) (length pre) = Some (length (pre @ encode_value L v))"
  using skip_value_shift [of pre "encode_value L v @ s" 0] skip_encode_0 [of L v s] by simp

lemma encode_value_tag: "\<exists>t bs. encode_value L v = t # bs"
  by (cases v) (auto simp: encode_value_def compress_def envelope_def Let_def split: option.splits bind_splits if_splits)

section \<open>Rows\<close>

lemma decode_values_encode:
  assumes "libs_ok L" and "\<forall>v \<in> set vs. storable L v"
  shows "decode_values L (pre @ concat (map (encode_value L) vs) @ s) (length vs) (length pre) = Some vs"
  using assms(2)
proof (induction vs arbitrary: pre)
  case (Cons v vs)
  then show ?case
    using decode_encode [OF assms(1), of v pre "concat (map (encode_value L) vs) @ s"]
      Cons.IH [of "pre @ encode_value L v"] by simp
qed simp

lemma decode_columns_encode:
  assumes "libs_ok L" and "\<forall>v \<in> set vs. storable L v"
    and "\<forall>i < length vs. col + i \<notin> set needed \<longrightarrow> plain L (vs ! i)"
    and "sorted_wrt (<) needed" and "\<forall>n \<in> set needed. col \<le> n"
  shows "decode_columns L (pre @ concat (map (encode_value L) vs) @ s) (length vs) col needed (length pre) =
    Some (map (\<lambda>i. if col + i \<in> set needed then vs ! i else Null) [0..<length vs])"
  using assms(2-)
proof (induction vs arbitrary: pre col needed)
  case (Cons v vs)
  let ?rest = "concat (map (encode_value L) vs) @ s"
  have split: "map (\<lambda>i. if col + i \<in> set needed then (v # vs) ! i else Null) [0..<length (v # vs)] =
      (if col \<in> set needed then v else Null) # map (\<lambda>i. if Suc col + i \<in> set needed then vs ! i else Null) [0..<length vs]"
    by (simp add: map_upt_Suc del: upt_Suc)
  have plains: "\<forall>i < length vs. Suc col + i \<notin> set needed \<longrightarrow> plain L (vs ! i)"
    using Cons.prems(2) by (metis Suc_less_eq add_Suc_shift length_Cons nth_Cons_Suc)
  show ?case
  proof (cases "needed \<noteq> [] \<and> hd needed = col")
    case True
    then obtain ns where ns: "needed = col # ns" by (cases needed) auto
    have "decode_columns L ((pre @ encode_value L v) @ ?rest) (length vs) (Suc col) ns (length (pre @ encode_value L v)) =
        Some (map (\<lambda>i. if Suc col + i \<in> set ns then vs ! i else Null) [0..<length vs])"
      by (rule Cons.IH) (use Cons.prems plains ns in auto)
    then show ?thesis
      unfolding split using decode_encode [OF assms(1), of v pre ?rest] Cons.prems(1) ns by simp
  next
    case False
    then have nc: "col \<notin> set needed"
      using Cons.prems(3,4) by (cases needed) auto
    have later: "\<forall>n \<in> set needed. Suc col \<le> n" using nc Cons.prems(4) by (metis Suc_leI le_neq_implies_less)
    have "decode_columns L ((pre @ encode_value L v) @ ?rest) (length vs) (Suc col) needed (length (pre @ encode_value L v)) =
        Some (map (\<lambda>i. if Suc col + i \<in> set needed then vs ! i else Null) [0..<length vs])"
      by (rule Cons.IH) (use Cons.prems plains later in auto)
    moreover have "plain L v" using Cons.prems(2) nc by force
    ultimately show ?thesis
      unfolding split using skip_encode [of L v pre ?rest] Cons.prems(1) nc False by (simp add: storable_def) blast
  qed
qed simp

lemma skip_many_encode:
  assumes "\<forall>v \<in> set (take i vs). val_ok L v \<and> plain L v" and "i \<le> length vs"
  shows "skip_many (pre @ concat (map (encode_value L) vs) @ s) i (length pre) =
    Some (length (pre @ concat (map (encode_value L) (take i vs))))"
  using assms
proof (induction i arbitrary: pre vs)
  case (Suc i)
  then obtain v ws where vs: "vs = v # ws" by (cases vs) auto
  then show ?case
    using skip_encode [of L v pre "concat (map (encode_value L) ws) @ s"] Suc.IH [of ws "pre @ encode_value L v"] Suc.prems
    by simp
qed simp

text \<open>The stored row, split at the start of a column.\<close>

lemma column_offset_encode:
  assumes "i < length vs" and "length vs < 256" and "\<forall>v \<in> set (take i vs). val_ok L v \<and> plain L v"
  obtains pre s where "serialize L vs = pre @ encode_value L (vs ! i) @ s" and "column_offset (serialize L vs) i = Some (length pre)"
proof -
  let ?pre = "of_nat (length vs) # concat (map (encode_value L) (take i vs))"
  have "vs = take i vs @ vs ! i # drop (Suc i) vs" by (rule id_take_nth_drop [OF assms(1)])
  then have "concat (map (encode_value L) vs) = concat (map (encode_value L) (take i vs)) @ encode_value L (vs ! i) @
      concat (map (encode_value L) (drop (Suc i) vs))"
    by (metis concat.simps(2) concat_append list.simps(9) map_append)
  then have "serialize L vs = ?pre @ encode_value L (vs ! i) @ concat (map (encode_value L) (drop (Suc i) vs))"
    by (simp add: serialize_def)
  moreover have "column_offset (serialize L vs) i = Some (length ?pre)"
    using skip_many_encode [OF assms(3), of "[of_nat (length vs)]" "[]"] assms(1,2)
    by (simp add: column_offset_def serialize_def unat_of_nat)
  ultimately show thesis by (rule that)
qed

section \<open>Comparing in place\<close>

lemma range_shift_0: "rd_range (Suc (length pre)) n (pre @ xs) = rd_range 1 n xs"
  using range_shift(2) [of pre 0 n xs] by simp

lemma lp_at_shift_0: "lp_at (pre @ xs) (Suc (length pre)) = map_option (map_prod id ((+) (length pre))) (lp_at xs (Suc 0))"
  using lp_at_shift [of pre xs 1] by simp

lemmas column_at = range_shift_0 lp_at_shift_0 nth_append encode_value_def rd_range_def lp_at_enc

definition raw_cmp :: "'j val \<Rightarrow> 'j val \<Rightarrow> ordering option" where
  "raw_cmp v lit = (case lit of
     VInt64 b \<Rightarrow> (case v of VInt64 a \<Rightarrow> Some (scmp a b) | VTimestamp a \<Rightarrow> Some (scmp a b) | _ \<Rightarrow> None)
   | VFloat64 b \<Rightarrow> (case v of VFloat64 a \<Rightarrow> f64_partial_cmp a b | VInt64 a \<Rightarrow> f64_partial_cmp (i64_as_f64 a) b | _ \<Rightarrow> None)
   | VText b \<Rightarrow> (case v of VText a \<Rightarrow> Some (cmp a b) | _ \<Rightarrow> None)
   | _ \<Rightarrow> None)"

lemma envelope_tag: "compress L b = Some (c, a) \<Longrightarrow> \<exists>bs. c = 12 # bs \<or> c = 13 # bs"
  by (erule compress_cases) (auto simp: envelope_def)

lemma bytes_tag: "\<exists>t bs. encode_value L (VBytes b) = t # bs \<and> t \<in> {5, 12, 13}"
  using envelope_tag [of L b] by (auto simp: encode_value_def split: option.split prod.split)

lemma compare_int64_encode:
  assumes "val_ok L v" and "column_offset (pre @ encode_value L v @ s) i = Some (length pre)"
  shows "compare_column_int64 (pre @ encode_value L v @ s) i b = raw_cmp v (VInt64 b)"
proof (cases v)
  case (VBytes x)
  then show ?thesis
    using assms(2) bytes_tag [of L x] by (auto simp: compare_column_int64_def raw_cmp_def nth_append)
qed (use assms in \<open>simp_all add: compare_column_int64_def raw_cmp_def column_at Let_def\<close>)

lemma compare_float64_encode:
  assumes "val_ok L v" and "column_offset (pre @ encode_value L v @ s) i = Some (length pre)"
  shows "compare_column_float64 (pre @ encode_value L v @ s) i b = raw_cmp v (VFloat64 b)"
proof (cases v)
  case (VBytes x)
  then show ?thesis
    using assms(2) bytes_tag [of L x] by (auto simp: compare_column_float64_def raw_cmp_def nth_append)
qed (use assms in \<open>simp_all add: compare_column_float64_def raw_cmp_def column_at Let_def\<close>)

lemma compare_text_encode:
  assumes "val_ok L v" and "column_offset (pre @ encode_value L v @ s) i = Some (length pre)"
  shows "compare_column_text (pre @ encode_value L v @ s) i b = raw_cmp v (VText b)"
proof (cases v)
  case (VBytes x)
  then show ?thesis
    using assms(2) bytes_tag [of L x] by (auto simp: compare_column_text_def raw_cmp_def nth_append)
qed (use assms in \<open>simp_all add: compare_column_text_def raw_cmp_def column_at val_ok_def Let_def\<close>)

lemma raw_filter_encode:
  assumes "val_ok L v" and "column_offset (pre @ encode_value L v @ s) i = Some (length pre)"
  shows "raw_filter_matches (pre @ encode_value L v @ s) i op lit = map_option (op_matches op) (raw_cmp v lit)"
  by (cases lit) (simp_all add: raw_filter_matches_def compare_int64_encode [OF assms]
    compare_float64_encode [OF assms] compare_text_encode [OF assms] map_conv_bind_option comp_def, simp_all add: raw_cmp_def)

lemma raw_cmp_compare: "raw_cmp v lit = Some c \<Longrightarrow> data_type_of v \<noteq> Some TTimestamp \<Longrightarrow> compare v lit = Some c"
  by (cases v; cases lit) (simp_all add: raw_cmp_def)

section \<open>Validation\<close>




section \<open>Properties\<close>

text \<open>C16. Round trip of rows: a row of at most 255 values, in which texts are UTF-8, texts, byte strings and JSON texts are shorter than
\<open>2 ^ 32\<close> bytes and every JSON value is read back from its own text, reads back from its stored bytes as the same row.\<close>

theorem tuple_roundtrip:
  assumes "libs_ok L" and "\<forall>v \<in> set vs. storable L v" and "length vs < 256"
  shows "deserialize L (serialize L vs) = Some vs"
  using decode_values_encode [OF assms(1,2), of "[of_nat (length vs)]" "[]"] assms(3)
  by (simp add: deserialize_def deserialize_to_vec_def serialize_def unat_of_nat)

definition sample_libs :: "unit libs" where
  "sample_libs = \<lparr>lz4_compress = (\<lambda>b. if b = replicate 1024 0 then [0] else 1 # b),
     lz4_decompress = (\<lambda>c n. if c = [0] then Some (replicate 1024 0) else Some (tl c)),
     zstd_compress = (\<lambda>b. None), zstd_decode_all = (\<lambda>c. None),
     json_to_string = (\<lambda>_. [110, 117, 108, 108]), json_from_str = (\<lambda>_. Some ())\<rparr>"

lemma sample_libs_ok: "libs_ok sample_libs"
  by (simp add: libs_ok_def sample_libs_def)

lemma sample_compress: "compress sample_libs (replicate 1024 0) = Some (envelope 12 1024 [0], Lz4)"
  by (simp add: compress_def sample_libs_def MIN_COMPRESS_SIZE_def)

theorem tuple_roundtrip_witness:
  "deserialize sample_libs (serialize sample_libs [VText [104, 105], Null, VJson (), VBytes (replicate 1024 0), VInt64 7]) =
    Some [VText [104, 105], Null, VJson (), VBytes (replicate 1024 0), VInt64 7]"
  by (rule tuple_roundtrip [OF sample_libs_ok]) (simp_all add: storable_def val_ok_def json_ok_def fits32_def sample_libs_def)

text \<open>C17. From a stored row of at most 255 values that fit the format and of which every JSON value is read back from its own text, reading only the needed columns, given in ascending order, returns them, and null for the
others, as long as every column that is skipped is stored uncompressed.\<close>

theorem deserialize_columns_correct:
  assumes "libs_ok L" and "\<forall>v \<in> set vs. storable L v" and "length vs < 256"
    and "sorted_wrt (<) needed" and "\<forall>i < length vs. i \<notin> set needed \<longrightarrow> plain L (vs ! i)"
  shows "deserialize_columns L (serialize L vs) needed =
    Some (map (\<lambda>i. if i \<in> set needed then vs ! i else Null) [0..<length vs])"
  using decode_columns_encode [OF assms(1,2), of 0 needed "[of_nat (length vs)]" "[]"] assms(3-)
  by (simp add: deserialize_columns_def serialize_def unat_of_nat)

theorem deserialize_columns_correct_witness:
  "deserialize_columns sample_libs (serialize sample_libs [VBool True, VText [104], VInt64 7]) [0, 2] =
    Some [VBool True, Null, VInt64 7]"
proof -
  let ?vs = "[VBool True, VText [104], VInt64 7] :: unit val list"
  have "\<forall>i < length ?vs. i \<notin> set [0, 2] \<longrightarrow> plain sample_libs (?vs ! i)"
    by (simp add: plain_def less_Suc_eq numeral_3_eq_3 All_less_Suc)
  then show ?thesis
    using deserialize_columns_correct [OF sample_libs_ok, of ?vs "[0, 2]"] by (simp add: storable_def val_ok_def json_ok_def fits32_def)
qed



text \<open>C19. Skipping a compressed value ends one byte after its end, so the columns behind a compressed one are
looked up one byte too far: \<open>column_offset\<close> of the second column is off by one.\<close>

theorem skip_compressed_one_too_far:
  assumes "libs_ok L" and "fits32 b" and "compress L b = Some (c, a)"
  shows "serialize L [VBytes b, v] = (serialize L [VBytes b])[0 := 2] @ encode_value L v \<and>
    column_offset (serialize L [VBytes b, v]) 1 = Some (length (serialize L [VBytes b]) + 1)"
proof -
  have "skip_value ([2] @ c @ encode_value L v) (length [2 :: u8] + 0) = Some (2 + length c)"
    unfolding skip_value_shift using decode_compressed [OF assms, of "encode_value L v"] by simp
  then show ?thesis
    using assms(3) by (simp add: column_offset_def serialize_def encode_value_def)
qed

theorem skip_compressed_one_too_far_witness:
  "column_offset (serialize sample_libs [VBytes (replicate 1024 0), VInt64 7]) 1 =
    Some (length (serialize sample_libs [VBytes (replicate 1024 0)]) + 1)"
  by (rule conjunct2 [OF skip_compressed_one_too_far [OF sample_libs_ok _ sample_compress]]) (simp add: fits32_def)

text \<open>C20. On a stored row of at most 255 values that fit the format, at a column that is no timestamp (the filter compares
timestamps with integer literals) and before which all columns are stored uncompressed, the filter that works on the stored bytes, without decoding the row,
decides only as the comparison of the column with the literal does, and for integer, float and text columns with a literal of their type it
decides exactly when the two are comparable.\<close>

theorem raw_filter_agrees:
  assumes "\<forall>v \<in> set vs. val_ok L v" and "length vs < 256" and "i < length vs" and "\<forall>v \<in> set (take i vs). plain L v"
    and "data_type_of (vs ! i) \<noteq> Some TTimestamp"
  shows "(\<forall>r. raw_filter_matches (serialize L vs) i op lit = Some r \<longrightarrow> (\<exists>c. compare (vs ! i) lit = Some c \<and> r = op_matches op c)) \<and>
    (data_type_of lit \<in> {Some TInt64, Some TFloat64, Some TText} \<and> data_type_of (vs ! i) = data_type_of lit \<longrightarrow>
      raw_filter_matches (serialize L vs) i op lit = map_option (op_matches op) (compare (vs ! i) lit))"
proof -
  have "\<forall>v \<in> set (take i vs). val_ok L v \<and> plain L v" using assms(1,4) by (meson in_set_takeD)
  then obtain pre s where "serialize L vs = pre @ encode_value L (vs ! i) @ s" "column_offset (serialize L vs) i = Some (length pre)"
    by (rule column_offset_encode [OF assms(3,2)])
  then have raw: "raw_filter_matches (serialize L vs) i op lit = map_option (op_matches op) (raw_cmp (vs ! i) lit)"
    using raw_filter_encode [of L "vs ! i" pre s i op lit] assms(1,3) by simp
  have "raw_cmp (vs ! i) lit = compare (vs ! i) lit"
    if "data_type_of lit \<in> {Some TInt64, Some TFloat64, Some TText}" "data_type_of (vs ! i) = data_type_of lit"
    using that by (cases lit; cases "vs ! i") (simp_all add: raw_cmp_def)
  moreover have "\<exists>c. compare (vs ! i) lit = Some c \<and> r = op_matches op c"
    if "map_option (op_matches op) (raw_cmp (vs ! i) lit) = Some r" for r
    using that raw_cmp_compare [of "vs ! i" lit] assms(5) by (cases "raw_cmp (vs ! i) lit") simp_all
  ultimately show ?thesis unfolding raw by simp
qed

theorem raw_filter_agrees_witness:
  "raw_filter_matches (serialize sample_libs [VBool True, VInt64 7]) 1 2 (VInt64 9 :: unit val) = Some True"
  using raw_filter_agrees [of "[VBool True, VInt64 7]" sample_libs 1 2 "VInt64 9"]
  by (simp add: val_ok_def plain_def op_matches_def scmp_def cmp_def)

end
