(* ===== verification/Locks.thy ===== *)
theory Locks
  imports Prelude "HOL-Library.AList" "HOL-Library.Monad_Syntax"
begin

text \<open>
  The lock manager, \<open>bytedb-core/src/mvcc/lock_manager.rs\<close>. Every public operation runs under the mutex of the
  lock table, so it is one step on the table; an \<open>acquire\<close> that has to wait gives the mutex up and tries
  again later, so it is a sequence of attempts with steps of other transactions between them. The clock is an
  argument (the time an \<open>acquire\<close> has already spent, in microseconds). The hash map is an
  association list: no result depends on its order.
\<close>

section \<open>Lock states\<close>

datatype lock_mode = Shared | Exclusive

record lock_key =
  lk_table :: string
  lk_key :: bytes

record lock_holder =
  h_txn :: u64
  h_mode :: lock_mode

record wait_entry =
  w_txn :: u64
  w_mode :: lock_mode

record lock_state =
  holders :: "lock_holder list"
  waiters :: "wait_entry list"

definition lock_state_default :: lock_state where
  "lock_state_default = \<lparr>holders = [], waiters = []\<rparr>"

definition is_compatible :: "lock_state \<Rightarrow> lock_mode \<Rightarrow> u64 \<Rightarrow> bool" where
  "is_compatible st mode requesting =
     (if holders st = [] then True
      else if list_all (\<lambda>h. h_txn h = requesting) (holders st) then True
      else case mode of
        Shared \<Rightarrow> list_all (\<lambda>h. h_mode h = Shared) (holders st)
      | Exclusive \<Rightarrow> False)"

text \<open>The first holder with the transaction's id is upgraded, if there is one.\<close>

fun upgrade_first :: "u64 \<Rightarrow> lock_mode \<Rightarrow> lock_holder list \<Rightarrow> lock_holder list option" where
  "upgrade_first txn mode [] = None"
| "upgrade_first txn mode (h # hs) =
     (if h_txn h = txn then Some ((if mode = Exclusive then h\<lparr>h_mode := Exclusive\<rparr> else h) # hs)
      else map_option ((#) h) (upgrade_first txn mode hs))"

definition add_holder :: "u64 \<Rightarrow> lock_mode \<Rightarrow> lock_state \<Rightarrow> lock_state" where
  "add_holder txn mode st =
     (case upgrade_first txn mode (holders st) of
        Some hs \<Rightarrow> st\<lparr>holders := hs\<rparr>
      | None \<Rightarrow> st\<lparr>holders := holders st @ [\<lparr>h_txn = txn, h_mode = mode\<rparr>]\<rparr>)"

definition remove_holder :: "u64 \<Rightarrow> lock_state \<Rightarrow> lock_state \<times> bool" where
  "remove_holder txn st =
     (let hs = filter (\<lambda>h. h_txn h \<noteq> txn) (holders st)
      in (st\<lparr>holders := hs\<rparr>, length hs \<noteq> length (holders st)))"

definition remove_waiter :: "u64 \<Rightarrow> lock_state \<Rightarrow> lock_state" where
  "remove_waiter txn st = st\<lparr>waiters := filter (\<lambda>w. w_txn w \<noteq> txn) (waiters st)\<rparr>"

section \<open>The manager\<close>

record lock_metrics =
  acquires :: u64
  releases :: u64
  waits :: u64
  timeouts :: u64
  deadlocks :: u64
  total_wait_micros :: u64

record lock_manager =
  locks :: "(lock_key \<times> lock_state) list"
  metrics :: lock_metrics
  default_timeout :: nat
  deadlock_check_interval :: u64

definition lock_manager_new :: lock_manager where
  "lock_manager_new = \<lparr>locks = [],
     metrics = \<lparr>acquires = 0, releases = 0, waits = 0, timeouts = 0, deadlocks = 0, total_wait_micros = 0\<rparr>,
     default_timeout = 5000000, deadlock_check_interval = 50\<rparr>"

definition set_default_timeout :: "nat \<Rightarrow> lock_manager \<Rightarrow> lock_manager" where
  "set_default_timeout d m = m\<lparr>default_timeout := d\<rparr>"

definition set_deadlock_check_interval_ms :: "u64 \<Rightarrow> lock_manager \<Rightarrow> lock_manager" where
  "set_deadlock_check_interval_ms ms m = m\<lparr>deadlock_check_interval := ms\<rparr>"

definition entry_of :: "lock_manager \<Rightarrow> lock_key \<Rightarrow> lock_state" where
  "entry_of m k = (case map_of (locks m) k of Some st \<Rightarrow> st | None \<Rightarrow> lock_state_default)"

definition put_entry :: "lock_key \<Rightarrow> lock_state \<Rightarrow> lock_manager \<Rightarrow> lock_manager" where
  "put_entry k st m = m\<lparr>locks := AList.update k st (locks m)\<rparr>"

fun grant_loop :: "wait_entry list \<Rightarrow> lock_state \<Rightarrow> lock_state" where
  "grant_loop [] st = st\<lparr>waiters := []\<rparr>"
| "grant_loop (w # ws) st =
     (if is_compatible st (w_mode w) (w_txn w) then grant_loop ws (add_holder (w_txn w) (w_mode w) st)
      else st\<lparr>waiters := w # ws\<rparr>)"

definition grant_pending :: "lock_state \<Rightarrow> lock_state" where
  "grant_pending st = grant_loop (waiters st) st"

section \<open>Deadlock detection\<close>

definition waits_for :: "lock_manager \<Rightarrow> (u64 \<times> u64) list" where
  "waits_for m = concat (map (\<lambda>(_, st).
     [(w_txn w, h_txn h). w \<leftarrow> waiters st, h \<leftarrow> holders st, h_txn h \<noteq> w_txn w]) (locks m))"

definition neighbors :: "(u64 \<times> u64) list \<Rightarrow> u64 \<Rightarrow> u64 list" where
  "neighbors E n = remdups (map snd (filter (\<lambda>e. fst e = n) E))"

text \<open>
  The depth-first search: the top of the stack is the head of the list, and the nodes on the path are kept apart
  from the stack, as in the source.
\<close>

partial_function (option) dfs_loop :: "(u64 \<times> u64) list \<Rightarrow> u64 list \<Rightarrow> u64 list \<Rightarrow> u64 list \<Rightarrow> bool option" where
  "dfs_loop E visited stack on_path =
     (case stack of
        [] \<Rightarrow> Some False
      | node # rest \<Rightarrow>
          (case filter (\<lambda>n. n \<notin> set visited) (neighbors E node) of
             next # _ \<Rightarrow>
               if next \<in> set on_path then Some True
               else dfs_loop E visited (next # stack) (next # on_path)
           | [] \<Rightarrow> dfs_loop E (node # visited) rest (removeAll node on_path)))"

definition detect_deadlock :: "lock_manager \<Rightarrow> u64 \<Rightarrow> bool option" where
  "detect_deadlock m starting = dfs_loop (waits_for m) [] [starting] [starting]"

section \<open>Operations\<close>

datatype attempt = Granted | Failed core_error | MustWait

definition bump_acquire :: "nat \<Rightarrow> lock_metrics \<Rightarrow> lock_metrics" where
  "bump_acquire waited x =
     (let x = x\<lparr>acquires := acquires x + 1\<rparr>
      in if waited > 0 then x\<lparr>total_wait_micros := total_wait_micros x + of_nat waited\<rparr> else x)"

text \<open>
  One turn of the loop of \<open>acquire_with_timeout\<close>; \<open>MustWait\<close> is the wait on the condition variable.
\<close>

definition acquire_attempt ::
  "u64 \<Rightarrow> lock_key \<Rightarrow> lock_mode \<Rightarrow> nat \<Rightarrow> nat \<Rightarrow> lock_manager \<Rightarrow> (lock_manager \<times> attempt) option"
where
  "acquire_attempt txn key mode timeout elapsed m =
     (let st = entry_of m key in
      if is_compatible st mode txn
      then Some ((put_entry key (add_holder txn mode st) m)\<lparr>metrics := bump_acquire elapsed (metrics m)\<rparr>, Granted)
      else
        let m1 =
          (if list_ex (\<lambda>w. w_txn w = txn) (waiters st) then put_entry key st m
           else (put_entry key (st\<lparr>waiters := waiters st @ [\<lparr>w_txn = txn, w_mode = mode\<rparr>]\<rparr>) m)
             \<lparr>metrics := (metrics m)\<lparr>waits := waits (metrics m) + 1\<rparr>\<rparr>)
        in do {
          cyc \<leftarrow> detect_deadlock m1 txn;
          let m2 = put_entry key (remove_waiter txn (entry_of m1 key)) m1;
          if cyc
          then Some (m2\<lparr>metrics := (metrics m2)\<lparr>deadlocks := deadlocks (metrics m2) + 1\<rparr>\<rparr>, Failed Deadlock)
          else if elapsed \<ge> timeout
          then Some (m2\<lparr>metrics := (metrics m2)\<lparr>timeouts := timeouts (metrics m2) + 1,
                 total_wait_micros := total_wait_micros (metrics m2) + of_nat elapsed\<rparr>\<rparr>, Failed (LockTimeout txn))
          else Some (m1, MustWait) })"

definition drop_if_empty :: "lock_key \<Rightarrow> lock_state \<Rightarrow> (lock_key \<times> lock_state) list \<Rightarrow> (lock_key \<times> lock_state) list" where
  "drop_if_empty k st ls = (if holders st = [] \<and> waiters st = [] then AList.delete k ls else AList.update k st ls)"

definition release :: "u64 \<Rightarrow> lock_key \<Rightarrow> lock_manager \<Rightarrow> lock_manager" where
  "release txn key m =
     (case map_of (locks m) key of
        None \<Rightarrow> m
      | Some st \<Rightarrow>
          let (st1, removed) = remove_holder txn st;
              st2 = grant_pending st1
          in m\<lparr>locks := drop_if_empty key st2 (locks m),
               metrics := (if removed then (metrics m)\<lparr>releases := releases (metrics m) + 1\<rparr> else metrics m)\<rparr>)"

definition release_state :: "u64 \<Rightarrow> lock_state \<Rightarrow> lock_state" where
  "release_state txn st = grant_pending (remove_waiter txn (fst (remove_holder txn st)))"

definition release_all :: "u64 \<Rightarrow> lock_manager \<Rightarrow> lock_manager" where
  "release_all txn m =
     (let removed = length (filter (\<lambda>(_, st). snd (remove_holder txn st)) (locks m));
          ls = map (\<lambda>(k, st). (k, release_state txn st)) (locks m)
      in m\<lparr>locks := filter (\<lambda>(_, st). \<not> (holders st = [] \<and> waiters st = [])) ls,
           metrics := (metrics m)\<lparr>releases := releases (metrics m) + of_nat removed\<rparr>\<rparr>)"

section \<open>Runs\<close>

text \<open>The steps that any number of transactions take, in any order.\<close>

inductive lock_step :: "lock_manager \<Rightarrow> lock_manager \<Rightarrow> bool" where
  acq: "acquire_attempt txn key mode timeout elapsed m = Some (m', r) \<Longrightarrow> lock_step m m'"
| rel: "lock_step m (release txn key m)"
| rel_all: "lock_step m (release_all txn m)"
| timeout: "lock_step m (set_default_timeout d m)"
| interval: "lock_step m (set_deadlock_check_interval_ms ms m)"

inductive reachable :: "lock_manager \<Rightarrow> bool" where
  start: "reachable lock_manager_new"
| step: "reachable m \<Longrightarrow> lock_step m m' \<Longrightarrow> reachable m'"


section \<open>Exclusion\<close>

definition holders_ok :: "lock_holder list \<Rightarrow> bool" where
  "holders_ok hs \<longleftrightarrow> distinct (map h_txn hs) \<and> (\<forall>h \<in> set hs. h_mode h = Exclusive \<longrightarrow> hs = [h])"

definition state_ok :: "lock_state \<Rightarrow> bool" where
  "state_ok st \<longleftrightarrow> holders_ok (holders st) \<and> (waiters st \<noteq> [] \<longrightarrow> holders st \<noteq> [])"

lemma upgrade_first_cases:
  "(upgrade_first txn mode hs = None \<longleftrightarrow> txn \<notin> h_txn ` set hs) \<and>
   (\<forall>hs'. upgrade_first txn mode hs = Some hs' \<longrightarrow>
      map h_txn hs' = map h_txn hs \<and> (mode = Shared \<longrightarrow> hs' = hs) \<and> txn \<in> h_txn ` set hs' \<and>
      (mode = Exclusive \<longrightarrow> (\<exists>h \<in> set hs'. h_txn h = txn \<and> h_mode h = Exclusive)))"
proof (induction hs)
  case (Cons h hs)
  then show ?case by (cases mode) auto
qed simp

lemma holders_ok_Nil [simp]: "holders_ok []"
  by (simp add: holders_ok_def)

lemma all_same_txn:
  assumes "holders_ok hs" and "hs \<noteq> []" and "list_all (\<lambda>h. h_txn h = txn) hs"
  obtains h where "hs = [h]" and "h_txn h = txn"
proof -
  obtain h hs' where hs: "hs = h # hs'" using assms(2) by (cases hs) auto
  have "hs' = []" using assms(1,3) by (cases hs') (auto simp: hs holders_ok_def)
  then show thesis using that hs assms(3) by simp
qed

lemma add_holder_ok:
  assumes "holders_ok (holders st)" and "is_compatible st mode txn"
  shows "holders_ok (holders (add_holder txn mode st)) \<and> holders (add_holder txn mode st) \<noteq> []"
proof (cases "holders st = [] \<or> list_all (\<lambda>h. h_txn h = txn) (holders st)")
  case True
  show ?thesis
  proof (cases "holders st = []")
    case True
    then show ?thesis by (simp add: add_holder_def holders_ok_def)
  next
    case False
    then obtain h where "holders st = [h]" "h_txn h = txn" using True all_same_txn [OF assms(1) False] by blast
    then show ?thesis by (simp add: add_holder_def holders_ok_def)
  qed
next
  case False
  then have s: "mode = Shared" "\<forall>h \<in> set (holders st). h_mode h = Shared"
    using assms(2) by (auto simp: is_compatible_def list_all_iff split: lock_mode.splits if_splits)
  show ?thesis
  proof (cases "upgrade_first txn mode (holders st)")
    case None
    then have "txn \<notin> h_txn ` set (holders st)" using upgrade_first_cases [of txn mode "holders st"] by blast
    then show ?thesis using s assms(1) None by (auto simp: add_holder_def holders_ok_def)
  next
    case (Some hs)
    then have "hs = holders st" using upgrade_first_cases [of txn mode "holders st"] s(1) by blast
    then show ?thesis using Some assms(1) False by (simp add: add_holder_def)
  qed
qed

lemma add_holder_waiters [simp]: "waiters (add_holder txn mode st) = waiters st"
  by (simp add: add_holder_def split: option.split)

lemma add_holder_mem: "txn \<in> h_txn ` set (holders (add_holder txn mode st))"
  using upgrade_first_cases [of txn mode "holders st"] by (auto simp: add_holder_def split: option.split)

lemma add_holder_txns: "h_txn ` set (holders (add_holder txn mode st)) = insert txn (h_txn ` set (holders st))"
proof (cases "upgrade_first txn mode (holders st)")
  case (Some hs)
  then have "map h_txn hs = map h_txn (holders st)" "txn \<in> h_txn ` set hs"
    using upgrade_first_cases [of txn mode "holders st"] by blast+
  then show ?thesis using Some by (auto simp: add_holder_def) (metis image_eqI image_set)+
qed (simp add: add_holder_def)

lemma not_compatible_holders: "\<not> is_compatible st mode txn \<Longrightarrow> holders st \<noteq> []"
  by (auto simp: is_compatible_def)

lemma grant_loop_ok: "holders_ok (holders st) \<Longrightarrow> state_ok (grant_loop ws st)"
  by (induction ws arbitrary: st) (auto simp: state_ok_def add_holder_ok not_compatible_holders)

lemma grant_loop_waiters: "set (waiters (grant_loop ws st)) \<subseteq> set ws"
  by (induction ws arbitrary: st) auto

lemma grant_loop_txns:
  "h_txn ` set (holders (grant_loop ws st)) \<subseteq> h_txn ` set (holders st) \<union> w_txn ` set ws"
proof (induction ws arbitrary: st)
  case (Cons w ws)
  then show ?case using Cons.IH [of "add_holder (w_txn w) (w_mode w) st"] by (auto simp: add_holder_txns)
qed simp

lemma grant_loop_keeps: "h_txn ` set (holders st) \<subseteq> h_txn ` set (holders (grant_loop ws st))"
proof (induction ws arbitrary: st)
  case (Cons w ws)
  then show ?case using Cons.IH [of "add_holder (w_txn w) (w_mode w) st"] by (auto simp: add_holder_txns)
qed simp

lemma holders_ok_filter: "holders_ok hs \<Longrightarrow> holders_ok (filter P hs)"
  unfolding holders_ok_def by (auto simp: distinct_map_filter)

lemma release_state_ok: "state_ok st \<Longrightarrow> state_ok (release_state txn st)"
  unfolding release_state_def grant_pending_def
  by (intro grant_loop_ok) (simp add: state_ok_def remove_waiter_def remove_holder_def Let_def holders_ok_filter)

section \<open>The table\<close>

definition mgr_ok :: "lock_manager \<Rightarrow> bool" where
  "mgr_ok m \<longleftrightarrow> distinct (map fst (locks m)) \<and> (\<forall>k. state_ok (entry_of m k))"

lemma entry_ok: "mgr_ok m \<Longrightarrow> state_ok (entry_of m k)"
  by (simp add: mgr_ok_def)

lemma entry_put [simp]: "entry_of (put_entry k st m) k' = (if k' = k then st else entry_of m k')"
  by (simp add: entry_of_def put_entry_def update_conv)

lemma put_entry_ok: "mgr_ok m \<Longrightarrow> state_ok st \<Longrightarrow> mgr_ok (put_entry k st m)"
  by (simp add: mgr_ok_def) (simp add: put_entry_def distinct_update)

lemma entry_of_metrics [simp]: "entry_of (m\<lparr>metrics := x\<rparr>) k = entry_of m k"
  by (simp add: entry_of_def)

lemma mgr_ok_metrics [simp]: "mgr_ok (m\<lparr>metrics := x\<rparr>) = mgr_ok m"
  by (simp add: mgr_ok_def)

lemma map_of_map_filter:
  assumes "distinct (map fst xs)"
  shows "map_of (filter (\<lambda>(_, v). P v) (map (\<lambda>(k, v). (k, f v)) xs)) k =
    (case map_of xs k of Some v \<Rightarrow> if P (f v) then Some (f v) else None | None \<Rightarrow> None)"
  using assms by (induction xs) (auto split: option.splits simp: map_of_eq_None_iff rev_image_eqI dest!: map_of_SomeD)

lemma empty_state: "holders st = [] \<and> waiters st = [] \<longleftrightarrow> st = lock_state_default"
  by (cases st) (simp add: lock_state_default_def)

section \<open>The search for a cycle\<close>

text \<open>A finished node has only finished neighbours, all of which finished before it.\<close>

fun finished :: "(u64 \<times> u64) list \<Rightarrow> u64 list \<Rightarrow> bool" where
  "finished E [] = True"
| "finished E (n # V) = ((\<forall>k. (n, k) \<in> set E \<longrightarrow> k \<in> set V) \<and> n \<notin> set V \<and> finished E V)"

fun path_up :: "(u64 \<times> u64) list \<Rightarrow> u64 list \<Rightarrow> bool" where
  "path_up E (a # b # S) = ((b, a) \<in> set E \<and> path_up E (b # S))"
| "path_up E _ = True"

definition dfs_inv :: "(u64 \<times> u64) list \<Rightarrow> u64 \<Rightarrow> u64 list \<Rightarrow> u64 list \<Rightarrow> u64 list \<Rightarrow> bool" where
  "dfs_inv E start V S P \<longleftrightarrow> set P = set S \<and> distinct S \<and> set S \<inter> set V = {} \<and> finished E V \<and> path_up E S \<and>
     set S \<union> set V \<subseteq> insert start (snd ` set E) \<and> (if S = [] then start \<in> set V else last S = start)"

definition cycle_from :: "(u64 \<times> u64) list \<Rightarrow> u64 \<Rightarrow> bool" where
  "cycle_from E start \<longleftrightarrow> (\<exists>n. (start, n) \<in> (set E)\<^sup>* \<and> (n, n) \<in> (set E)\<^sup>+)"

lemma mem_neighbors [simp]: "k \<in> set (neighbors E n) \<longleftrightarrow> (n, k) \<in> set E"
  by (force simp: neighbors_def)

lemma finished_edge: "finished E V \<Longrightarrow> (n, k) \<in> set E \<Longrightarrow> n \<in> set V \<Longrightarrow> k \<in> set V"
  by (induction V) auto

lemma finished_trancl: "(n, k) \<in> (set E)\<^sup>+ \<Longrightarrow> finished E V \<Longrightarrow> n \<in> set V \<Longrightarrow> k \<in> set V"
  by (induction rule: trancl_induct) (auto intro: finished_edge)

lemma finished_acyclic: "finished E V \<Longrightarrow> n \<in> set V \<Longrightarrow> (n, n) \<notin> (set E)\<^sup>+"
proof (induction V)
  case (Cons v V)
  show ?case
  proof (cases "n = v")
    case True
    have "k \<in> set V" if "(v, k) \<in> (set E)\<^sup>+" for k
      using that
    proof (induction rule: trancl_induct)
      case (step k l)
      then show ?case using finished_edge [of E V k l] Cons.prems(1) by auto
    qed (use Cons.prems(1) in auto)
    then show ?thesis using True Cons.prems(1) by auto
  qed (use Cons in auto)
qed simp

lemma path_up_reach: "path_up E S \<Longrightarrow> n \<in> set S \<Longrightarrow> (n, hd S) \<in> (set E)\<^sup>*"
proof (induction E S rule: path_up.induct)
  case (1 E a b S)
  then show ?case by (cases "n = a") (auto intro: rtrancl_into_rtrancl)
qed auto

lemma path_up_last: "path_up E S \<Longrightarrow> \<forall>n \<in> set S. (last S, n) \<in> (set E)\<^sup>*"
proof (induction E S rule: path_up.induct)
  case (1 E a b S)
  then have l: "\<forall>k \<in> set (b # S). (last (b # S), k) \<in> (set E)\<^sup>*" by simp
  then have "(last (b # S), b) \<in> (set E)\<^sup>*" by simp
  then have "(last (b # S), a) \<in> (set E)\<^sup>*" using 1(2) by (meson path_up.simps(1) rtrancl_into_rtrancl)
  then show ?case using l by simp
qed auto

lemma dfs_exact:
  "dfs_inv E start V S P \<Longrightarrow> dfs_loop E V S P = Some (cycle_from E start)"
proof (induction "2 * card (insert start (snd ` set E) - set V) - length S" arbitrary: V S P rule: less_induct)
  case less
  let ?U = "insert start (snd ` set E)"
  show ?case
  proof (cases S)
    case Nil
    have "start \<in> set V" "finished E V" using less.prems Nil by (auto simp: dfs_inv_def)
    then have "\<not> cycle_from E start"
      unfolding cycle_from_def using finished_trancl finished_acyclic by (metis rtranclD)
    then show ?thesis using Nil by (subst dfs_loop.simps) simp
  next
    case (Cons node rest)
    note inv = less.prems [unfolded dfs_inv_def Cons]
    have fin: "finite ?U" by simp
    have card: "length S \<le> card (?U - set V)"
    proof -
      have "set S \<subseteq> ?U - set V" using inv Cons by auto
      then have "card (set S) \<le> card (?U - set V)" using fin by (intro card_mono) auto
      then show ?thesis using inv Cons distinct_card [of S] by simp
    qed
    show ?thesis
    proof (cases "filter (\<lambda>n. n \<notin> set V) (neighbors E node)")
      case Nil
      then have "\<forall>k. (node, k) \<in> set E \<longrightarrow> k \<in> set V" by (auto simp: filter_empty_conv)
      then have "dfs_inv E start (node # V) rest (removeAll node P)"
        using inv by (cases rest) (auto simp: dfs_inv_def)
      moreover have "card (?U - set (node # V)) < card (?U - set V)"
        by (rule psubset_card_mono) (use inv in auto)
      then have "2 * card (?U - set (node # V)) - length rest < 2 * card (?U - set V) - length S"
        using card Cons by simp
      ultimately have "dfs_loop E (node # V) rest (removeAll node P) = Some (cycle_from E start)"
        by (intro less.hyps)
      then show ?thesis using Cons Nil by (subst dfs_loop.simps) simp
    next
      case (Cons k ks)
      have "k \<in> set (filter (\<lambda>n. n \<notin> set V) (neighbors E node))" unfolding Cons by simp
      then have k: "(node, k) \<in> set E" "k \<notin> set V" by simp_all
      have ku: "k \<in> ?U" using k(1) by force
      note S = \<open>S = node # rest\<close>
      show ?thesis
      proof (cases "k \<in> set P")
        case True
        then have "k \<in> set S" using inv S by simp
        then have "(k, node) \<in> (set E)\<^sup>*" "(start, k) \<in> (set E)\<^sup>*"
          using path_up_reach [of E S k] path_up_last [of E S] inv S by auto
        then have "cycle_from E start" unfolding cycle_from_def using k(1) by (meson rtrancl_into_trancl1)
        then show ?thesis using True S Cons by (subst dfs_loop.simps) simp
      next
        case False
        have "dfs_inv E start V (k # S) (k # P)"
          using inv S k ku False by (auto simp: dfs_inv_def)
        moreover have "length (k # S) \<le> card (?U - set V)"
        proof -
          have "set (k # S) \<subseteq> ?U - set V" "distinct (k # S)" using inv S k ku False by auto
          then show ?thesis using fin by (metis card_mono distinct_card finite_Diff)
        qed
        then have "2 * card (?U - set V) - length (k # S) < 2 * card (?U - set V) - length S" by simp
        ultimately have "dfs_loop E V (k # S) (k # P) = Some (cycle_from E start)" by (intro less.hyps)
        then show ?thesis using False S Cons by (subst dfs_loop.simps) simp
      qed
    qed
  qed
qed

lemma detect_deadlock_exact: "detect_deadlock m t = Some (cycle_from (waits_for m) t)"
  unfolding detect_deadlock_def by (rule dfs_exact) (simp add: dfs_inv_def)

section \<open>Steps\<close>

lemma acquire_attempt_granted:
  assumes "is_compatible (entry_of m key) mode txn"
  shows "acquire_attempt txn key mode timeout elapsed m =
    Some ((put_entry key (add_holder txn mode (entry_of m key)) m)\<lparr>metrics := bump_acquire elapsed (metrics m)\<rparr>, Granted)"
  using assms by (simp add: acquire_attempt_def Let_def)

text \<open>The table with the transaction queued behind the holders of the key.\<close>

definition queued :: "u64 \<Rightarrow> lock_key \<Rightarrow> lock_mode \<Rightarrow> lock_manager \<Rightarrow> lock_manager" where
  "queued txn key mode m =
     (let st = entry_of m key in
      put_entry key (if list_ex (\<lambda>w. w_txn w = txn) (waiters st) then st
        else st\<lparr>waiters := waiters st @ [\<lparr>w_txn = txn, w_mode = mode\<rparr>]\<rparr>) m)"

definition refusal :: "u64 \<Rightarrow> lock_key \<Rightarrow> lock_mode \<Rightarrow> nat \<Rightarrow> nat \<Rightarrow> lock_manager \<Rightarrow> attempt" where
  "refusal txn key mode timeout elapsed m =
     (if cycle_from (waits_for (queued txn key mode m)) txn then Failed Deadlock
      else if elapsed \<ge> timeout then Failed (LockTimeout txn) else MustWait)"

lemma waits_for_metrics [simp]: "waits_for (m\<lparr>metrics := x\<rparr>) = waits_for m"
  by (simp add: waits_for_def)

lemma acquire_attempt_refused:
  assumes "\<not> is_compatible (entry_of m key) mode txn"
  shows "\<exists>m'. acquire_attempt txn key mode timeout elapsed m = Some (m', refusal txn key mode timeout elapsed m) \<and>
    locks m' = (if refusal txn key mode timeout elapsed m = MustWait then locks (queued txn key mode m)
      else locks (put_entry key (remove_waiter txn (entry_of (queued txn key mode m) key)) (queued txn key mode m)))"
  using assms
  by (simp add: acquire_attempt_def queued_def refusal_def Let_def detect_deadlock_exact put_entry_def)

lemma queued_ok:
  assumes "mgr_ok m" and "\<not> is_compatible (entry_of m key) mode txn"
  shows "mgr_ok (queued txn key mode m) \<and> holders (entry_of (queued txn key mode m) key) = holders (entry_of m key)"
  using entry_ok [OF assms(1), of key] not_compatible_holders [OF assms(2)]
  by (auto simp: queued_def Let_def state_ok_def intro!: put_entry_ok [OF assms(1)])

lemma remove_waiter_ok: "state_ok st \<Longrightarrow> state_ok (remove_waiter txn st)"
  by (auto simp: state_ok_def remove_waiter_def)

lemma mgr_ok_cong: "locks m = locks m' \<Longrightarrow> mgr_ok m \<longleftrightarrow> mgr_ok m'"
  by (simp add: mgr_ok_def entry_of_def)

lemma acquire_attempt_ok:
  assumes "mgr_ok m" and "acquire_attempt txn key mode timeout elapsed m = Some (m', r)"
  shows "mgr_ok m'"
proof (cases "is_compatible (entry_of m key) mode txn")
  case True
  have "state_ok (add_holder txn mode (entry_of m key))"
    using entry_ok [OF assms(1), of key] add_holder_ok [OF _ True] by (auto simp: state_ok_def)
  then show ?thesis
    using assms(2) acquire_attempt_granted [OF True] put_entry_ok [OF assms(1)] by auto
next
  case False
  let ?q = "queued txn key mode m"
  have q: "mgr_ok ?q" using queued_ok [OF assms(1) False] by blast
  then have p: "mgr_ok (put_entry key (remove_waiter txn (entry_of ?q key)) ?q)"
    by (intro put_entry_ok remove_waiter_ok entry_ok)
  have "locks m' = locks ?q \<or> locks m' = locks (put_entry key (remove_waiter txn (entry_of ?q key)) ?q)"
    using acquire_attempt_refused [OF False, of timeout elapsed] assms(2) by (auto split: if_splits)
  then show ?thesis using mgr_ok_cong [of m' ?q] mgr_ok_cong [of m' "put_entry key (remove_waiter txn (entry_of ?q key)) ?q"] p q
    by blast
qed

lemma entry_release:
  assumes "mgr_ok m"
  shows "entry_of (release txn key m) k =
    (if k = key then grant_pending (fst (remove_holder txn (entry_of m key))) else entry_of m k)"
proof (cases "map_of (locks m) key")
  case None
  have "grant_pending (fst (remove_holder txn lock_state_default)) = lock_state_default"
    by (simp add: lock_state_default_def remove_holder_def grant_pending_def)
  then show ?thesis using None by (simp add: release_def entry_of_def)
next
  case (Some st)
  then show ?thesis
    by (cases "grant_pending (fst (remove_holder txn st)) = lock_state_default")
      (simp_all add: release_def entry_of_def drop_if_empty_def empty_state update_conv delete_conv case_prod_beta Let_def)
qed

lemma release_ok:
  assumes "mgr_ok m"
  shows "mgr_ok (release txn key m)"
proof -
  have "state_ok (grant_pending (fst (remove_holder txn (entry_of m key))))"
    unfolding grant_pending_def using entry_ok [OF assms, of key]
    by (intro grant_loop_ok) (simp add: state_ok_def remove_holder_def Let_def holders_ok_filter)
  then have "\<forall>k. state_ok (entry_of (release txn key m) k)" using assms by (simp add: entry_release mgr_ok_def)
  moreover have "distinct (map fst (locks (release txn key m)))"
    using assms by (simp add: release_def mgr_ok_def drop_if_empty_def distinct_update distinct_delete Let_def
        split: option.split prod.split)
  ultimately show ?thesis by (simp add: mgr_ok_def)
qed

lemma entry_release_all:
  assumes "mgr_ok m"
  shows "entry_of (release_all txn m) k = release_state txn (entry_of m k)"
proof -
  have d: "release_state txn lock_state_default = lock_state_default"
    by (simp add: lock_state_default_def release_state_def remove_holder_def remove_waiter_def grant_pending_def)
  have "map_of (locks (release_all txn m)) k = (case map_of (locks m) k of
      Some st \<Rightarrow> if release_state txn st \<noteq> lock_state_default then Some (release_state txn st) else None | None \<Rightarrow> None)"
    using assms map_of_map_filter [of "locks m" "\<lambda>st. st \<noteq> lock_state_default" "release_state txn" k]
    by (simp add: release_all_def mgr_ok_def Let_def empty_state)
  then show ?thesis by (auto simp: entry_of_def d split: option.splits if_splits)
qed

lemma keys_map_filter:
  "map fst (filter (\<lambda>(_, v). P v) (map (\<lambda>(k, v). (k, f v)) xs)) = map fst (filter (\<lambda>(_, v). P (f v)) xs)"
  by (induction xs) auto

lemma release_all_ok:
  assumes "mgr_ok m"
  shows "mgr_ok (release_all txn m)"
proof -
  have "distinct (map fst (locks (release_all txn m)))"
    using assms
    by (simp add: release_all_def mgr_ok_def Let_def empty_state
        keys_map_filter [where P = "\<lambda>st. st \<noteq> lock_state_default"] distinct_map_filter)
  moreover have "\<forall>k. state_ok (entry_of (release_all txn m) k)"
    using assms by (simp add: entry_release_all mgr_ok_def release_state_ok)
  ultimately show ?thesis by (simp add: mgr_ok_def)
qed

inductive_cases lock_stepE: "lock_step m m'"

lemma reachable_ok: "reachable m \<Longrightarrow> mgr_ok m"
proof (induction rule: reachable.induct)
  case start
  show ?case by (simp add: mgr_ok_def lock_manager_new_def entry_of_def lock_state_default_def state_ok_def)
next
  case (step m m')
  have "mgr_ok m' \<longleftrightarrow> mgr_ok m" if "locks m' = locks m" using mgr_ok_cong [OF that] .
  then show ?case
    using step.hyps(2) step.IH
    by (auto elim!: lock_stepE intro: acquire_attempt_ok release_ok release_all_ok
        simp: set_default_timeout_def set_deadlock_check_interval_ms_def)
qed

lemma release_state_clean:
  "txn \<notin> h_txn ` set (holders (release_state txn st)) \<and> txn \<notin> w_txn ` set (waiters (release_state txn st))"
proof -
  let ?st = "remove_waiter txn (fst (remove_holder txn st))"
  have "txn \<notin> h_txn ` set (holders ?st)" "txn \<notin> w_txn ` set (waiters ?st)"
    by (auto simp: remove_waiter_def remove_holder_def Let_def)
  then show ?thesis
    using grant_loop_txns [of "waiters ?st" ?st] grant_loop_waiters [of "waiters ?st" ?st]
    unfolding release_state_def grant_pending_def by blast
qed

lemma release_state_front:
  assumes "holders st = [h]" and "h_txn h = txn" and "waiters st = w # ws" and "w_txn w \<noteq> txn"
  shows "w_txn w \<in> h_txn ` set (holders (release_state txn st))"
proof -
  let ?st = "remove_waiter txn (fst (remove_holder txn st))"
  have st: "holders ?st = []" "waiters ?st = w # filter (\<lambda>w. w_txn w \<noteq> txn) ws"
    using assms by (simp_all add: remove_waiter_def remove_holder_def Let_def)
  then have "is_compatible ?st (w_mode w) (w_txn w)" by (simp add: is_compatible_def)
  then have "release_state txn st = grant_loop (filter (\<lambda>w. w_txn w \<noteq> txn) ws) (add_holder (w_txn w) (w_mode w) ?st)"
    by (simp add: release_state_def grant_pending_def st)
  then show ?thesis using grant_loop_keeps add_holder_mem by fastforce
qed

section \<open>Properties\<close>

text \<open>C21. Mutual exclusion: in every state that the transactions can reach, in any order of their steps, an exclusive
holder of a key is its only holder, no transaction holds a key twice, and a key with waiters has a
holder.\<close>

theorem lock_exclusion:
  assumes "reachable m" and "map_of (locks m) key = Some st"
  shows "distinct (map h_txn (holders st)) \<and> (\<forall>h \<in> set (holders st). h_mode h = Exclusive \<longrightarrow> holders st = [h]) \<and>
    (waiters st \<noteq> [] \<longrightarrow> holders st \<noteq> [])"
  using entry_ok [OF reachable_ok [OF assms(1)], of key] assms(2)
  by (simp add: entry_of_def state_ok_def holders_ok_def)

definition sample_key :: lock_key where
  "sample_key = \<lparr>lk_table = ''t'', lk_key = [1]\<rparr>"

lemma acquire_fresh:
  "\<exists>m. acquire_attempt 1 sample_key Exclusive 9 0 lock_manager_new = Some (m, Granted) \<and>
    locks m = [(sample_key, \<lparr>holders = [\<lparr>h_txn = 1, h_mode = Exclusive\<rparr>], waiters = []\<rparr>)]"
  by (simp add: acquire_attempt_granted is_compatible_def entry_of_def lock_manager_new_def lock_state_default_def
    add_holder_def put_entry_def)

theorem lock_exclusion_witness:
  "\<exists>m st. reachable m \<and> map_of (locks m) sample_key = Some st \<and> holders st = [\<lparr>h_txn = 1, h_mode = Exclusive\<rparr>] \<and>
    distinct (map h_txn (holders st))"
proof -
  obtain m where m: "acquire_attempt 1 sample_key Exclusive 9 0 lock_manager_new = Some (m, Granted)"
      "locks m = [(sample_key, \<lparr>holders = [\<lparr>h_txn = 1, h_mode = Exclusive\<rparr>], waiters = []\<rparr>)]"
    using acquire_fresh by blast
  have "reachable m" by (rule reachable.step [OF reachable.start lock_step.acq [OF m(1)]])
  then show ?thesis using lock_exclusion [of m sample_key] m(2) by (intro exI [of _ m]) auto
qed

text \<open>Attempts of several transactions at the sample key, one after the other.\<close>

fun attempts :: "(u64 \<times> lock_mode) list \<Rightarrow> lock_manager \<Rightarrow> lock_manager option" where
  "attempts [] m = Some m"
| "attempts ((t, mode) # xs) m = do { (m', _) \<leftarrow> acquire_attempt t sample_key mode 9 0 m; attempts xs m' }"

lemma attempts_reachable: "attempts xs m = Some m' \<Longrightarrow> reachable m \<Longrightarrow> reachable m'"
proof (induction xs arbitrary: m)
  case (Cons x xs)
  obtain t mode where x: "x = (t, mode)" by (cases x)
  obtain m1 r where m1: "acquire_attempt t sample_key mode 9 0 m = Some (m1, r)" "attempts xs m1 = Some m'"
    using Cons.prems(1) by (auto simp: x split: bind_splits)
  have "reachable m1" by (rule reachable.step [OF Cons.prems(2) lock_step.acq [OF m1(1)]])
  then show ?case by (rule Cons.IH [OF m1(2)])
qed simp

lemmas lock_eval = acquire_attempt_def entry_of_def put_entry_def lock_state_default_def is_compatible_def add_holder_def
  detect_deadlock_def waits_for_def neighbors_def bump_acquire_def release_def remove_holder_def grant_pending_def
  drop_if_empty_def remove_waiter_def

text \<open>What an attempt changes of the table.\<close>

lemma upgrade_first_others: "upgrade_first txn mode hs = Some hs' \<Longrightarrow> filter (\<lambda>h. h_txn h \<noteq> txn) hs' = filter (\<lambda>h. h_txn h \<noteq> txn) hs"
  by (induction hs arbitrary: hs') (auto split: if_splits)

lemma add_holder_others:
  "filter (\<lambda>h. h_txn h \<noteq> txn) (holders (add_holder txn mode st)) = filter (\<lambda>h. h_txn h \<noteq> txn) (holders st)"
  "waiters (add_holder txn mode st) = waiters st"
  using upgrade_first_others by (auto simp: add_holder_def split: option.split)

lemma entry_queued:
  "entry_of (queued txn key mode m) key = (entry_of m key)\<lparr>waiters :=
     (if txn \<in> w_txn ` set (waiters (entry_of m key)) then waiters (entry_of m key)
      else waiters (entry_of m key) @ [\<lparr>w_txn = txn, w_mode = mode\<rparr>])\<rparr>"
  "k \<noteq> key \<Longrightarrow> entry_of (queued txn key mode m) k = entry_of m k"
  by (auto simp: queued_def Let_def list_ex_iff)

text \<open>C22. The deadlock search always ends, and it answers yes exactly when a cycle of the waits-for graph can be
reached from the transaction.\<close>

theorem deadlock_search_exact:
  "detect_deadlock m txn = Some (\<exists>n. (txn, n) \<in> (set (waits_for m))\<^sup>* \<and> (n, n) \<in> (set (waits_for m))\<^sup>+)"
  using detect_deadlock_exact [of m txn] by (simp only: cycle_from_def)

text \<open>C23. Every attempt to acquire returns, and no other key is touched. It is granted exactly when the key's holders are compatible: then the
transaction holds the key, the other holders keep it, and the queue is as before. Else it fails with a deadlock when waiting would close a cycle,
with a timeout when its time is over, and waits otherwise. After a failure the key is as before, except that the transaction is not in its queue. When
it waits, the holders are as before, and the transaction is at the end of the queue unless it was in the queue already.\<close>

theorem acquire_outcomes:
  "\<exists>m' r. acquire_attempt txn key mode timeout elapsed m = Some (m', r) \<and>
    r = (if is_compatible (entry_of m key) mode txn then Granted
         else if cycle_from (waits_for (queued txn key mode m)) txn then Failed Deadlock
         else if elapsed \<ge> timeout then Failed (LockTimeout txn) else MustWait) \<and>
    (\<forall>k. k \<noteq> key \<longrightarrow> entry_of m' k = entry_of m k) \<and>
    (let old = entry_of m key; new = entry_of m' key; others = filter (\<lambda>h. h_txn h \<noteq> txn) in
     case r of
       Granted \<Rightarrow> txn \<in> h_txn ` set (holders new) \<and> others (holders new) = others (holders old) \<and> waiters new = waiters old
     | Failed _ \<Rightarrow> holders new = holders old \<and> waiters new = filter (\<lambda>w. w_txn w \<noteq> txn) (waiters old)
     | MustWait \<Rightarrow> holders new = holders old \<and> waiters new =
         (if txn \<in> w_txn ` set (waiters old) then waiters old else waiters old @ [\<lparr>w_txn = txn, w_mode = mode\<rparr>]))"
proof (cases "is_compatible (entry_of m key) mode txn")
  case True
  then show ?thesis by (simp add: acquire_attempt_granted add_holder_mem add_holder_others entry_of_metrics)
next
  case False
  let ?q = "queued txn key mode m" and ?r = "refusal txn key mode timeout elapsed m"
  obtain m' where m': "acquire_attempt txn key mode timeout elapsed m = Some (m', ?r)"
      "locks m' = (if ?r = MustWait then locks ?q else locks (put_entry key (remove_waiter txn (entry_of ?q key)) ?q))"
    using acquire_attempt_refused [OF False] by blast
  have e: "entry_of m' k = (if ?r = MustWait then entry_of ?q k else entry_of (put_entry key (remove_waiter txn (entry_of ?q key)) ?q) k)" for k
    using m'(2) by (simp add: entry_of_def)
  have "?r = MustWait \<or> (\<exists>x. ?r = Failed x)" by (simp add: refusal_def)
  then show ?thesis using m'(1) False e entry_queued(1) [of txn key mode m] entry_queued(2) [of _ key txn mode m]
    by (intro exI [of _ m'] exI [of _ ?r] conjI) (auto simp: refusal_def remove_waiter_def Let_def)
qed

theorem acquire_outcomes_witness:
  "\<exists>m m'. attempts [(1, Exclusive), (2, Shared)] lock_manager_new = Some m \<and>
     acquire_attempt 3 sample_key Shared 9 9 m = Some (m', Failed (LockTimeout 3)) \<and>
     holders (entry_of m' sample_key) = [\<lparr>h_txn = 1, h_mode = Exclusive\<rparr>] \<and>
     waiters (entry_of m' sample_key) = [\<lparr>w_txn = 2, w_mode = Shared\<rparr>]"
proof -
  obtain m where m: "attempts [(1, Exclusive), (2, Shared)] lock_manager_new = Some m"
      "entry_of m sample_key = \<lparr>holders = [\<lparr>h_txn = 1, h_mode = Exclusive\<rparr>], waiters = [\<lparr>w_txn = 2, w_mode = Shared\<rparr>]\<rparr>"
      "\<exists>m'. acquire_attempt 3 sample_key Shared 9 9 m = Some (m', Failed (LockTimeout 3))"
    by (simp add: lock_eval lock_manager_new_def dfs_loop.simps)
  then show ?thesis using acquire_outcomes [of 3 sample_key Shared 9 9 m] by (auto simp: Let_def)
qed

text \<open>C24. After \<open>release_all\<close> the transaction holds and waits for nothing, and where it was the only
holder of a key the first waiter holds the key.\<close>

theorem release_all_hands_over:
  assumes "reachable m"
  shows "txn \<notin> h_txn ` set (holders (entry_of (release_all txn m) key)) \<and>
    txn \<notin> w_txn ` set (waiters (entry_of (release_all txn m) key)) \<and>
    (\<forall>h w ws. entry_of m key = \<lparr>holders = [h], waiters = w # ws\<rparr> \<and> h_txn h = txn \<and> w_txn w \<noteq> txn \<longrightarrow>
      w_txn w \<in> h_txn ` set (holders (entry_of (release_all txn m) key)))"
  using entry_release_all [OF reachable_ok [OF assms], of txn key] release_state_clean [of txn "entry_of m key"]
    release_state_front [of "entry_of m key" _ txn] by auto

theorem release_all_hands_over_witness:
  "\<exists>m. attempts [(1, Exclusive), (2, Shared)] lock_manager_new = Some m \<and>
     2 \<notin> h_txn ` set (holders (entry_of m sample_key)) \<and>
     2 \<in> h_txn ` set (holders (entry_of (release_all 1 m) sample_key))"
proof -
  obtain m where m: "attempts [(1, Exclusive), (2, Shared)] lock_manager_new = Some m"
      "entry_of m sample_key = \<lparr>holders = [\<lparr>h_txn = 1, h_mode = Exclusive\<rparr>], waiters = [\<lparr>w_txn = 2, w_mode = Shared\<rparr>]\<rparr>"
    by (simp add: lock_eval lock_manager_new_def dfs_loop.simps)
  then have "reachable m" using attempts_reachable reachable.start by blast
  from release_all_hands_over [OF this, of 1 sample_key] show ?thesis using m by auto
qed

text \<open>
  A shared request that waits behind an exclusive one is granted when it tries again after the shared holders in front of it got the
  key, but its entry stays in the queue: the transaction then both holds the key and waits for it.
\<close>

lemma stale_run:
  "\<exists>m1 m2. attempts [(1, Exclusive), (2, Shared), (3, Exclusive), (4, Shared)] lock_manager_new = Some m1 \<and>
     attempts [(4, Shared)] (release 1 sample_key m1) = Some m2 \<and>
     4 \<in> h_txn ` set (holders (entry_of m2 sample_key)) \<and> 4 \<in> w_txn ` set (waiters (entry_of m2 sample_key))"
  by (simp add: lock_eval lock_manager_new_def dfs_loop.simps)

theorem granted_request_stays_queued:
  "\<exists>m. reachable m \<and> 4 \<in> h_txn ` set (holders (entry_of m sample_key)) \<and> 4 \<in> w_txn ` set (waiters (entry_of m sample_key))"
  using stale_run attempts_reachable reachable.start reachable.step [OF _ lock_step.rel] by metis

end
