(* ===== verification/Transactions.thy ===== *)
theory Transactions
  imports Prelude "HOL-Library.AList"
begin

text \<open>
  The transaction manager, \<open>bytedb-core/src/mvcc/transaction.rs\<close>: transaction ids and timestamps, the snapshot of
  active transactions that every transaction takes when it begins, and the bookkeeping of read-write
  conflicts between serializable transactions. Each operation is one step; instants of the clock are natural
  numbers and the current one is an argument. Hash maps are association lists; where the source iterates over a map,
  the theorems hold for every order.
\<close>

section \<open>State\<close>

type_synonym txn_id = u64
type_synonym timestamp = u64
type_synonym rw_key = "string \<times> bytes"

record ssi_state =
  ssi_start_ts :: timestamp
  ssi_reads :: "rw_key set"
  ssi_scanned :: "string set"
  ssi_writes :: "rw_key set"
  in_conflict :: bool
  out_conflict :: bool
  ssi_aborted :: bool

definition ssi_new :: "timestamp \<Rightarrow> ssi_state" where
  "ssi_new ts = \<lparr>ssi_start_ts = ts, ssi_reads = {}, ssi_scanned = {}, ssi_writes = {},
     in_conflict = False, out_conflict = False, ssi_aborted = False\<rparr>"

definition is_dangerous :: "ssi_state \<Rightarrow> bool" where
  "is_dangerous s = ssi_aborted s"

definition is_pivot :: "ssi_state \<Rightarrow> bool" where
  "is_pivot s = (\<not> ssi_aborted s \<and> in_conflict s \<and> out_conflict s)"

definition ssi_abort :: "ssi_state \<Rightarrow> ssi_state" where
  "ssi_abort s = s\<lparr>ssi_aborted := True\<rparr>"

record committed_ssi =
  c_commit_ts :: timestamp
  c_reads :: "rw_key set"
  c_scanned :: "string set"
  c_writes :: "rw_key set"

datatype isolation_level = ReadCommitted | RepeatableRead | Serializable

datatype txn_status = Active | Committed | Aborted

record transaction =
  t_id :: txn_id
  isolation :: isolation_level
  start_ts :: timestamp
  commit_ts :: "timestamp option"
  t_status :: txn_status
  started_at :: nat
  deadline :: "nat option"
  snapshot_active :: "txn_id list"

record snapshot =
  sn_txn_id :: txn_id
  sn_start_ts :: timestamp
  sn_active_txns :: "txn_id list"

record txn_manager =
  next_txn_id :: u64
  next_timestamp :: u64
  active_txns :: "(txn_id \<times> transaction) list"
  committed_txns :: "(txn_id \<times> timestamp) list"
  default_txn_timeout :: "nat option"
  ssi :: "(txn_id \<times> ssi_state) list"
  ssi_recent :: "(txn_id \<times> committed_ssi) list"

definition txn_manager_new :: txn_manager where
  "txn_manager_new = \<lparr>next_txn_id = 1, next_timestamp = 1, active_txns = [], committed_txns = [],
     default_txn_timeout = None, ssi = [], ssi_recent = []\<rparr>"

definition set_default_txn_timeout :: "nat option \<Rightarrow> txn_manager \<Rightarrow> txn_manager" where
  "set_default_txn_timeout d m = m\<lparr>default_txn_timeout := d\<rparr>"

section \<open>Begin\<close>

definition begin_with_timeout :: "nat \<Rightarrow> isolation_level \<Rightarrow> nat option \<Rightarrow> txn_manager \<Rightarrow> txn_manager \<times> txn_id" where
  "begin_with_timeout now lvl timeout m =
     (let txn_id = next_txn_id m;
          start = next_timestamp m;
          txn = \<lparr>t_id = txn_id, isolation = lvl, start_ts = start, commit_ts = None, t_status = Active,
                 started_at = now, deadline = map_option (\<lambda>d. now + d) timeout,
                 snapshot_active = map fst (active_txns m)\<rparr>
      in (m\<lparr>next_txn_id := next_txn_id m + 1, next_timestamp := next_timestamp m + 1,
            active_txns := AList.update txn_id txn (active_txns m),
            ssi := (if lvl = Serializable then AList.update txn_id (ssi_new start) (ssi m) else ssi m)\<rparr>,
          txn_id))"

definition begin_txn :: "nat \<Rightarrow> isolation_level \<Rightarrow> txn_manager \<Rightarrow> txn_manager \<times> txn_id" where
  "begin_txn now lvl m = begin_with_timeout now lvl (default_txn_timeout m) m"

section \<open>Conflicts between serializable transactions\<close>

text \<open>
  One turn of the loop over the other transactions: when \<open>hit\<close> holds of the other one, both get
  their flags and one of them is aborted if it has conflicts on both sides.
\<close>

definition conflict_step ::
  "(ssi_state \<Rightarrow> bool) \<Rightarrow> (ssi_state \<Rightarrow> ssi_state) \<Rightarrow> (ssi_state \<Rightarrow> ssi_state) \<Rightarrow>
   ssi_state \<Rightarrow> ssi_state \<Rightarrow> ssi_state \<times> ssi_state"
where
  "conflict_step hit mark_me mark_other me other =
     (if hit other
      then let me = mark_me me; other = mark_other other
           in if is_pivot me then (ssi_abort me, other)
              else if is_pivot other then (me, ssi_abort other)
              else (me, other)
      else (me, other))"

fun conflict_loop ::
  "(ssi_state \<Rightarrow> ssi_state \<Rightarrow> ssi_state \<times> ssi_state) \<Rightarrow> txn_id \<Rightarrow> ssi_state \<Rightarrow>
   (txn_id \<times> ssi_state) list \<Rightarrow> ssi_state \<times> (txn_id \<times> ssi_state) list"
where
  "conflict_loop f tid me [] = (me, [])"
| "conflict_loop f tid me ((oid, other) # rest) =
     (if oid = tid then (let (me', rest') = conflict_loop f tid me rest in (me', (oid, other) # rest'))
      else
        let (me1, other') = f me other;
            (me', rest') = conflict_loop f tid me1 rest
        in (me', (oid, other') # rest'))"

fun recent_loop :: "(committed_ssi \<Rightarrow> bool) \<Rightarrow> (ssi_state \<Rightarrow> ssi_state) \<Rightarrow> ssi_state \<Rightarrow> committed_ssi list \<Rightarrow> ssi_state" where
  "recent_loop hit mark me [] = me"
| "recent_loop hit mark me (c # cs) =
     recent_loop hit mark
       (if hit c then (let me = mark me in if is_pivot me then ssi_abort me else me) else me) cs"

definition mark_in :: "ssi_state \<Rightarrow> ssi_state" where "mark_in s = s\<lparr>in_conflict := True\<rparr>"
definition mark_out :: "ssi_state \<Rightarrow> ssi_state" where "mark_out s = s\<lparr>out_conflict := True\<rparr>"

definition ssi_record_read :: "txn_id \<Rightarrow> string \<Rightarrow> bytes \<Rightarrow> txn_manager \<Rightarrow> txn_manager" where
  "ssi_record_read tid table key m =
     (case map_of (ssi m) tid of
        None \<Rightarrow> m
      | Some me \<Rightarrow>
          let rk = (table, key);
              me = me\<lparr>ssi_reads := insert rk (ssi_reads me)\<rparr>;
              (me, others) =
                conflict_loop (conflict_step (\<lambda>other. rk \<in> ssi_writes other) mark_out mark_in) tid me (ssi m);
              me = recent_loop (\<lambda>c. c_commit_ts c > ssi_start_ts me \<and> rk \<in> c_writes c) mark_out me
                (map snd (ssi_recent m))
          in m\<lparr>ssi := AList.update tid me others\<rparr>)"

definition ssi_record_predicate :: "txn_id \<Rightarrow> string \<Rightarrow> txn_manager \<Rightarrow> txn_manager" where
  "ssi_record_predicate tid table m =
     (case map_of (ssi m) tid of
        None \<Rightarrow> m
      | Some me \<Rightarrow> m\<lparr>ssi := AList.update tid (me\<lparr>ssi_scanned := insert table (ssi_scanned me)\<rparr>) (ssi m)\<rparr>)"

definition ssi_record_write :: "txn_id \<Rightarrow> string \<Rightarrow> bytes \<Rightarrow> txn_manager \<Rightarrow> txn_manager" where
  "ssi_record_write tid table key m =
     (case map_of (ssi m) tid of
        None \<Rightarrow> m
      | Some me \<Rightarrow>
          let rk = (table, key);
              me = me\<lparr>ssi_writes := insert rk (ssi_writes me)\<rparr>;
              (me, others) =
                conflict_loop (conflict_step (\<lambda>other. rk \<in> ssi_reads other \<or> table \<in> ssi_scanned other) mark_in mark_out)
                  tid me (ssi m);
              me = recent_loop (\<lambda>c. c_commit_ts c > ssi_start_ts me \<and> (rk \<in> c_reads c \<or> table \<in> c_scanned c)) mark_in me
                (map snd (ssi_recent m))
          in m\<lparr>ssi := AList.update tid me others\<rparr>)"

section \<open>Deadlines\<close>

definition check_deadline :: "nat \<Rightarrow> txn_id \<Rightarrow> txn_manager \<Rightarrow> unit result" where
  "check_deadline now tid m =
     (case map_of (active_txns m) tid of
        None \<Rightarrow> Inl (TransactionNotFound tid)
      | Some txn \<Rightarrow>
          (case deadline txn of
             Some dl \<Rightarrow> if now \<ge> dl then Inl (TransactionTimeout tid) else Inr ()
           | None \<Rightarrow> Inr ()))"

definition txn_deadline :: "txn_id \<Rightarrow> txn_manager \<Rightarrow> nat option" where
  "txn_deadline tid m = Option.bind (map_of (active_txns m) tid) deadline"

definition timed_out_txns :: "nat \<Rightarrow> txn_manager \<Rightarrow> txn_id list" where
  "timed_out_txns now m =
     map t_id (filter (\<lambda>t. case deadline t of Some d \<Rightarrow> now \<ge> d | None \<Rightarrow> False) (map snd (active_txns m)))"

section \<open>Commit and abort\<close>

definition oldest_active_serializable_start :: "txn_manager \<Rightarrow> timestamp" where
  "oldest_active_serializable_start m =
     (case map (ssi_start_ts \<circ> snd) (ssi m) of [] \<Rightarrow> next_timestamp m | t # ts \<Rightarrow> fold min ts t)"

definition gc_ssi_recent :: "txn_manager \<Rightarrow> txn_manager" where
  "gc_ssi_recent m =
     (let oldest = oldest_active_serializable_start m
      in m\<lparr>ssi_recent := filter (\<lambda>(_, c). c_commit_ts c \<ge> oldest) (ssi_recent m)\<rparr>)"

definition commit :: "txn_id \<Rightarrow> txn_manager \<Rightarrow> txn_manager \<times> timestamp result" where
  "commit tid m =
     (let ssi_st = map_of (ssi m) tid in
      if (case ssi_st of Some s \<Rightarrow> is_dangerous s | None \<Rightarrow> False)
      then (m\<lparr>ssi := AList.delete tid (ssi m), active_txns := AList.delete tid (active_txns m)\<rparr>,
            Inl SerializationConflict)
      else
        case map_of (active_txns m) tid of
          None \<Rightarrow> (m, Inl (TransactionNotFound tid))
        | Some txn \<Rightarrow>
            if t_status txn \<noteq> Active then (m, Inl (TransactionAborted tid))
            else
              let cts = next_timestamp m;
                  m1 = m\<lparr>next_timestamp := next_timestamp m + 1,
                         active_txns := AList.delete tid (active_txns m),
                         committed_txns := AList.update tid cts (committed_txns m)\<rparr>;
                  m2 = (case ssi_st of
                      None \<Rightarrow> m1
                    | Some s \<Rightarrow>
                        gc_ssi_recent (m1\<lparr>
                          ssi_recent := (if ssi_writes s \<noteq> {}
                            then AList.update tid \<lparr>c_commit_ts = cts, c_reads = ssi_reads s,
                                   c_scanned = ssi_scanned s, c_writes = ssi_writes s\<rparr> (ssi_recent m1)
                            else ssi_recent m1),
                          ssi := AList.delete tid (ssi m1)\<rparr>))
              in (m2, Inr cts))"

definition abort_txn :: "txn_id \<Rightarrow> txn_manager \<Rightarrow> txn_manager \<times> unit result" where
  "abort_txn tid m =
     (let was_ssi = (map_of (ssi m) tid \<noteq> None);
          m1 = m\<lparr>ssi := AList.delete tid (ssi m)\<rparr>
      in case map_of (active_txns m1) tid of
           None \<Rightarrow> (m1, Inl (TransactionNotFound tid))
         | Some _ \<Rightarrow>
             let m2 = m1\<lparr>active_txns := AList.delete tid (active_txns m1)\<rparr>
             in (if was_ssi then gc_ssi_recent m2 else m2, Inr ()))"

section \<open>Queries and clean-up\<close>

definition get_snapshot :: "txn_id \<Rightarrow> txn_manager \<Rightarrow> snapshot result" where
  "get_snapshot tid m =
     (case map_of (active_txns m) tid of
        None \<Rightarrow> Inl (TransactionNotFound tid)
      | Some txn \<Rightarrow> Inr \<lparr>sn_txn_id = tid, sn_start_ts = start_ts txn, sn_active_txns = snapshot_active txn\<rparr>)"

definition is_committed :: "txn_id \<Rightarrow> txn_manager \<Rightarrow> bool" where
  "is_committed tid m = (map_of (committed_txns m) tid \<noteq> None)"

definition get_commit_ts :: "txn_id \<Rightarrow> txn_manager \<Rightarrow> timestamp option" where
  "get_commit_ts tid m = map_of (committed_txns m) tid"

definition is_active :: "txn_id \<Rightarrow> txn_manager \<Rightarrow> bool" where
  "is_active tid m = (map_of (active_txns m) tid \<noteq> None)"

definition active_count :: "txn_manager \<Rightarrow> nat" where
  "active_count m = length (active_txns m)"

definition oldest_active_start_ts :: "txn_manager \<Rightarrow> timestamp" where
  "oldest_active_start_ts m =
     (case map (start_ts \<circ> snd) (active_txns m) of [] \<Rightarrow> next_timestamp m | t # ts \<Rightarrow> fold min ts t)"

definition active_txn_ids :: "txn_manager \<Rightarrow> txn_id list" where
  "active_txn_ids m = map fst (active_txns m)"

definition gc_committed :: "timestamp \<Rightarrow> txn_manager \<Rightarrow> txn_manager \<times> nat" where
  "gc_committed oldest m =
     (let kept = filter (\<lambda>(_, ts). ts \<ge> oldest) (committed_txns m)
      in (m\<lparr>committed_txns := kept\<rparr>, length (committed_txns m) - length kept))"

definition committed_count :: "txn_manager \<Rightarrow> nat" where
  "committed_count m = length (committed_txns m)"

definition ssi_recent_count :: "txn_manager \<Rightarrow> nat" where
  "ssi_recent_count m = length (ssi_recent m)"

definition ssi_active_count :: "txn_manager \<Rightarrow> nat" where
  "ssi_active_count m = length (ssi m)"

definition is_aborted :: "txn_id \<Rightarrow> txn_manager \<Rightarrow> bool" where
  "is_aborted tid m = (\<not> is_active tid m \<and> \<not> is_committed tid m)"


section \<open>Histories\<close>

datatype txn_op =
    OBegin nat isolation_level "nat option"
  | OCommit txn_id
  | OAbort txn_id
  | ORead txn_id string bytes
  | OScan txn_id string
  | OWrite txn_id string bytes
  | OGc timestamp
  | OSetTimeout "nat option"

fun txn_do :: "txn_op \<Rightarrow> txn_manager \<Rightarrow> txn_manager" where
  "txn_do (OBegin now lvl d) m = fst (begin_with_timeout now lvl d m)"
| "txn_do (OCommit t) m = fst (commit t m)"
| "txn_do (OAbort t) m = fst (abort_txn t m)"
| "txn_do (ORead t tb k) m = ssi_record_read t tb k m"
| "txn_do (OScan t tb) m = ssi_record_predicate t tb m"
| "txn_do (OWrite t tb k) m = ssi_record_write t tb k m"
| "txn_do (OGc ts) m = fst (gc_committed ts m)"
| "txn_do (OSetTimeout d) m = set_default_txn_timeout d m"

definition txn_run :: "txn_op list \<Rightarrow> txn_manager" where
  "txn_run xs = fold txn_do xs txn_manager_new"

section \<open>Snapshots\<close>

text \<open>
  What ids, timestamps and snapshots of active transactions satisfy: every active transaction has the smaller active
  ids in its snapshot, and a committed one is in the snapshot exactly if it committed after the snapshot was taken.
\<close>

definition ids_ok :: "u64 \<Rightarrow> u64 \<Rightarrow> (txn_id \<times> transaction) set \<Rightarrow> bool" where
  "ids_ok ni nt A \<longleftrightarrow> (\<forall>i t. (i, t) \<in> A \<longrightarrow>
     i < ni \<and> start_ts t < nt \<and> t_status t = Active \<and> (\<forall>j \<in> set (snapshot_active t). j < i))"

definition committed_ok :: "u64 \<Rightarrow> u64 \<Rightarrow> (txn_id \<times> transaction) set \<Rightarrow> (txn_id \<times> timestamp) set \<Rightarrow> bool" where
  "committed_ok ni nt A C \<longleftrightarrow> (\<forall>c ct. (c, ct) \<in> C \<longrightarrow> c < ni \<and> ct < nt \<and> c \<notin> fst ` A)"

definition snapshots_ok :: "(txn_id \<times> transaction) set \<Rightarrow> bool" where
  "snapshots_ok A \<longleftrightarrow> (\<forall>i t j u. (i, t) \<in> A \<and> (j, u) \<in> A \<and> j < i \<longrightarrow> j \<in> set (snapshot_active t))"

definition separated :: "(txn_id \<times> transaction) set \<Rightarrow> (txn_id \<times> timestamp) set \<Rightarrow> bool" where
  "separated A C \<longleftrightarrow> (\<forall>i t c ct. (i, t) \<in> A \<and> (c, ct) \<in> C \<longrightarrow>
     (c \<in> set (snapshot_active t) \<or> i < c \<longrightarrow> start_ts t < ct) \<and>
     (c \<notin> set (snapshot_active t) \<and> c < i \<longrightarrow> ct < start_ts t))"

definition core_inv :: "nat \<Rightarrow> u64 \<Rightarrow> u64 \<Rightarrow> (txn_id \<times> transaction) set \<Rightarrow> (txn_id \<times> timestamp) set \<Rightarrow> bool" where
  "core_inv n ni nt A C \<longleftrightarrow> unat ni \<le> n + 1 \<and> unat nt \<le> n + 1 \<and>
     ids_ok ni nt A \<and> committed_ok ni nt A C \<and> snapshots_ok A \<and> separated A C"

lemma update_new: "k \<notin> fst ` set al \<Longrightarrow> AList.update k v al = al @ [(k, v)]"
  by (induction al) auto

lemma set_delete: "set (AList.delete k al) = {e \<in> set al. fst e \<noteq> k}"
  by (induction al) auto

lemma less_next: "unat ni \<le> n + 1 \<Longrightarrow> n + 2 < 2 ^ 64 \<Longrightarrow> (i :: u64) < ni + 1 \<longleftrightarrow> i \<le> ni"
proof -
  assume a: "unat ni \<le> n + 1" "n + 2 < 2 ^ 64"
  then have "unat (ni + 1) = unat ni + 1" by (subst unat_word_ariths) simp
  then show ?thesis by (simp add: word_less_nat_alt word_le_nat_alt less_Suc_eq_le)
qed

lemma unat_next: "unat ni \<le> n + 1 \<Longrightarrow> n + 2 < 2 ^ 64 \<Longrightarrow> unat (ni + 1 :: u64) \<le> n + 2"
  by (subst unat_word_ariths) simp

lemma core_begin:
  assumes "core_inv n ni nt A C" and "n + 2 < 2 ^ 64" and "start_ts t = nt" and "t_status t = Active"
    and "set (snapshot_active t) = fst ` A"
  shows "core_inv (n + 1) (ni + 1) (nt + 1) (insert (ni, t) A) C"
proof -
  have b: "unat ni \<le> n + 1" "unat nt \<le> n + 1" using assms(1) by (auto simp: core_inv_def)
  note less = less_next [OF b(1) assms(2)] less_next [OF b(2) assms(2)]
  have ids: "ids_ok ni nt A" and com: "committed_ok ni nt A C" and snap: "snapshots_ok A" and sep: "separated A C"
    using assms(1) by (auto simp: core_inv_def)
  have ids': "j < ni" if "j \<in> fst ` A" for j using ids that by (auto simp: ids_ok_def)
  have "ids_ok (ni + 1) (nt + 1) (insert (ni, t) A)"
    using ids ids' assms(3-) by (auto simp: ids_ok_def less order_less_imp_le)
  moreover have "committed_ok (ni + 1) (nt + 1) (insert (ni, t) A) C"
    using com by (auto simp: committed_ok_def less order_less_imp_le)
  moreover have "snapshots_ok (insert (ni, t) A)"
    unfolding snapshots_ok_def
  proof (intro allI impI)
    fix i t' j u assume "(i, t') \<in> insert (ni, t) A \<and> (j, u) \<in> insert (ni, t) A \<and> j < i"
    then show "j \<in> set (snapshot_active t')"
      using snap assms(5) ids' [of i] by (force simp: snapshots_ok_def)
  qed
  moreover have "separated (insert (ni, t) A) C"
    unfolding separated_def
  proof (intro allI impI)
    fix i t' c ct assume a: "(i, t') \<in> insert (ni, t) A \<and> (c, ct) \<in> C"
    then have "c < ni" "ct < nt" "c \<notin> fst ` A" using com by (auto simp: committed_ok_def)
    then show "(c \<in> set (snapshot_active t') \<or> i < c \<longrightarrow> start_ts t' < ct) \<and>
        (c \<notin> set (snapshot_active t') \<and> c < i \<longrightarrow> ct < start_ts t')"
      using a sep assms(3,5) by (auto simp: separated_def)
  qed
  ultimately show ?thesis
    using unat_next [OF b(1) assms(2)] unat_next [OF b(2) assms(2)] by (simp add: core_inv_def)
qed

lemma core_commit:
  assumes "core_inv n ni nt A C" and "n + 2 < 2 ^ 64" and "(c, t) \<in> A"
  shows "core_inv (n + 1) ni (nt + 1) {e \<in> A. fst e \<noteq> c} (insert (c, nt) C)"
proof -
  have b: "unat nt \<le> n + 1" using assms(1) by (auto simp: core_inv_def)
  note less = less_next [OF b(1) assms(2)]
  have ids: "ids_ok ni nt A" and com: "committed_ok ni nt A C" and snap: "snapshots_ok A" and sep: "separated A C"
    using assms(1) by (auto simp: core_inv_def)
  have "ids_ok ni (nt + 1) {e \<in> A. fst e \<noteq> c}" using ids by (auto simp: ids_ok_def less order_less_imp_le)
  moreover have "committed_ok ni (nt + 1) {e \<in> A. fst e \<noteq> c} (insert (c, nt) C)"
    using com ids assms(3) by (auto simp: committed_ok_def ids_ok_def less order_less_imp_le)
  moreover have "snapshots_ok {e \<in> A. fst e \<noteq> c}" using snap by (auto simp: snapshots_ok_def)
  moreover have "separated {e \<in> A. fst e \<noteq> c} (insert (c, nt) C)"
    unfolding separated_def
  proof (intro allI impI)
    fix i t' d dt assume a: "(i, t') \<in> {e \<in> A. fst e \<noteq> c} \<and> (d, dt) \<in> insert (c, nt) C"
    then have i: "(i, t') \<in> A" "start_ts t' < nt" using ids by (auto simp: ids_ok_def)
    have "c \<in> set (snapshot_active t')" if "c < i" using snap i(1) assms(3) that by (auto simp: snapshots_ok_def)
    then show "(d \<in> set (snapshot_active t') \<or> i < d \<longrightarrow> start_ts t' < dt) \<and>
        (d \<notin> set (snapshot_active t') \<and> d < i \<longrightarrow> dt < start_ts t')"
      using a i sep by (auto simp: separated_def)
  qed
  ultimately show ?thesis
    using assms(1) unat_next [OF b(1) assms(2)] by (simp add: core_inv_def)
qed

lemma core_subset:
  assumes "core_inv n ni nt A C" and "A' \<subseteq> A" and "C' \<subseteq> C" and "n \<le> n'"
  shows "core_inv n' ni nt A' C'"
proof -
  have "ids_ok ni nt A'" using assms(1,2) by (auto simp: core_inv_def ids_ok_def)
  moreover have "committed_ok ni nt A' C'" using assms(1-3) image_mono [OF assms(2), of fst] unfolding core_inv_def committed_ok_def by blast
  moreover have "snapshots_ok A'" using assms(1,2) unfolding core_inv_def snapshots_ok_def by blast
  moreover have "separated A' C'" using assms(1-3) unfolding core_inv_def separated_def by blast
  ultimately show ?thesis using assms(1,4) by (simp add: core_inv_def)
qed

definition txn_inv :: "nat \<Rightarrow> txn_manager \<Rightarrow> bool" where
  "txn_inv n m \<longleftrightarrow> core_inv n (next_txn_id m) (next_timestamp m) (set (active_txns m)) (set (committed_txns m)) \<and>
     distinct (map fst (active_txns m))"

lemma txn_inv_mono: "txn_inv n m \<Longrightarrow> n \<le> n' \<Longrightarrow> txn_inv n' m"
  unfolding txn_inv_def by (blast intro: core_subset)

text \<open>The operations that touch neither the counters nor the maps of active and committed transactions.\<close>

definition same_core :: "txn_manager \<Rightarrow> txn_manager \<Rightarrow> bool" where
  "same_core m m' \<longleftrightarrow> next_txn_id m' = next_txn_id m \<and> next_timestamp m' = next_timestamp m \<and>
     active_txns m' = active_txns m \<and> committed_txns m' = committed_txns m"

lemma same_core_inv: "same_core m m' \<Longrightarrow> txn_inv n m \<Longrightarrow> txn_inv (n + 1) m'"
  using txn_inv_mono [of n m "n + 1"] by (simp add: same_core_def txn_inv_def)

lemma same_core_records:
  "same_core m (ssi_record_read t tb k m)" "same_core m (ssi_record_predicate t tb m)"
  "same_core m (ssi_record_write t tb k m)" "same_core m (gc_ssi_recent m)" "same_core m (set_default_txn_timeout d m)"
  by (auto simp: same_core_def ssi_record_read_def ssi_record_predicate_def ssi_record_write_def gc_ssi_recent_def
      set_default_txn_timeout_def Let_def split: option.split prod.split)

lemma gc_ssi_recent_core [simp]:
  "next_txn_id (gc_ssi_recent m) = next_txn_id m" "next_timestamp (gc_ssi_recent m) = next_timestamp m"
  "active_txns (gc_ssi_recent m) = active_txns m" "committed_txns (gc_ssi_recent m) = committed_txns m"
  "ssi (gc_ssi_recent m) = ssi m"
  by (simp_all add: gc_ssi_recent_def Let_def)

lemma begin_inv:
  assumes "txn_inv n m" and "n + 2 < 2 ^ 64"
  shows "txn_inv (n + 1) (fst (begin_with_timeout now lvl d m))"
proof -
  let ?t = "\<lparr>t_id = next_txn_id m, isolation = lvl, start_ts = next_timestamp m, commit_ts = None, t_status = Active,
    started_at = now, deadline = map_option (\<lambda>x. now + x) d, snapshot_active = map fst (active_txns m)\<rparr>"
  have "i < next_txn_id m" if "i \<in> fst ` set (active_txns m)" for i
    using assms(1) that by (auto simp: txn_inv_def core_inv_def ids_ok_def)
  then have new: "next_txn_id m \<notin> fst ` set (active_txns m)" by blast
  have "core_inv (n + 1) (next_txn_id m + 1) (next_timestamp m + 1) (insert (next_txn_id m, ?t) (set (active_txns m))) (set (committed_txns m))"
    by (rule core_begin) (use assms in \<open>simp_all add: txn_inv_def\<close>)
  then show ?thesis
    using assms(1) new by (simp add: txn_inv_def begin_with_timeout_def Let_def update_new)
qed

lemma commit_cases:
  obtains (fail) "active_txns (fst (commit t m)) = active_txns m \<or> active_txns (fst (commit t m)) = AList.delete t (active_txns m)"
      "next_txn_id (fst (commit t m)) = next_txn_id m" "next_timestamp (fst (commit t m)) = next_timestamp m"
      "committed_txns (fst (commit t m)) = committed_txns m"
  | (okay) txn where "map_of (active_txns m) t = Some txn" "active_txns (fst (commit t m)) = AList.delete t (active_txns m)"
      "next_txn_id (fst (commit t m)) = next_txn_id m" "next_timestamp (fst (commit t m)) = next_timestamp m + 1"
      "committed_txns (fst (commit t m)) = AList.update t (next_timestamp m) (committed_txns m)"
proof (cases "case map_of (ssi m) t of Some s \<Rightarrow> is_dangerous s | None \<Rightarrow> False")
  case True
  then show ?thesis using fail by (simp add: commit_def Let_def)
next
  case False
  show ?thesis
  proof (cases "map_of (active_txns m) t")
    case None
    then show ?thesis using False fail by (simp add: commit_def Let_def)
  next
    case (Some txn)
    show ?thesis
    proof (cases "t_status txn = Active")
      case True
      then show ?thesis
        using False Some okay [of txn] by (simp add: commit_def Let_def split: option.splits)
    next
      case notact: False
      then show ?thesis using False Some fail by (simp add: commit_def Let_def)
    qed
  qed
qed

lemma commit_inv:
  assumes "txn_inv n m" and "n + 2 < 2 ^ 64"
  shows "txn_inv (n + 1) (fst (commit t m))"
proof (cases rule: commit_cases [of t m])
  case fail
  have "core_inv (n + 1) (next_txn_id m) (next_timestamp m) (set (active_txns (fst (commit t m)))) (set (committed_txns m))"
    by (rule core_subset) (use assms(1) fail(1) in \<open>auto simp: txn_inv_def set_delete\<close>)
  moreover have "distinct (map fst (active_txns (fst (commit t m))))"
    using fail(1) assms(1) distinct_delete by (auto simp: txn_inv_def)
  ultimately show ?thesis using fail by (simp add: txn_inv_def)
next
  case (okay txn)
  have "(t, txn) \<in> set (active_txns m)" using okay(1) by (rule map_of_SomeD)
  moreover from this have "t \<notin> fst ` set (committed_txns m)"
    using assms(1) by (force simp: txn_inv_def core_inv_def committed_ok_def)
  ultimately show ?thesis
    using core_commit [OF _ assms(2)] assms(1) distinct_delete [of "active_txns m" t] okay
    by (simp add: txn_inv_def set_delete update_new)
qed

lemma abort_inv:
  assumes "txn_inv n m"
  shows "txn_inv (n + 1) (fst (abort_txn t m))"
proof -
  have act: "active_txns (fst (abort_txn t m)) = active_txns m \<or> active_txns (fst (abort_txn t m)) = AList.delete t (active_txns m)"
    by (simp add: abort_txn_def Let_def split: option.split)
  have rest: "next_txn_id (fst (abort_txn t m)) = next_txn_id m" "next_timestamp (fst (abort_txn t m)) = next_timestamp m"
      "committed_txns (fst (abort_txn t m)) = committed_txns m"
    by (simp_all add: abort_txn_def Let_def split: option.split)
  have "core_inv (n + 1) (next_txn_id m) (next_timestamp m) (set (active_txns (fst (abort_txn t m)))) (set (committed_txns m))"
    by (rule core_subset) (use assms act in \<open>auto simp: txn_inv_def set_delete\<close>)
  moreover have "distinct (map fst (active_txns (fst (abort_txn t m))))"
    using act assms distinct_delete by (auto simp: txn_inv_def)
  ultimately show ?thesis using rest by (simp add: txn_inv_def)
qed

lemma gc_inv:
  assumes "txn_inv n m"
  shows "txn_inv (n + 1) (fst (gc_committed ts m))"
proof -
  have "core_inv (n + 1) (next_txn_id m) (next_timestamp m) (set (active_txns m)) (set (committed_txns (fst (gc_committed ts m))))"
    by (rule core_subset) (use assms in \<open>auto simp: txn_inv_def gc_committed_def Let_def\<close>)
  then show ?thesis using assms by (simp add: txn_inv_def gc_committed_def Let_def)
qed

lemma txn_do_inv: "txn_inv n m \<Longrightarrow> n + 2 < 2 ^ 64 \<Longrightarrow> txn_inv (n + 1) (txn_do x m)"
  using begin_inv [of n m] commit_inv [of n m] abort_inv [of n m] gc_inv [of n m] same_core_inv [of m _ n]
    same_core_records
  by (cases x) (simp_all only: txn_do.simps)

lemma txn_run_inv: "length xs + 2 < 2 ^ 64 \<Longrightarrow> txn_inv (length xs) (txn_run xs)"
proof (induction xs rule: rev_induct)
  case Nil
  show ?case by (simp add: txn_run_def txn_manager_new_def txn_inv_def core_inv_def ids_ok_def committed_ok_def
      snapshots_ok_def separated_def)
next
  case (snoc x xs)
  then show ?case using txn_do_inv [of "length xs" "txn_run xs" x] by (simp add: txn_run_def)
qed

section \<open>Conflict flags\<close>

definition flags_le :: "ssi_state \<Rightarrow> ssi_state \<Rightarrow> bool" where
  "flags_le s s' \<longleftrightarrow> (in_conflict s \<longrightarrow> in_conflict s') \<and> (out_conflict s \<longrightarrow> out_conflict s') \<and> (ssi_aborted s \<longrightarrow> ssi_aborted s') \<and>
     (\<not> is_pivot s \<longrightarrow> \<not> is_pivot s')"

lemma flags_le_refl [simp]: "flags_le s s"
  by (simp add: flags_le_def)

lemma flags_le_trans: "flags_le s t \<Longrightarrow> flags_le t u \<Longrightarrow> flags_le s u"
  by (auto simp: flags_le_def)

text \<open>What one turn of a loop does to the two transactions, whichever of the flags it sets.\<close>

definition marks :: "(ssi_state \<Rightarrow> ssi_state) \<Rightarrow> (ssi_state \<Rightarrow> ssi_state) \<Rightarrow> bool" where
  "marks f g \<longleftrightarrow> (f, g) \<in> {(mark_in, mark_out), (mark_out, mark_in)}"

lemma conflict_step_hit:
  assumes "marks f g" and "hit other" and "conflict_step hit f g me other = (me', other')"
  shows "flags_le me me' \<and> \<not> is_pivot me' \<and> f me' = me' \<and> g other' = other' \<and> (\<not> ssi_aborted me' \<longrightarrow> \<not> is_pivot other')"
  using assms
  by (auto simp: marks_def conflict_step_def mark_in_def mark_out_def flags_le_def is_pivot_def ssi_abort_def Let_def
      split: if_splits)

lemma conflict_step_miss: "\<not> hit other \<Longrightarrow> conflict_step hit f g me other = (me, other)"
  by (simp add: conflict_step_def)

lemma conflict_loop_me:
  "marks f g \<Longrightarrow> flags_le me (fst (conflict_loop (conflict_step hit f g) tid me xs))"
proof (induction xs arbitrary: me)
  case (Cons x xs)
  obtain oid other where x: "x = (oid, other)" by (cases x)
  obtain me1 other1 where s: "conflict_step hit f g me other = (me1, other1)" by (cases "conflict_step hit f g me other")
  have "flags_le me me1"
    using conflict_step_hit [OF Cons.prems _ s] conflict_step_miss [of hit other f g me] s by (cases "hit other") auto
  then show ?case
    using Cons.IH [OF Cons.prems, of me] Cons.IH [OF Cons.prems, of me1] flags_le_trans
    by (auto simp: x s case_prod_beta)
qed simp

lemma mark_mono: "marks f g \<Longrightarrow> flags_le s s' \<Longrightarrow> f s = s \<Longrightarrow> f s' = s'"
proof -
  assume a: "marks f g" "flags_le s s'" "f s = s"
  have "mark_in t = t \<longleftrightarrow> in_conflict t" "mark_out t = t \<longleftrightarrow> out_conflict t" for t
    by (cases t; simp add: mark_in_def mark_out_def)+
  then show ?thesis using a by (auto simp: marks_def flags_le_def)
qed

lemma conflict_loop_other:
  assumes "marks f g" and "map_of xs oid = Some other" and "oid \<noteq> tid" and "hit other"
    and "conflict_loop (conflict_step hit f g) tid me xs = (me', xs')"
  shows "f me' = me' \<and> \<not> is_pivot me' \<and>
    (\<exists>other'. map_of xs' oid = Some other' \<and> g other' = other' \<and> (\<not> ssi_aborted me' \<longrightarrow> \<not> is_pivot other'))"
  using assms(2,5)
proof (induction xs arbitrary: me me' xs')
  case (Cons x xs)
  obtain i o1 where x: "x = (i, o1)" by (cases x)
  obtain me1 o2 where s: "conflict_step hit f g me o1 = (me1, o2)" by (cases "conflict_step hit f g me o1")
  show ?case
  proof (cases "i = oid")
    case True
    then have o1: "o1 = other" using Cons.prems(1) by (simp add: x)
    obtain ys where l: "conflict_loop (conflict_step hit f g) tid me1 xs = (me', ys)" "xs' = (i, o2) # ys"
      using Cons.prems(2) assms(3) True by (auto simp: x s split: prod.splits)
    have h: "\<not> is_pivot me1" "f me1 = me1" "g o2 = o2" "\<not> ssi_aborted me1 \<longrightarrow> \<not> is_pivot o2"
      using conflict_step_hit [OF assms(1) _ s] assms(4) o1 by auto
    have le: "flags_le me1 me'" using conflict_loop_me [OF assms(1), of me1 hit tid xs] l(1) by simp
    then have "f me' = me'" using mark_mono [OF assms(1) le] h(2) by simp
    then show ?thesis using h le l(2) True by (auto simp: flags_le_def)
  next
    case False
    then have o: "map_of xs oid = Some other" using Cons.prems(1) by (simp add: x)
    obtain m1 ys v where "conflict_loop (conflict_step hit f g) tid m1 xs = (me', ys)" "xs' = (i, v) # ys"
      using Cons.prems(2) by (cases "i = tid") (auto simp: x s split: prod.splits)
    then show ?thesis using Cons.IH [OF o] False by simp
  qed
qed simp

lemma recent_loop_flags: "mark \<in> {mark_in, mark_out} \<Longrightarrow> flags_le me (recent_loop hit mark me cs)"
proof (induction cs arbitrary: me)
  case (Cons c cs)
  let ?me = "if hit c then (let me = mark me in if is_pivot me then ssi_abort me else me) else me"
  have "flags_le me ?me"
    using Cons.prems by (auto simp: flags_le_def is_pivot_def ssi_abort_def mark_in_def mark_out_def Let_def)
  then show ?case unfolding recent_loop.simps by (rule flags_le_trans) (rule Cons.IH [OF Cons.prems])
qed simp

lemma conflict_recorded:
  assumes "marks f g" and "map_of xs oid = Some other" and "oid \<noteq> tid" and "hit other"
    and "conflict_loop (conflict_step hit f g) tid me xs = (me1, xs')" and "me' = recent_loop rhit f me1 cs"
  shows "f me' = me' \<and> \<not> is_pivot me' \<and>
    (\<exists>other'. map_of (AList.update tid me' xs') oid = Some other' \<and> g other' = other' \<and> (\<not> ssi_aborted me' \<longrightarrow> \<not> is_pivot other'))"
proof -
  have le: "flags_le me1 me'" unfolding assms(6) by (rule recent_loop_flags) (use assms(1) in \<open>auto simp: marks_def\<close>)
  have "f me1 = me1 \<and> \<not> is_pivot me1 \<and>
    (\<exists>other'. map_of xs' oid = Some other' \<and> g other' = other' \<and> (\<not> ssi_aborted me1 \<longrightarrow> \<not> is_pivot other'))"
    by (rule conflict_loop_other [OF assms(1-5)])
  then show ?thesis
    using mark_mono [OF assms(1) le] le assms(3) by (auto simp: flags_le_def update_conv)
qed

lemma mark_flag: "mark_in t = t \<longleftrightarrow> in_conflict t" "mark_out t = t \<longleftrightarrow> out_conflict t"
  by (cases t; simp add: mark_in_def mark_out_def)+

lemma commit_dangerous:
  "map_of (ssi m) t = Some s \<Longrightarrow> ssi_aborted s \<Longrightarrow> snd (commit t m) = Inl SerializationConflict \<and> \<not> is_active t (fst (commit t m))"
  by (simp add: commit_def Let_def is_dangerous_def is_active_def delete_conv)

section \<open>Properties\<close>

text \<open>C25. Snapshots separate the past from the future: in any history, a transaction that has committed did so
before an active transaction's snapshot was taken exactly if its id is smaller and it is not in the
snapshot's list of active transactions.\<close>

theorem snapshot_separates:
  assumes "length xs + 2 < 2 ^ 64" and "get_snapshot t (txn_run xs) = Inr sn" and "get_commit_ts c (txn_run xs) = Some ct"
  shows "ct < sn_start_ts sn \<longleftrightarrow> c < t \<and> c \<notin> set (sn_active_txns sn)"
proof -
  let ?m = "txn_run xs"
  obtain txn where "map_of (active_txns ?m) t = Some txn" and sn: "sn_start_ts sn = start_ts txn" "sn_active_txns sn = snapshot_active txn"
    using assms(2) by (auto simp: get_snapshot_def split: option.splits)
  then have t: "(t, txn) \<in> set (active_txns ?m)" by (auto dest: map_of_SomeD)
  have c: "(c, ct) \<in> set (committed_txns ?m)" using assms(3) by (auto simp: get_commit_ts_def dest: map_of_SomeD)
  have inv: "txn_inv (length xs) ?m" by (rule txn_run_inv [OF assms(1)])
  then have "c \<noteq> t" using t c by (force simp: txn_inv_def core_inv_def committed_ok_def)
  moreover have "\<forall>j \<in> set (snapshot_active txn). j < t" using inv t by (auto simp: txn_inv_def core_inv_def ids_ok_def)
  moreover have "(c \<in> set (snapshot_active txn) \<or> t < c \<longrightarrow> start_ts txn < ct) \<and>
      (c \<notin> set (snapshot_active txn) \<and> c < t \<longrightarrow> ct < start_ts txn)"
    using inv t c by (auto simp: txn_inv_def core_inv_def separated_def)
  ultimately show ?thesis unfolding sn by (metis linorder_neqE not_less_iff_gr_or_eq)
qed

theorem snapshot_separates_witness:
  "\<exists>sn. get_snapshot 2 (txn_run [OBegin 0 RepeatableRead None, OBegin 0 RepeatableRead None, OCommit 1]) = Inr sn \<and>
    get_commit_ts 1 (txn_run [OBegin 0 RepeatableRead None, OBegin 0 RepeatableRead None, OCommit 1]) = Some 3 \<and>
    \<not> 3 < sn_start_ts sn \<and> sn_active_txns sn = [1]"
proof -
  let ?xs = "[OBegin 0 RepeatableRead None, OBegin 0 RepeatableRead None, OCommit 1]"
  have "get_snapshot 2 (txn_run ?xs) = Inr \<lparr>sn_txn_id = 2, sn_start_ts = 2, sn_active_txns = [1]\<rparr>"
      "get_commit_ts 1 (txn_run ?xs) = Some 3"
    by (simp_all add: txn_run_def txn_manager_new_def begin_with_timeout_def commit_def get_snapshot_def get_commit_ts_def Let_def)
  then show ?thesis using snapshot_separates [of ?xs 2 _ 1 3] by auto
qed

text \<open>C26. When a serializable transaction writes a key that another one has read, or whose table it has scanned, the writer gets the
flag of an incoming and the reader that of an outgoing conflict. The writer does not stay a pivot (conflicts on both sides and not aborted). The reader does
not either unless the writer was aborted: the abort already breaks the pattern, and the reader is then left alone. A transaction of the two that is aborted
cannot commit; so if one of them has conflicts on both sides, at least one of them cannot commit.\<close>

theorem write_conflict_resolved:
  assumes "map_of (ssi m) tid = Some me" and "map_of (ssi m) oid = Some other" and "oid \<noteq> tid"
    and "(table, key) \<in> ssi_reads other \<or> table \<in> ssi_scanned other"
  shows "let m' = ssi_record_write tid table key m in
    \<exists>me' other'. map_of (ssi m') tid = Some me' \<and> map_of (ssi m') oid = Some other' \<and>
      in_conflict me' \<and> out_conflict other' \<and> \<not> is_pivot me' \<and> (\<not> ssi_aborted me' \<longrightarrow> \<not> is_pivot other') \<and>
      (ssi_aborted me' \<longrightarrow> snd (commit tid m') = Inl SerializationConflict) \<and>
      (ssi_aborted other' \<longrightarrow> snd (commit oid m') = Inl SerializationConflict) \<and>
      (out_conflict me' \<or> in_conflict other' \<longrightarrow>
        Inl SerializationConflict \<in> {snd (commit tid m'), snd (commit oid m')})"
proof -
  let ?hit = "\<lambda>other. (table, key) \<in> ssi_reads other \<or> table \<in> ssi_scanned other"
  let ?me = "me\<lparr>ssi_writes := insert (table, key) (ssi_writes me)\<rparr>" and ?m' = "ssi_record_write tid table key m"
  obtain me1 xs where l: "conflict_loop (conflict_step ?hit mark_in mark_out) tid ?me (ssi m) = (me1, xs)"
    by (cases "conflict_loop (conflict_step ?hit mark_in mark_out) tid ?me (ssi m)")
  let ?rhit = "\<lambda>c. c_commit_ts c > ssi_start_ts me1 \<and> ((table, key) \<in> c_reads c \<or> table \<in> c_scanned c)"
  define me' where "me' = recent_loop ?rhit mark_in me1 (map snd (ssi_recent m))"
  have ssi: "ssi ?m' = AList.update tid me' xs"
    using assms(1) l by (simp add: ssi_record_write_def me'_def Let_def)
  have "mark_in me' = me' \<and> \<not> is_pivot me' \<and> (\<exists>other'. map_of (AList.update tid me' xs) oid = Some other' \<and>
      mark_out other' = other' \<and> (\<not> ssi_aborted me' \<longrightarrow> \<not> is_pivot other'))"
    by (rule conflict_recorded [OF _ assms(2,3,4) l me'_def]) (simp add: marks_def)
  moreover have "map_of (ssi ?m') tid = Some me'" by (simp add: ssi update_conv)
  ultimately obtain other' where o: "map_of (ssi ?m') tid = Some me'" "map_of (ssi ?m') oid = Some other'" "in_conflict me'"
      "out_conflict other'" "\<not> is_pivot me'" "\<not> ssi_aborted me' \<longrightarrow> \<not> is_pivot other'"
    unfolding mark_flag ssi by blast
  have c: "ssi_aborted me' \<longrightarrow> snd (commit tid ?m') = Inl SerializationConflict"
      "ssi_aborted other' \<longrightarrow> snd (commit oid ?m') = Inl SerializationConflict"
    using commit_dangerous o(1,2) by blast+
  then have "Inl SerializationConflict \<in> {snd (commit tid ?m'), snd (commit oid ?m')}" if "out_conflict me' \<or> in_conflict other'"
    using that o(3-6) unfolding is_pivot_def by auto
  then show ?thesis unfolding Let_def using o c by blast
qed

theorem write_conflict_resolved_witness:
  "let m = txn_run [OBegin 0 Serializable None, OBegin 0 Serializable None, OScan 1 ''t'', OScan 2 ''t'', OWrite 2 ''t'' [2]];
       m' = ssi_record_write 1 ''t'' [1] m
   in Inl SerializationConflict \<in> {snd (commit 1 m'), snd (commit 2 m')}"
proof -
  let ?m = "txn_run [OBegin 0 Serializable None, OBegin 0 Serializable None, OScan 1 ''t'', OScan 2 ''t'', OWrite 2 ''t'' [2]]"
  let ?me = "(ssi_new 1)\<lparr>ssi_scanned := {''t''}, out_conflict := True\<rparr>"
    and ?other = "(ssi_new 2)\<lparr>ssi_scanned := {''t''}, ssi_writes := {(''t'', [2])}, in_conflict := True\<rparr>"
  have m: "map_of (ssi ?m) 1 = Some ?me" "map_of (ssi ?m) 2 = Some ?other"
    by (simp_all add: txn_run_def txn_manager_new_def begin_with_timeout_def ssi_record_predicate_def ssi_record_write_def
      conflict_step_def mark_in_def mark_out_def is_pivot_def ssi_new_def Let_def)
  have "out_conflict me'" if "map_of (ssi (ssi_record_write 1 ''t'' [1] ?m)) 1 = Some me'" for me'
    using that by (auto simp: ssi_record_write_def txn_run_def txn_manager_new_def begin_with_timeout_def ssi_record_predicate_def
      conflict_step_def mark_in_def mark_out_def is_pivot_def ssi_new_def ssi_abort_def Let_def)
  then show ?thesis
    using write_conflict_resolved [OF m, of "''t''" "[1]"] by (auto simp: Let_def)
qed

text \<open>
  A scan is not checked against the writes that concurrent transactions made before it: two transactions that
  scan a table and insert into it, the second one scanning after the first one's insertion, both commit
  although each missed the other's row.
\<close>

definition skew_run :: txn_manager where
  "skew_run = txn_run [OBegin 0 Serializable None, OBegin 0 Serializable None,
     OScan 1 ''t'', OWrite 1 ''t'' [1], OScan 2 ''t'', OWrite 2 ''t'' [2]]"

theorem phantom_write_skew_commits:
  "snd (commit 1 skew_run) = Inr 3 \<and> snd (commit 2 (fst (commit 1 skew_run))) = Inr 4"
  by (simp add: skew_run_def txn_run_def txn_manager_new_def begin_with_timeout_def ssi_record_predicate_def
      ssi_record_write_def conflict_step_def mark_in_def mark_out_def is_pivot_def ssi_new_def commit_def is_dangerous_def
      gc_ssi_recent_def Let_def)

end
