(* ===== verification/Versions.thy ===== *)
theory Versions
  imports Transactions "HOL-Library.Monad_Syntax"
begin

unbundle bit_operations_syntax

text \<open>
  The version store, \<open>bytedb-core/src/mvcc/version_store.rs\<close>, and \<open>mvcc/visibility.rs\<close>. Every key has a chain of
  versions, the newest last; the keys are spread over 64 shards by a hash of their bytes. Each operation holds
  the lock of the shard it works on (or of each shard in turn), so it is one step on the store. A shard is an association list; \<open>'d\<close> is the
  row type.
\<close>

section \<open>The store\<close>

definition SHARD_COUNT :: nat where "SHARD_COUNT = 64"

record 'd versioned_tuple =
  vt_data :: 'd
  created_by :: txn_id
  deleted_by :: "txn_id option"
  created_ts :: timestamp
  deleted_ts :: "timestamp option"

type_synonym 'd chain = "'d versioned_tuple list"
type_synonym 'd shard = "(bytes \<times> 'd chain) list"

record 'd version_store =
  shards :: "'d shard list"
  approx_keys :: u64

definition version_store_new :: "'d version_store" where
  "version_store_new = \<lparr>shards = replicate SHARD_COUNT [], approx_keys = 0\<rparr>"

definition is_empty_fast :: "'d version_store \<Rightarrow> bool" where
  "is_empty_fast s = (approx_keys s = 0)"

definition shard_index :: "bytes \<Rightarrow> nat" where
  "shard_index key =
     unat (fold (\<lambda>b h. (h XOR ucast b) * 0x100000001b3) key (0xcbf29ce484222325 :: u64) AND of_nat (SHARD_COUNT - 1))"

definition get_chain :: "'d version_store \<Rightarrow> bytes \<Rightarrow> 'd chain option" where
  "get_chain s key = map_of (shards s ! shard_index key) key"

definition put_chain :: "bytes \<Rightarrow> 'd chain \<Rightarrow> 'd version_store \<Rightarrow> 'd version_store" where
  "put_chain key c s =
     s\<lparr>shards := (shards s)[shard_index key := AList.update key c (shards s ! shard_index key)]\<rparr>"

definition add_key :: "bool \<Rightarrow> 'd version_store \<Rightarrow> 'd version_store" where
  "add_key was_absent s = (if was_absent then s\<lparr>approx_keys := approx_keys s + 1\<rparr> else s)"

definition or_empty :: "'d chain option \<Rightarrow> 'd chain" where
  "or_empty c = (case c of Some c \<Rightarrow> c | None \<Rightarrow> [])"

definition new_version :: "'d \<Rightarrow> txn_id \<Rightarrow> timestamp \<Rightarrow> 'd versioned_tuple" where
  "new_version d w ts = \<lparr>vt_data = d, created_by = w, deleted_by = None, created_ts = ts, deleted_ts = None\<rparr>"

definition mark_deleted :: "txn_id \<Rightarrow> timestamp \<Rightarrow> 'd versioned_tuple \<Rightarrow> 'd versioned_tuple" where
  "mark_deleted w ts v = v\<lparr>deleted_by := Some w, deleted_ts := Some ts\<rparr>"

section \<open>Writing\<close>

definition vs_insert :: "bytes \<Rightarrow> 'd \<Rightarrow> txn_id \<Rightarrow> timestamp \<Rightarrow> 'd version_store \<Rightarrow> 'd version_store" where
  "vs_insert key d w ts s =
     add_key (get_chain s key = None) (put_chain key (or_empty (get_chain s key) @ [new_version d w ts]) s)"

text \<open>The newest version that is not deleted is marked: the list is walked from its end.\<close>

fun delete_first :: "txn_id \<Rightarrow> timestamp \<Rightarrow> 'd chain \<Rightarrow> 'd chain option" where
  "delete_first w ts [] = None"
| "delete_first w ts (v # vs) =
     (if deleted_by v = None then Some (mark_deleted w ts v # vs) else map_option ((#) v) (delete_first w ts vs))"

definition vs_delete :: "bytes \<Rightarrow> txn_id \<Rightarrow> timestamp \<Rightarrow> 'd version_store \<Rightarrow> 'd version_store \<times> bool" where
  "vs_delete key w ts s =
     (case get_chain s key of
        None \<Rightarrow> (s, False)
      | Some c \<Rightarrow>
          (case delete_first w ts (rev c) of
             None \<Rightarrow> (s, False)
           | Some c' \<Rightarrow> (put_chain key (rev c') s, True)))"

text \<open>The checks that \<open>try_delete\<close> and \<open>try_update\<close> share, after the one on the deleter.\<close>

definition stamp_conflict :: "txn_id \<Rightarrow> timestamp \<Rightarrow> txn_id list \<Rightarrow> 'd versioned_tuple \<Rightarrow> bool" where
  "stamp_conflict w snapshot_ts active v \<longleftrightarrow>
     created_by v \<noteq> w \<and> created_by v \<in> set active \<or>
     created_by v \<noteq> w \<and> created_ts v > snapshot_ts \<or>
     (case deleted_ts v of Some dts \<Rightarrow> deleted_by v \<noteq> Some w \<and> dts > snapshot_ts | None \<Rightarrow> False)"

definition active_deleter :: "txn_id \<Rightarrow> txn_id list \<Rightarrow> 'd versioned_tuple \<Rightarrow> bool" where
  "active_deleter w active v = (case deleted_by v of Some d \<Rightarrow> d \<noteq> w \<and> d \<in> set active | None \<Rightarrow> False)"

definition try_delete ::
  "bytes \<Rightarrow> txn_id \<Rightarrow> timestamp \<Rightarrow> timestamp \<Rightarrow> txn_id list \<Rightarrow> 'd version_store \<Rightarrow> 'd version_store \<times> bool result"
where
  "try_delete key w ts snapshot_ts active s =
     (case get_chain s key of
        None \<Rightarrow> (s, Inr False)
      | Some [] \<Rightarrow> (s, Inr False)
      | Some c \<Rightarrow>
          let latest = last c in
          if active_deleter w active latest then (s, Inl WriteConflict)
          else if (case deleted_by latest of Some d \<Rightarrow> d \<noteq> w | None \<Rightarrow> False) then (s, Inr False)
          else if stamp_conflict w snapshot_ts active latest then (s, Inl WriteConflict)
          else (put_chain key (butlast c @ [mark_deleted w ts latest]) s, Inr True))"

definition ensure_base :: "bytes \<Rightarrow> 'd \<Rightarrow> 'd version_store \<Rightarrow> 'd version_store" where
  "ensure_base key committed s =
     (let was_absent = (get_chain s key = None); c = or_empty (get_chain s key)
      in if c = [] then add_key was_absent (put_chain key [new_version committed 0 0] s) else s)"

definition try_update ::
  "bytes \<Rightarrow> 'd \<Rightarrow> txn_id \<Rightarrow> timestamp \<Rightarrow> timestamp \<Rightarrow> txn_id list \<Rightarrow> 'd version_store \<Rightarrow> 'd version_store \<times> unit result"
where
  "try_update key d w ts snapshot_ts active s =
     (let was_absent = (get_chain s key = None); c = or_empty (get_chain s key)
      in if c \<noteq> [] \<and> (active_deleter w active (last c) \<or> stamp_conflict w snapshot_ts active (last c))
         then (s, Inl WriteConflict)
         else (add_key was_absent (put_chain key (c @ [new_version d w ts]) s), Inr ()))"

section \<open>Reading\<close>

definition is_visible :: "'d versioned_tuple \<Rightarrow> txn_id \<Rightarrow> timestamp \<Rightarrow> txn_id list \<Rightarrow> bool" where
  "is_visible v r snapshot_ts active =
     (if created_by v = r then deleted_by v = None \<or> deleted_by v = Some r
      else if created_by v \<in> set active then False
      else if created_ts v > snapshot_ts then False
      else case deleted_by v of
        Some d \<Rightarrow>
          if d = r then False
          else if d \<notin> set active
          then (case deleted_ts v of Some dts \<Rightarrow> \<not> dts \<le> snapshot_ts | None \<Rightarrow> True)
          else True
      | None \<Rightarrow> True)"

definition is_tuple_visible :: "'d versioned_tuple \<Rightarrow> snapshot \<Rightarrow> bool" where
  "is_tuple_visible v sn =
     (if created_by v = sn_txn_id sn then deleted_by v = None \<or> deleted_by v \<noteq> Some (sn_txn_id sn)
      else if created_by v \<in> set (sn_active_txns sn) then False
      else if created_ts v > sn_start_ts sn then False
      else case deleted_by v of
        Some d \<Rightarrow>
          if d = sn_txn_id sn then False
          else if d \<notin> set (sn_active_txns sn)
          then (case deleted_ts v of Some dts \<Rightarrow> \<not> dts \<le> sn_start_ts sn | None \<Rightarrow> True)
          else True
      | None \<Rightarrow> True)"

definition check_write_conflict :: "'d versioned_tuple \<Rightarrow> txn_id \<Rightarrow> snapshot \<Rightarrow> bool" where
  "check_write_conflict v w sn =
     (if (case deleted_by v of Some d \<Rightarrow> d \<noteq> w \<and> d \<in> set (sn_active_txns sn) | None \<Rightarrow> False) then True
      else created_by v \<noteq> w \<and> created_by v \<in> set (sn_active_txns sn) \<and> created_ts v > sn_start_ts sn)"

definition newest_visible :: "txn_id \<Rightarrow> timestamp \<Rightarrow> txn_id list \<Rightarrow> 'd chain \<Rightarrow> 'd option" where
  "newest_visible r sts active c = map_option vt_data (find (\<lambda>v. is_visible v r sts active) (rev c))"

definition get_visible :: "'d version_store \<Rightarrow> bytes \<Rightarrow> txn_id \<Rightarrow> timestamp \<Rightarrow> txn_id list \<Rightarrow> 'd option" where
  "get_visible s key r sts active =
     (case get_chain s key of Some c \<Rightarrow> newest_visible r sts active c | None \<Rightarrow> None)"



definition get_all_visible :: "'d version_store \<Rightarrow> txn_id \<Rightarrow> timestamp \<Rightarrow> txn_id list \<Rightarrow> (bytes \<times> 'd) list" where
  "get_all_visible s r sts active =
     concat (map (List.map_filter (\<lambda>(k, c). map_option (Pair k) (newest_visible r sts active c))) (shards s))"

definition snapshot_resolved :: "'d version_store \<Rightarrow> txn_id \<Rightarrow> timestamp \<Rightarrow> txn_id list \<Rightarrow> (bytes \<times> 'd option) list" where
  "snapshot_resolved s r sts active = concat (map (map (\<lambda>(k, c). (k, newest_visible r sts active c))) (shards s))"

text \<open>The callback works on its captured state and says whether to go on.\<close>

fun visit_all :: "('a \<Rightarrow> bytes \<times> 'd \<Rightarrow> 'a \<times> bool) \<Rightarrow> 'a \<Rightarrow> (bytes \<times> 'd) list \<Rightarrow> 'a" where
  "visit_all f a [] = a"
| "visit_all f a (x # xs) = (case f a x of (a', go_on) \<Rightarrow> if go_on then visit_all f a' xs else a')"

definition for_each_visible ::
  "'d version_store \<Rightarrow> txn_id \<Rightarrow> timestamp \<Rightarrow> txn_id list \<Rightarrow> ('a \<Rightarrow> bytes \<times> 'd \<Rightarrow> 'a \<times> bool) \<Rightarrow> 'a \<Rightarrow> 'a"
where
  "for_each_visible s r sts active f a = visit_all f a (get_all_visible s r sts active)"

section \<open>Clean-up\<close>

text \<open>\<open>retain\<close> on every shard: each chain is rewritten, and dropped when it is empty afterwards.\<close>

definition retain_shard :: "('d chain \<Rightarrow> 'd chain) \<Rightarrow> 'd shard \<Rightarrow> 'd shard" where
  "retain_shard f sh = filter (\<lambda>(_, c). c \<noteq> []) (map (\<lambda>(k, c). (k, f c)) sh)"

definition dropped_keys :: "('d chain \<Rightarrow> 'd chain) \<Rightarrow> 'd version_store \<Rightarrow> nat" where
  "dropped_keys f s = sum_list (map (\<lambda>sh. length sh - length (retain_shard f sh)) (shards s))"

definition retain_chains :: "('d chain \<Rightarrow> 'd chain) \<Rightarrow> 'd version_store \<Rightarrow> 'd version_store" where
  "retain_chains f s =
     s\<lparr>shards := map (retain_shard f) (shards s), approx_keys := approx_keys s - of_nat (dropped_keys f s)\<rparr>"

record gc_stats =
  versions_removed :: u64
  keys_removed :: u64

definition total_versions :: "'d version_store \<Rightarrow> nat" where
  "total_versions s = sum_list (map (\<lambda>sh. sum_list (map (length \<circ> snd) sh)) (shards s))"

definition gc_keeps :: "timestamp \<Rightarrow> txn_id list \<Rightarrow> 'd versioned_tuple \<Rightarrow> bool" where
  "gc_keeps oldest aborted v =
     (if created_by v \<in> set aborted then False
      else case deleted_ts v of Some dts \<Rightarrow> \<not> dts < oldest | None \<Rightarrow> True)"

definition gc_with_aborted :: "timestamp \<Rightarrow> txn_id list \<Rightarrow> 'd version_store \<Rightarrow> 'd version_store \<times> gc_stats" where
  "gc_with_aborted oldest aborted s =
     (let f = filter (gc_keeps oldest aborted); s' = retain_chains f s
      in (s', \<lparr>versions_removed = of_nat (total_versions s - total_versions s'), keys_removed = of_nat (dropped_keys f s)\<rparr>))"

definition gc :: "timestamp \<Rightarrow> 'd version_store \<Rightarrow> 'd version_store" where
  "gc oldest s = fst (gc_with_aborted oldest [] s)"

definition undelete :: "txn_id \<Rightarrow> 'd versioned_tuple \<Rightarrow> 'd versioned_tuple" where
  "undelete w v = (if deleted_by v = Some w then v\<lparr>deleted_by := None, deleted_ts := None\<rparr> else v)"

definition rollback_chain :: "txn_id \<Rightarrow> 'd chain \<Rightarrow> 'd chain" where
  "rollback_chain w c = filter (\<lambda>v. created_by v \<noteq> w) (map (undelete w) c)"

definition rollback_txn :: "txn_id \<Rightarrow> 'd version_store \<Rightarrow> 'd version_store" where
  "rollback_txn w s = retain_chains (rollback_chain w) s"

definition key_count :: "'d version_store \<Rightarrow> u64" where
  "key_count s = approx_keys s"

definition live_dead_counts :: "timestamp \<Rightarrow> 'd version_store \<Rightarrow> u64 \<times> u64" where
  "live_dead_counts oldest s =
     (let vs = concat (map (\<lambda>sh. concat (map snd sh)) (shards s));
          dead = filter (\<lambda>v. case deleted_ts v of Some dts \<Rightarrow> dts < oldest | None \<Rightarrow> False) vs
      in (of_nat (length vs - length dead), of_nat (length dead)))"


section \<open>The shards are one map\<close>

text \<open>The shards have distinct keys, every key is in its own shard, and the counter counts the keys.\<close>

definition shards_ok :: "'d shard list \<Rightarrow> bool" where
  "shards_ok ss \<longleftrightarrow> length ss = SHARD_COUNT \<and>
     (\<forall>i < SHARD_COUNT. distinct (map fst (ss ! i)) \<and> (\<forall>k \<in> fst ` set (ss ! i). shard_index k = i))"

definition total_keys :: "'d shard list \<Rightarrow> nat" where
  "total_keys ss = sum_list (map length ss)"

definition store_ok :: "'d version_store \<Rightarrow> bool" where
  "store_ok s \<longleftrightarrow> shards_ok (shards s) \<and> approx_keys s = of_nat (total_keys (shards s))"

lemma shard_index_less: "shard_index key < SHARD_COUNT"
proof -
  have "(w :: u64) AND 63 \<le> 63" for w by (rule word_and_le1)
  then have "unat ((w :: u64) AND 63) < 64" for w by (simp add: word_le_nat_alt less_eq_Suc_le [symmetric] le_imp_less_Suc [of _ 63, simplified])
  then show ?thesis unfolding shard_index_def SHARD_COUNT_def by simp
qed

lemma new_store_ok: "store_ok version_store_new"
  by (simp add: store_ok_def shards_ok_def version_store_new_def total_keys_def sum_list_replicate)

lemma new_store_chain [simp]: "get_chain version_store_new k = None"
  using shard_index_less [of k] by (simp add: get_chain_def version_store_new_def)

lemma get_put_chain:
  assumes "length (shards s) = SHARD_COUNT"
  shows "get_chain (put_chain key c s) k = (if k = key then Some c else get_chain s k)"
  using assms shard_index_less [of key] shard_index_less [of k]
  by (cases "shard_index k = shard_index key") (auto simp: get_chain_def put_chain_def update_conv)

lemma length_update: "length (AList.update k v al) = (if k \<in> fst ` set al then length al else Suc (length al))"
  by (induction al) auto

lemma sum_list_update_nth: "i < length xs \<Longrightarrow> sum_list (map f (xs[i := y])) + f (xs ! i) = sum_list (map f xs) + (f y :: nat)"
proof (induction xs arbitrary: i)
  case (Cons x xs)
  then show ?case by (cases i) auto
qed simp

lemma put_chain_ok:
  assumes "store_ok s"
  shows "store_ok (add_key (get_chain s key = None) (put_chain key c s))"
proof -
  let ?i = "shard_index key" and ?sh = "shards s ! shard_index key"
  have len: "length (shards s) = SHARD_COUNT" "?i < length (shards s)"
    using assms shard_index_less [of key] by (auto simp: store_ok_def shards_ok_def)
  have "distinct (map fst ?sh)" using assms shard_index_less [of key] by (auto simp: store_ok_def shards_ok_def)
  then have d: "distinct (map fst (AList.update key c ?sh))" by (rule distinct_update)
  have keys: "fst ` set (AList.update key c ?sh) = insert key (fst ` set ?sh)" by (simp add: dom_update)
  have "\<forall>k \<in> fst ` set (AList.update key c ?sh). shard_index k = ?i"
    unfolding keys using assms shard_index_less [of key] by (auto simp: store_ok_def shards_ok_def)
  then have "shards_ok ((shards s)[?i := AList.update key c ?sh])"
    using assms d len unfolding store_ok_def shards_ok_def by (simp add: nth_list_update)
  moreover have "key \<in> fst ` set ?sh \<longleftrightarrow> get_chain s key \<noteq> None"
    by (auto simp: get_chain_def map_of_eq_None_iff)
  then have "total_keys ((shards s)[?i := AList.update key c ?sh]) = total_keys (shards s) + (if get_chain s key = None then 1 else 0)"
    using sum_list_update_nth [OF len(2), of length "AList.update key c ?sh"] by (auto simp: total_keys_def length_update)
  ultimately show ?thesis
    using assms by (simp add: store_ok_def add_key_def put_chain_def)
qed

lemma get_chain_add_key [simp]: "get_chain (add_key b s) k = get_chain s k"
  by (simp add: get_chain_def add_key_def)

lemma store_len: "store_ok s \<Longrightarrow> length (shards s) = SHARD_COUNT"
  by (simp add: store_ok_def shards_ok_def)

lemma map_of_retain:
  assumes "distinct (map fst sh)"
  shows "map_of (retain_shard f sh) k =
    (case map_of sh k of Some c \<Rightarrow> if f c = [] then None else Some (f c) | None \<Rightarrow> None)"
  using assms
proof (induction sh)
  case (Cons x sh)
  obtain k' c where x: "x = (k', c)" by (cases x)
  have "map_of sh k' = None" using Cons.prems by (simp add: x map_of_eq_None_iff)
  then show ?case using Cons by (auto simp: x retain_shard_def)
qed (simp add: retain_shard_def)

lemma get_retain_chains:
  assumes "store_ok s"
  shows "get_chain (retain_chains f s) k =
    (case get_chain s k of Some c \<Rightarrow> if f c = [] then None else Some (f c) | None \<Rightarrow> None)"
  using assms shard_index_less [of k]
  by (simp add: get_chain_def retain_chains_def store_ok_def shards_ok_def map_of_retain)

lemma retain_keys: "map fst (retain_shard f sh) = map fst (filter (\<lambda>(_, c). f c \<noteq> []) sh)"
  by (induction sh) (auto simp: retain_shard_def)

lemma length_retain_le: "length (retain_shard f sh) \<le> length sh"
  unfolding retain_shard_def by (rule order_trans [OF length_filter_le]) simp

lemma retain_chains_ok:
  assumes "store_ok s"
  shows "store_ok (retain_chains f s)"
proof -
  have "shards_ok (map (retain_shard f) (shards s))"
    unfolding shards_ok_def
  proof (intro conjI allI impI)
    show "length (map (retain_shard f) (shards s)) = SHARD_COUNT" using store_len [OF assms] by simp
    fix i assume i: "i < SHARD_COUNT"
    then have sh: "distinct (map fst (shards s ! i))" "\<forall>k \<in> fst ` set (shards s ! i). shard_index k = i"
      using assms by (auto simp: store_ok_def shards_ok_def)
    have n: "map (retain_shard f) (shards s) ! i = retain_shard f (shards s ! i)" using i store_len [OF assms] by simp
    show "distinct (map fst (map (retain_shard f) (shards s) ! i))"
      unfolding n retain_keys using sh(1) by (simp add: distinct_map_filter)
    have "fst ` set (retain_shard f (shards s ! i)) \<subseteq> fst ` set (shards s ! i)"
      unfolding retain_shard_def by force
    then show "\<forall>k \<in> fst ` set (map (retain_shard f) (shards s) ! i). shard_index k = i" unfolding n using sh(2) by blast
  qed
  moreover have "length (retain_shard f sh) + (length sh - length (retain_shard f sh)) = length sh" for sh
    by (simp add: length_retain_le)
  then have "total_keys (map (retain_shard f) ss) + sum_list (map (\<lambda>sh. length sh - length (retain_shard f sh)) ss) = total_keys ss" for ss
    by (induction ss) (auto simp: total_keys_def add_ac)
  then have "of_nat (total_keys (map (retain_shard f) (shards s))) + of_nat (dropped_keys f s) = (of_nat (total_keys (shards s)) :: u64)"
    unfolding dropped_keys_def of_nat_add [symmetric] by simp
  ultimately show ?thesis
    using assms by (simp add: store_ok_def retain_chains_def algebra_simps)
qed

lemma distinct_concat_by:
  "\<forall>i < length xss. distinct (xss ! i) \<and> (\<forall>k \<in> set (xss ! i). g k = n + i) \<Longrightarrow> distinct (concat xss) \<and> (\<forall>k \<in> set (concat xss). n \<le> g k)"
proof (induction xss arbitrary: n)
  case (Cons xs xss)
  have "\<forall>i < length xss. distinct (xss ! i) \<and> (\<forall>k \<in> set (xss ! i). g k = Suc n + i)"
    using Cons.prems by (auto dest: spec [of _ "Suc _"])
  then have IH: "distinct (concat xss)" "\<forall>k \<in> set (concat xss). Suc n \<le> g k" using Cons.IH by blast+
  have xs: "distinct xs" "\<forall>k \<in> set xs. g k = n" using Cons.prems by (auto dest: spec [of _ 0])
  have "set xs \<inter> set (concat xss) = {}" using xs(2) IH(2) by (metis Suc_n_not_le_n disjoint_iff)
  moreover have "\<forall>k \<in> set (concat xss). n \<le> g k" using IH(2) by (blast intro: Suc_leD)
  ultimately show ?case using IH(1) xs by (simp add: ball_Un)
qed simp

lemma all_entries:
  assumes "store_ok s"
  shows "distinct (map fst (concat (shards s)))" and "(k, c) \<in> set (concat (shards s)) \<longleftrightarrow> get_chain s k = Some c"
proof -
  have sh: "distinct (map fst (shards s ! i))" "\<forall>k \<in> fst ` set (shards s ! i). shard_index k = i" if "i < SHARD_COUNT" for i
    using assms that by (auto simp: store_ok_def shards_ok_def)
  have "\<forall>i < length (map (map fst) (shards s)). distinct (map (map fst) (shards s) ! i) \<and>
      (\<forall>k \<in> set (map (map fst) (shards s) ! i). shard_index k = 0 + i)"
    using sh store_len [OF assms] by simp
  then have "distinct (concat (map (map fst) (shards s)))" using distinct_concat_by by blast
  then show "distinct (map fst (concat (shards s)))" by (simp add: map_concat)
  have "map_of (shards s ! shard_index k) k = Some c \<longleftrightarrow> (k, c) \<in> set (shards s ! shard_index k)"
    using sh(1) [OF shard_index_less] by simp
  moreover have "(k, c) \<in> set (shards s ! i) \<Longrightarrow> i < SHARD_COUNT \<Longrightarrow> i = shard_index k" for i
    using sh(2) [of i] by force
  ultimately show "(k, c) \<in> set (concat (shards s)) \<longleftrightarrow> get_chain s k = Some c"
    using store_len [OF assms] shard_index_less [of k] unfolding get_chain_def
    by (metis (no_types, lifting) UN_E UN_I in_set_conv_nth nth_mem set_concat)
qed

section \<open>Histories\<close>

datatype 'd vs_op =
    VInsert bytes 'd txn_id timestamp
  | VDelete bytes txn_id timestamp
  | VTryDelete bytes txn_id timestamp timestamp "txn_id list"
  | VEnsureBase bytes 'd
  | VTryUpdate bytes 'd txn_id timestamp timestamp "txn_id list"
  | VGc timestamp "txn_id list"
  | VRollback txn_id

fun vs_do :: "'d vs_op \<Rightarrow> 'd version_store \<Rightarrow> 'd version_store" where
  "vs_do (VInsert k d w ts) s = vs_insert k d w ts s"
| "vs_do (VDelete k w ts) s = fst (vs_delete k w ts s)"
| "vs_do (VTryDelete k w ts sts act) s = fst (try_delete k w ts sts act s)"
| "vs_do (VEnsureBase k d) s = ensure_base k d s"
| "vs_do (VTryUpdate k d w ts sts act) s = fst (try_update k d w ts sts act s)"
| "vs_do (VGc oldest aborted) s = fst (gc_with_aborted oldest aborted s)"
| "vs_do (VRollback w) s = rollback_txn w s"

definition vs_run :: "'d vs_op list \<Rightarrow> 'd version_store" where
  "vs_run xs = fold vs_do xs version_store_new"

lemma put_present_ok: "store_ok s \<Longrightarrow> get_chain s key = Some c' \<Longrightarrow> store_ok (put_chain key c s)"
  using put_chain_ok [of s key c] by (simp add: add_key_def)

lemma vs_do_ok: "store_ok s \<Longrightarrow> store_ok (vs_do x s)"
proof (cases x)
  case (VInsert k d w ts)
  assume "store_ok s"
  then show ?thesis by (simp add: VInsert vs_insert_def put_chain_ok)
next
  case (VDelete k w ts)
  assume "store_ok s"
  then show ?thesis by (simp add: VDelete vs_delete_def put_present_ok split: option.split)
next
  case (VTryDelete k w ts sts act)
  assume "store_ok s"
  then show ?thesis by (simp add: VTryDelete try_delete_def put_present_ok Let_def split: option.split list.split)
next
  case (VEnsureBase k d)
  assume "store_ok s"
  then show ?thesis by (simp add: VEnsureBase ensure_base_def put_chain_ok Let_def)
next
  case (VTryUpdate k d w ts sts act)
  assume "store_ok s"
  then show ?thesis by (simp add: VTryUpdate try_update_def put_chain_ok Let_def)
next
  case (VGc oldest aborted)
  assume "store_ok s"
  then show ?thesis by (simp add: VGc gc_with_aborted_def retain_chains_ok Let_def)
next
  case (VRollback w)
  assume "store_ok s"
  then show ?thesis by (simp add: VRollback rollback_txn_def retain_chains_ok)
qed

lemma vs_run_ok: "store_ok (vs_run xs)"
proof (induction xs rule: rev_induct)
  case Nil
  show ?case by (simp add: vs_run_def new_store_ok)
next
  case (snoc x xs)
  then show ?case using vs_do_ok by (simp add: vs_run_def)
qed

section \<open>Scans and point reads\<close>

lemma set_map_filter: "set (List.map_filter f xs) = {y. \<exists>x \<in> set xs. f x = Some y}"
  by (induction xs) (auto simp: List.map_filter_def split: option.splits)

lemma resolved_concat:
  "snapshot_resolved s r sts act = map (\<lambda>(k, c). (k, newest_visible r sts act c)) (concat (shards s))"
  by (simp add: snapshot_resolved_def map_concat)

lemma get_all_visible_set:
  assumes "store_ok s"
  shows "(k, d) \<in> set (get_all_visible s r sts act) \<longleftrightarrow> get_visible s k r sts act = Some d"
proof -
  have "(k, d) \<in> set (get_all_visible s r sts act) \<longleftrightarrow> (\<exists>c. (k, c) \<in> set (concat (shards s)) \<and> newest_visible r sts act c = Some d)"
    by (force simp: get_all_visible_def set_map_filter)
  also have "\<dots> \<longleftrightarrow> get_visible s k r sts act = Some d"
    unfolding all_entries(2) [OF assms] by (auto simp: get_visible_def split: option.splits)
  finally show ?thesis .
qed

lemma resolved_lookup:
  assumes "store_ok s"
  shows "map_of (snapshot_resolved s r sts act) k = map_option (\<lambda>_. get_visible s k r sts act) (get_chain s k)"
proof -
  have "map_of (map (\<lambda>(k, c). (k, f c)) xs) k = map_option f (map_of xs k)" for f :: "'a chain \<Rightarrow> 'a option" and xs
    by (induction xs) auto
  moreover have "map_of (concat (shards s)) k = get_chain s k"
  proof (cases "get_chain s k")
    case None
    then have "k \<notin> fst ` set (concat (shards s))"
      unfolding fst_eq_Domain Domain_unfold all_entries(2) [OF assms] by simp
    then have "map_of (concat (shards s)) k = None" by (simp only: map_of_eq_None_iff not_False_eq_True)
    then show ?thesis using None by (simp only:)
  next
    case (Some c)
    then have "(k, c) \<in> set (concat (shards s))" using all_entries(2) [OF assms] by blast
    then show ?thesis using Some map_of_is_SomeI [OF all_entries(1) [OF assms]] by simp
  qed
  ultimately show ?thesis unfolding resolved_concat by (cases "get_chain s k") (simp_all add: get_visible_def)
qed

lemma key_count_dom:
  assumes "store_ok s"
  shows "key_count s = of_nat (card {k. get_chain s k \<noteq> None})"
proof -
  have "{k. get_chain s k \<noteq> None} = Domain (set (concat (shards s)))"
    unfolding Domain_unfold all_entries(2) [OF assms] by simp
  then have "{k. get_chain s k \<noteq> None} = set (map fst (concat (shards s)))" by (simp only: fst_eq_Domain set_map)
  then have "card {k. get_chain s k \<noteq> None} = length (concat (shards s))"
    using distinct_card [OF all_entries(1) [OF assms]] by simp
  then show ?thesis using assms by (simp add: key_count_def store_ok_def total_keys_def length_concat)
qed

section \<open>What a reader sees\<close>

text \<open>
  The operations that the executor runs for a row change: an insertion, an update or a deletion of a row that the
  table already has (its committed value becomes the base version), and the rollback of a transaction. Every transaction writes with its own
  start timestamp.
\<close>

datatype 'd row_op =
    RInsert bytes 'd txn_id
  | RUpdate bytes 'd 'd txn_id "txn_id list"
  | RDelete bytes 'd txn_id "txn_id list"
  | RRollback txn_id

fun writer :: "'d row_op \<Rightarrow> txn_id" where
  "writer (RInsert k d w) = w"
| "writer (RUpdate k old d w act) = w"
| "writer (RDelete k old w act) = w"
| "writer (RRollback w) = w"




definition stamped :: "(txn_id \<Rightarrow> timestamp) \<Rightarrow> 'd versioned_tuple \<Rightarrow> bool" where
  "stamped ts v \<longleftrightarrow> created_ts v = ts (created_by v) \<and> deleted_ts v = map_option ts (deleted_by v)"






lemma newest_append:
  "newest_visible r sts act (c @ [v]) = (if is_visible v r sts act then Some (vt_data v) else newest_visible r sts act c)"
  by (simp add: newest_visible_def)

lemma newest_filter_map:
  assumes "\<forall>v \<in> set c. if P (f v) then is_visible (f v) r sts act = is_visible v r sts act \<and> vt_data (f v) = vt_data v
    else \<not> is_visible v r sts act"
  shows "newest_visible r sts act (filter P (map f c)) = newest_visible r sts act c"
  using assms by (induction c rule: rev_induct) (auto simp: newest_append newest_visible_def)

definition hidden :: "(txn_id \<Rightarrow> timestamp) \<Rightarrow> txn_id \<Rightarrow> txn_id list \<Rightarrow> txn_id \<Rightarrow> bool" where
  "hidden ts r act w \<longleftrightarrow> w \<noteq> r \<and> w \<noteq> 0 \<and> (w \<in> set act \<or> ts w > ts r)"


lemma created_hidden: "hidden ts r act w \<Longrightarrow> stamped ts v \<Longrightarrow> created_by v = w \<Longrightarrow> \<not> is_visible v r (ts r) act"
  by (auto simp: hidden_def is_visible_def stamped_def)


















section \<open>Garbage collection\<close>

text \<open>
  A version whose deletion is older than every snapshot is invisible: the reader started no earlier than
  \<open>oldest\<close>, and so did every transaction that its snapshot counts as active.
\<close>

lemma gc_dropped_invisible:
  assumes "stamped ts v" and "oldest \<le> ts r" and "\<forall>w \<in> set act. oldest \<le> ts w" and "\<forall>w \<in> set aborted. hidden ts r act w"
    and "\<not> gc_keeps oldest aborted v"
  shows "\<not> is_visible v r (ts r) act"
proof (cases "created_by v \<in> set aborted")
  case True
  then show ?thesis using created_hidden assms(1,4) by blast
next
  case False
  then obtain d where d: "deleted_by v = Some d" "deleted_ts v = Some (ts d)" "ts d < oldest"
    using assms(1,5) by (auto simp: gc_keeps_def stamped_def split: option.splits)
  then have "d \<noteq> r" "d \<notin> set act" "ts d \<le> ts r" using assms(2,3) by auto
  then show ?thesis using d by (simp add: is_visible_def)
qed

lemma newest_filter:
  assumes "\<forall>v \<in> set c. \<not> P v \<longrightarrow> \<not> is_visible v r sts act"
  shows "newest_visible r sts act (filter P c) = newest_visible r sts act c"
proof -
  have "newest_visible r sts act (filter P (map (\<lambda>v. v) c)) = newest_visible r sts act c"
    by (rule newest_filter_map) (use assms in simp)
  then show ?thesis by simp
qed

lemma get_gc:
  assumes "store_ok s"
  shows "get_visible (fst (gc_with_aborted oldest aborted s)) k r sts act =
    (case get_chain s k of Some c \<Rightarrow> newest_visible r sts act (filter (gc_keeps oldest aborted) c) | None \<Rightarrow> None)"
  by (simp add: get_visible_def gc_with_aborted_def Let_def get_retain_chains [OF assms] newest_visible_def split: option.split)

section \<open>Properties\<close>

text \<open>C28. After any history of insertions, deletions, updates, base versions, collections and rollbacks the sharded
  store behaves as one map: \<open>snapshot_resolved\<close> lists every key with a chain exactly once with what \<open>get_visible\<close>
  finds for it, \<open>get_all_visible\<close> lists exactly the visible rows, each key once, and \<open>key_count\<close> is the number of keys.\<close>

theorem scans_agree:
  "distinct (map fst (snapshot_resolved (vs_run xs) r sts act)) \<and>
   map_of (snapshot_resolved (vs_run xs) r sts act) k =
     map_option (\<lambda>_. get_visible (vs_run xs) k r sts act) (get_chain (vs_run xs) k) \<and>
   distinct (map fst (get_all_visible (vs_run xs) r sts act)) \<and>
   set (get_all_visible (vs_run xs) r sts act) = {(k, d). get_visible (vs_run xs) k r sts act = Some d} \<and>
   key_count (vs_run xs) = of_nat (card {k. get_chain (vs_run xs) k \<noteq> None})"
proof -
  have ok: "store_ok (vs_run xs)" by (rule vs_run_ok)
  have d: "distinct (map fst (List.map_filter (\<lambda>(k, c). map_option (Pair k) (f c)) ys))"
    if "distinct (map fst ys)" for f :: "'a chain \<Rightarrow> 'a option" and ys :: "(bytes \<times> 'a chain) list"
    using that by (induction ys) (force simp: List.map_filter_def split: option.splits)+
  have "map fst (snapshot_resolved (vs_run xs) r sts act) = map fst (concat (shards (vs_run xs)))"
    unfolding resolved_concat by (simp add: comp_def case_prod_beta)
  then have "distinct (map fst (snapshot_resolved (vs_run xs) r sts act))" using all_entries(1) [OF ok] by simp
  moreover have "List.map_filter f (concat yss) = concat (map (List.map_filter f) yss)" for f :: "bytes \<times> 'a chain \<Rightarrow> (bytes \<times> 'a) option" and yss
    by (induction yss) (simp_all add: List.map_filter_def)
  then have "get_all_visible (vs_run xs) r sts act =
      List.map_filter (\<lambda>(k, c). map_option (Pair k) (newest_visible r sts act c)) (concat (shards (vs_run xs)))"
    by (simp add: get_all_visible_def)
  then have "distinct (map fst (get_all_visible (vs_run xs) r sts act))" using d [OF all_entries(1) [OF ok]] by simp
  moreover have "set (get_all_visible (vs_run xs) r sts act) = {(k, d). get_visible (vs_run xs) k r sts act = Some d}"
    using get_all_visible_set [OF ok] by auto
  ultimately show ?thesis using resolved_lookup [OF ok] key_count_dom [OF ok] by blast
qed



text \<open>C29. Garbage collection is safe: it changes no visible value of a reader if the reader and every transaction that its snapshot
  counts as active started at or after the collection's horizon, and the aborted transactions are ones the snapshot does not see.\<close>

theorem gc_safe:
  assumes "store_ok s" and "\<forall>k c. get_chain s k = Some c \<longrightarrow> (\<forall>v \<in> set c. stamped ts v)"
    and "oldest \<le> ts r" and "\<forall>w \<in> set act. oldest \<le> ts w" and "\<forall>w \<in> set aborted. hidden ts r act w"
  shows "get_visible (fst (gc_with_aborted oldest aborted s)) k r (ts r) act = get_visible s k r (ts r) act"
proof (cases "get_chain s k")
  case (Some c)
  then have "\<forall>v \<in> set c. \<not> gc_keeps oldest aborted v \<longrightarrow> \<not> is_visible v r (ts r) act"
    using gc_dropped_invisible assms(2-5) by blast
  then show ?thesis using Some newest_filter unfolding get_gc [OF assms(1)] by (simp add: get_visible_def)
qed (simp add: get_gc [OF assms(1)], simp add: get_visible_def)

definition gc_example :: "string version_store" where
  "gc_example = add_key True (put_chain [1] [mark_deleted 3 3 (new_version ''a'' 2 2), new_version ''b'' 3 3, new_version ''c'' 9 9] version_store_new)"

lemma gc_example_ok: "store_ok gc_example"
  unfolding gc_example_def using put_chain_ok [OF new_store_ok, of "[1]"] by simp

lemma gc_example_chain: "get_chain gc_example k = (if k = [1] then
    Some [mark_deleted 3 3 (new_version ''a'' 2 2), new_version ''b'' 3 3, new_version ''c'' 9 9] else None)"
  by (simp add: gc_example_def get_put_chain store_len new_store_ok)

theorem gc_safe_witness:
  "get_visible (fst (gc_with_aborted 5 [9] gc_example)) [1] 6 6 [5] = Some ''b''"
proof -
  have "get_visible (fst (gc_with_aborted 5 [9] gc_example)) [1] 6 (id 6) [5] = get_visible gc_example [1] 6 (id 6) [5]"
    by (rule gc_safe) (auto simp: gc_example_ok gc_example_chain stamped_def mark_deleted_def new_version_def hidden_def split: if_splits)
  also have "\<dots> = Some ''b''"
    by (simp add: get_visible_def gc_example_chain newest_visible_def is_visible_def new_version_def)
  finally show ?thesis by simp
qed

text \<open>
  A collection with a later horizon is not safe: with horizon 6 the reader, transaction 6, loses the row that
  transaction 3 was still deleting when the reader took its snapshot.
\<close>

lemma gc_drops_visible_version:
  "get_visible gc_example [1] 6 6 [3] = Some ''a'' \<and>
   get_visible (fst (gc_with_aborted 6 [] gc_example)) [1] 6 6 [3] = None"
  unfolding get_gc [OF gc_example_ok]
  by (simp add: get_visible_def gc_example_chain newest_visible_def is_visible_def gc_keeps_def new_version_def mark_deleted_def)

text \<open>The two visibility tests differ on a row that the reader itself inserted and deleted.\<close>

lemma own_delete_stays_visible:
  "is_visible (mark_deleted r ts (new_version d r ts)) r ts [] \<and>
   \<not> is_tuple_visible (mark_deleted r ts (new_version d r ts)) \<lparr>sn_txn_id = r, sn_start_ts = ts, sn_active_txns = []\<rparr>"
  by (simp add: is_visible_def is_tuple_visible_def mark_deleted_def new_version_def)

end
