(* ===== verification/Wal.thy ===== *)
theory Wal
  imports Prelude
begin

text \<open>
  The write-ahead log, \<open>bytedb-core/src/wal/log_manager.rs\<close> and \<open>log_record.rs\<close>.

  A record is stored as a frame: the length of its body, a checksum over the previous LSN and the body, the
  previous LSN, and the body. The JSON form of a record and the checksum function are parameters
  (\<open>wal_lib\<close>). The operating system is the record \<open>log_file\<close>: the bytes of the file, how many of them are
  known to be on the device, and what the next system calls will report. \<open>BufWriter\<close> is the
  buffer of the standard library with its capacity of 8192 bytes.

  \<open>flush_through\<close> is cut at the points where other threads can run: the election of a leader, reading the
  current LSN, writing and syncing, publishing the result, and the check of a follower that was woken up.
\<close>

section \<open>Records\<close>

type_synonym lsn = u64

datatype log_record =
    Begin u64
  | Insert u64 u32 u32 u16 bytes
  | Update u64 u32 u32 u16 bytes bytes
  | Delete u64 u32 u32 u16 bytes
  | Commit u64
  | Abort u64
  | Checkpoint "u64 list"

fun record_txn_id :: "log_record \<Rightarrow> u64 option" where
  "record_txn_id (Begin t) = Some t"
| "record_txn_id (Insert t tbl pid slot d) = Some t"
| "record_txn_id (Update t tbl pid slot old new) = Some t"
| "record_txn_id (Delete t tbl pid slot old) = Some t"
| "record_txn_id (Commit t) = Some t"
| "record_txn_id (Abort t) = Some t"
| "record_txn_id (Checkpoint ts) = None"

record wal_lib =
  ser :: "log_record \<Rightarrow> bytes"
  de :: "bytes \<Rightarrow> log_record option"
  crc32 :: "bytes \<Rightarrow> u32"

section \<open>The file and the buffered writer\<close>

text \<open>
  \<open>io_plan\<close> lists the outcomes of the coming system calls: \<open>None\<close> is success, \<open>Some (n, e)\<close> an error \<open>e\<close>
  after \<open>n\<close> bytes of a write. When it is used up, every call succeeds.
\<close>

record log_file =
  disk :: bytes
  synced :: nat
  io_plan :: "(nat \<times> string) option list"

definition os_write :: "bytes \<Rightarrow> log_file \<Rightarrow> log_file \<times> unit result" where
  "os_write d f =
     (case io_plan f of
        Some (n, e) # p \<Rightarrow> (f\<lparr>disk := disk f @ take n d, io_plan := p\<rparr>, Inl (Io e))
      | p \<Rightarrow> (f\<lparr>disk := disk f @ d, io_plan := tl p\<rparr>, Inr ()))"

definition os_sync :: "log_file \<Rightarrow> log_file \<times> unit result" where
  "os_sync f =
     (case io_plan f of
        Some (n, e) # p \<Rightarrow> (f\<lparr>io_plan := p\<rparr>, Inl (Io e))
      | p \<Rightarrow> (f\<lparr>synced := length (disk f), io_plan := tl p\<rparr>, Inr ()))"

definition set_len :: "nat \<Rightarrow> log_file \<Rightarrow> log_file" where
  "set_len n f = f\<lparr>disk := take n (disk f), synced := min n (synced f)\<rparr>"

definition BUF_CAPACITY :: nat where "BUF_CAPACITY = 8192"

record buf_writer =
  inner :: log_file
  buf :: bytes

text \<open>What was written before an error leaves the buffer.\<close>

definition bw_flush :: "buf_writer \<Rightarrow> buf_writer \<times> unit result" where
  "bw_flush w =
     (if buf w = [] then (w, Inr ())
      else case os_write (buf w) (inner w) of
        (f, r) \<Rightarrow> (\<lparr>inner = f, buf = drop (length (disk f) - length (disk (inner w))) (buf w)\<rparr>, r))"

definition bw_write_all :: "bytes \<Rightarrow> buf_writer \<Rightarrow> buf_writer \<times> unit result" where
  "bw_write_all d w =
     (case (if length d > BUF_CAPACITY - length (buf w) then bw_flush w else (w, Inr ())) of
        (w1, Inl e) \<Rightarrow> (w1, Inl e)
      | (w1, Inr _) \<Rightarrow>
          if length d \<ge> BUF_CAPACITY
          then (case os_write d (inner w1) of (f, r) \<Rightarrow> (w1\<lparr>inner := f\<rparr>, r))
          else (w1\<lparr>buf := buf w1 @ d\<rparr>, Inr ()))"

text \<open>Several \<open>write_all\<close> calls joined by \<open>?\<close>.\<close>

fun bw_write_seq :: "bytes list \<Rightarrow> buf_writer \<Rightarrow> buf_writer \<times> unit result" where
  "bw_write_seq [] w = (w, Inr ())"
| "bw_write_seq (d # ds) w =
     (case bw_write_all d w of (w1, Inl e) \<Rightarrow> (w1, Inl e) | (w1, Inr _) \<Rightarrow> bw_write_seq ds w1)"

section \<open>The log manager\<close>

definition LOG_RECORD_HEADER_SIZE :: nat where "LOG_RECORD_HEADER_SIZE = 16"
definition DEFAULT_GROUP_COMMIT_DELAY_US :: u64 where "DEFAULT_GROUP_COMMIT_DELAY_US = 0"
definition MAX_LOG_RECORD_SIZE :: nat where "MAX_LOG_RECORD_SIZE = 64 * 1024 * 1024"

datatype durability_mode = Strict | Relaxed

record log_manager =
  writer :: buf_writer
  current_lsn :: lsn
  flushed_lsn :: lsn
  flushing :: bool
  group_commit_delay_us :: u64
  durability :: durability_mode
  fsyncs :: u64
  commits_served :: u64
  relaxed_acks :: u64

definition truncate_to :: "nat \<Rightarrow> log_file \<Rightarrow> log_file \<times> unit result" where
  "truncate_to off f = os_sync (set_len off f)"

text \<open>
  The loop of \<open>scan_and_repair\<close>: \<open>s\<close> is the unread rest of the file, \<open>good\<close> the end of the last good frame. The result has the offset to truncate to, if
  any. \<open>expected_prev\<close> is always the current \<open>lsn\<close>.
\<close>

function scan_loop :: "wal_lib \<Rightarrow> nat \<Rightarrow> bytes \<Rightarrow> nat \<Rightarrow> lsn \<Rightarrow> (nat option \<times> lsn) result" where
  "scan_loop lib total_len s good lsn =
     (if length s < LOG_RECORD_HEADER_SIZE then Inr (None, lsn)
      else
        let len = unat (from_le (rd_range 0 4 s) :: u32);
            expected_checksum = from_le (rd_range 4 4 s) :: u32;
            prev_lsn = from_le (rd_range 8 8 s) :: u64;
            frame_end = good + LOG_RECORD_HEADER_SIZE + len;
            rest = drop LOG_RECORD_HEADER_SIZE s
        in if len > MAX_LOG_RECORD_SIZE \<or> frame_end > total_len then Inr (Some good, lsn)
           else case read_exact len rest of
             Inl _ \<Rightarrow> Inr (Some good, lsn)
           | Inr (data, rest') \<Rightarrow>
               if crc32 lib (to_le prev_lsn @ data) \<noteq> expected_checksum \<or> prev_lsn \<noteq> lsn \<or> de lib data = None
               then (if frame_end \<ge> total_len then Inr (Some good, lsn) else Inl (WalCorrupted (lsn + 1)))
               else scan_loop lib total_len rest' frame_end (lsn + 1))"
  by pat_completeness auto
termination
  by (relation "measure (\<lambda>(lib, total_len, s, good, lsn). length s)")
    (auto simp: LOG_RECORD_HEADER_SIZE_def read_exact_def split: if_splits)

definition scan_and_repair :: "wal_lib \<Rightarrow> log_file \<Rightarrow> log_file \<times> lsn result" where
  "scan_and_repair lib f =
     (case scan_loop lib (length (disk f)) (disk f) 0 0 of
        Inl e \<Rightarrow> (f, Inl e)
      | Inr (None, lsn) \<Rightarrow> (f, Inr lsn)
      | Inr (Some off, lsn) \<Rightarrow> (case truncate_to off f of (f', Inl e) \<Rightarrow> (f', Inl e) | (f', Inr _) \<Rightarrow> (f', Inr lsn)))"

definition log_manager_with :: "lsn \<Rightarrow> log_file \<Rightarrow> log_manager" where
  "log_manager_with lsn f =
     \<lparr>writer = \<lparr>inner = f, buf = []\<rparr>, current_lsn = lsn, flushed_lsn = lsn, flushing = False,
      group_commit_delay_us = DEFAULT_GROUP_COMMIT_DELAY_US, durability = Strict, fsyncs = 0, commits_served = 0,
      relaxed_acks = 0\<rparr>"

text \<open>\<open>LogManager::new\<close> on a file; a file that does not exist is created empty.\<close>

definition log_manager_new :: "wal_lib \<Rightarrow> log_file \<Rightarrow> log_file \<times> log_manager result" where
  "log_manager_new lib f =
     (case (if disk f \<noteq> [] then scan_and_repair lib f else (f, Inr 0)) of
        (f', Inl e) \<Rightarrow> (f', Inl e)
      | (f', Inr lsn) \<Rightarrow> (f', Inr (log_manager_with lsn f')))"

definition set_durability_mode :: "durability_mode \<Rightarrow> log_manager \<Rightarrow> log_manager" where
  "set_durability_mode mode m = m\<lparr>durability := mode\<rparr>"

definition set_group_commit_delay_us :: "u64 \<Rightarrow> log_manager \<Rightarrow> log_manager" where
  "set_group_commit_delay_us us m = m\<lparr>group_commit_delay_us := us\<rparr>"

definition saturating_pred :: "u64 \<Rightarrow> u64" where
  "saturating_pred x = (if x = 0 then 0 else x - 1)"

definition frame_parts :: "wal_lib \<Rightarrow> lsn \<Rightarrow> bytes \<Rightarrow> bytes list" where
  "frame_parts lib prev_lsn data =
     [to_le (of_nat (length data) :: u32), to_le (crc32 lib (to_le prev_lsn @ data)), to_le prev_lsn, data]"

definition wal_append :: "wal_lib \<Rightarrow> log_record \<Rightarrow> log_manager \<Rightarrow> log_manager \<times> lsn result" where
  "wal_append lib r m =
     (let data = ser lib r in
      if length data > MAX_LOG_RECORD_SIZE then (m, Inl (Internal ''log record too large''))
      else
        let lsn = current_lsn m + 1; prev_lsn = saturating_pred lsn
        in case bw_write_seq (frame_parts lib prev_lsn data) (writer m) of
             (w, Inl e) \<Rightarrow> (m\<lparr>current_lsn := lsn, writer := w\<rparr>, Inl e)
           | (w, Inr _) \<Rightarrow> (m\<lparr>current_lsn := lsn, writer := w\<rparr>, Inr lsn))"

section \<open>Group commit\<close>

datatype flush_role = AlreadyDurable lsn | Follower | Leader

definition served :: "log_manager \<Rightarrow> log_manager" where
  "served m = m\<lparr>commits_served := commits_served m + 1\<rparr>"

definition flush_enter :: "lsn \<Rightarrow> log_manager \<Rightarrow> log_manager \<times> flush_role" where
  "flush_enter target m =
     (if flushed_lsn m \<ge> target then (served m, AlreadyDurable (flushed_lsn m))
      else if flushing m then (m, Follower)
      else (m\<lparr>flushing := True\<rparr>, Leader))"

text \<open>A follower that was woken up: \<open>None\<close> when it has to wait again.\<close>

definition follower_check :: "lsn \<Rightarrow> log_manager \<Rightarrow> (log_manager \<times> lsn) option" where
  "follower_check target m = (if flushed_lsn m < target then None else Some (served m, flushed_lsn m))"

text \<open>The closure of the leader; \<open>skip\<close> is the answer of \<open>chaos::should_skip_fsync\<close>.\<close>

definition flush_write :: "bool \<Rightarrow> log_manager \<Rightarrow> log_manager \<times> unit result" where
  "flush_write skip m =
     (case bw_flush (writer m) of
        (w, Inl e) \<Rightarrow> (m\<lparr>writer := w\<rparr>, Inl e)
      | (w, Inr _) \<Rightarrow>
          if skip then (m\<lparr>writer := w\<rparr>, Inr ())
          else (case os_sync (inner w) of (f, r) \<Rightarrow> (m\<lparr>writer := w\<lparr>inner := f\<rparr>\<rparr>, r)))"

definition flush_finish :: "lsn \<Rightarrow> unit result \<Rightarrow> log_manager \<Rightarrow> log_manager \<times> lsn result" where
  "flush_finish snapshot_lsn r m =
     (case r of
        Inr _ \<Rightarrow>
          let m' = served (m\<lparr>flushed_lsn := snapshot_lsn, fsyncs := fsyncs m + 1\<rparr>)
          in (m'\<lparr>flushing := False\<rparr>, Inr (flushed_lsn m'))
      | Inl e \<Rightarrow> (m\<lparr>flushing := False\<rparr>, Inl e))"

text \<open>\<open>flush_through\<close> of a caller that no other thread interrupts; a follower would sleep (\<open>None\<close>).\<close>

definition flush_through :: "bool \<Rightarrow> lsn \<Rightarrow> log_manager \<Rightarrow> (log_manager \<times> lsn result) option" where
  "flush_through skip target m =
     (case flush_enter target m of
        (m1, AlreadyDurable l) \<Rightarrow> Some (m1, Inr l)
      | (m1, Follower) \<Rightarrow> map_option (\<lambda>(m2, l). (m2, Inr l)) (follower_check target m1)
      | (m1, Leader) \<Rightarrow>
          let snapshot_lsn = current_lsn m1
          in case flush_write skip m1 of (m2, r) \<Rightarrow> Some (flush_finish snapshot_lsn r m2))"

definition wal_flush :: "bool \<Rightarrow> log_manager \<Rightarrow> (log_manager \<times> lsn result) option" where
  "wal_flush skip m = flush_through skip (current_lsn m) m"

definition wal_commit :: "bool \<Rightarrow> lsn \<Rightarrow> log_manager \<Rightarrow> (log_manager \<times> lsn result) option" where
  "wal_commit skip target m =
     (case durability m of
        Strict \<Rightarrow> flush_through skip target m
      | Relaxed \<Rightarrow> Some (served (m\<lparr>relaxed_acks := relaxed_acks m + 1\<rparr>), Inr (flushed_lsn m)))"

section \<open>Reading back\<close>

function read_loop ::
  "wal_lib \<Rightarrow> nat \<Rightarrow> bytes \<Rightarrow> nat \<Rightarrow> lsn \<Rightarrow> (lsn \<times> log_record) list \<Rightarrow> (nat option \<times> (lsn \<times> log_record) list) result"
where
  "read_loop lib total_len s good lsn records =
     (if length s < LOG_RECORD_HEADER_SIZE then Inr (None, records)
      else
        let len = unat (from_le (rd_range 0 4 s) :: u32);
            expected_checksum = from_le (rd_range 4 4 s) :: u32;
            prev_lsn = from_le (rd_range 8 8 s) :: u64;
            rest = drop LOG_RECORD_HEADER_SIZE s
        in if len > MAX_LOG_RECORD_SIZE then Inr (Some good, records)
           else
             let frame_end = good + LOG_RECORD_HEADER_SIZE + len
             in case read_exact len rest of
                  Inl _ \<Rightarrow> if frame_end > total_len then Inr (Some good, records) else Inl (WalCorrupted (lsn + 1))
                | Inr (data, rest') \<Rightarrow>
                    if crc32 lib (to_le prev_lsn @ data) \<noteq> expected_checksum
                    then (if frame_end \<ge> total_len then Inr (Some good, records) else Inl (WalCorrupted (lsn + 1)))
                    else if prev_lsn \<noteq> lsn
                    then (if frame_end \<ge> total_len then Inr (Some good, records) else Inl (WalCorrupted (lsn + 1)))
                    else case de lib data of
                      Some record \<Rightarrow> read_loop lib total_len rest' frame_end (lsn + 1) (records @ [(lsn + 1, record)])
                    | None \<Rightarrow>
                        if frame_end = total_len \<or> frame_end > total_len then Inr (Some good, records)
                        else Inl (WalCorrupted (lsn + 1)))"
  by pat_completeness auto
termination
  by (relation "measure (\<lambda>(lib, total_len, s, good, lsn, records). length s)")
    (auto simp: LOG_RECORD_HEADER_SIZE_def read_exact_def split: if_splits)

definition read_all_records :: "wal_lib \<Rightarrow> log_manager \<Rightarrow> log_manager \<times> (lsn \<times> log_record) list result" where
  "read_all_records lib m =
     (let f = inner (writer m) in
      case read_loop lib (length (disk f)) (disk f) 0 0 [] of
        Inl e \<Rightarrow> (m, Inl e)
      | Inr (None, records) \<Rightarrow> (m, Inr records)
      | Inr (Some off, records) \<Rightarrow>
          (case truncate_to off f of
             (f', Inl e) \<Rightarrow> (m\<lparr>writer := (writer m)\<lparr>inner := f'\<rparr>\<rparr>, Inl e)
           | (f', Inr _) \<Rightarrow> (m\<lparr>writer := (writer m)\<lparr>inner := f'\<rparr>\<rparr>, Inr records)))"

definition verify_chain :: "wal_lib \<Rightarrow> log_manager \<Rightarrow> log_manager \<times> unit result" where
  "verify_chain lib m =
     (case read_all_records lib m of (m', Inl e) \<Rightarrow> (m', Inl e) | (m', Inr _) \<Rightarrow> (m', Inr ()))"

definition wal_truncate :: "log_manager \<Rightarrow> log_manager \<times> unit result" where
  "wal_truncate m =
     (case bw_flush (writer m) of
        (w, Inl e) \<Rightarrow> (m\<lparr>writer := w\<rparr>, Inl e)
      | (w, Inr _) \<Rightarrow>
          (m\<lparr>writer := w\<lparr>inner := set_len 0 (inner w)\<rparr>, current_lsn := 0, flushed_lsn := 0\<rparr>, Inr ()))"

section \<open>Frames\<close>

declare scan_loop.simps [simp del] read_loop.simps [simp del]

definition frame :: "wal_lib \<Rightarrow> lsn \<Rightarrow> log_record \<Rightarrow> bytes" where
  "frame lib prev r = concat (frame_parts lib prev (ser lib r))"

text \<open>The bytes of a log with the records \<open>rs\<close>, the first of which follows the LSN \<open>n\<close>.\<close>

fun frames :: "wal_lib \<Rightarrow> lsn \<Rightarrow> log_record list \<Rightarrow> bytes" where
  "frames lib n [] = []"
| "frames lib n (r # rs) = frame lib n r @ frames lib (n + 1) rs"

text \<open>What the log relies on: a record reads back from its JSON form, and it is not too large.\<close>

definition lib_ok :: "wal_lib \<Rightarrow> bool" where
  "lib_ok lib \<longleftrightarrow> (\<forall>r. de lib (ser lib r) = Some r)"

definition fits :: "wal_lib \<Rightarrow> log_record \<Rightarrow> bool" where
  "fits lib r \<longleftrightarrow> length (ser lib r) \<le> MAX_LOG_RECORD_SIZE"

lemmas size_defs = LOG_RECORD_HEADER_SIZE_def MAX_LOG_RECORD_SIZE_def

lemma frame_length: "length (frame lib n r) = 16 + length (ser lib r)"
  by (simp add: frame_def frame_parts_def)

lemma frames_append: "frames lib n (rs @ rs') = frames lib n rs @ frames lib (n + of_nat (length rs)) rs'"
  by (induction rs arbitrary: n) (auto simp: algebra_simps)

lemma frame_fields:
  assumes "fits lib r"
  shows "unat (from_le (rd_range 0 4 (frame lib n r)) :: u32) = length (ser lib r)"
    and "from_le (rd_range 4 4 (frame lib n r)) = crc32 lib (to_le n @ ser lib r)"
    and "from_le (rd_range 8 8 (frame lib n r)) = n"
    and "drop 16 (frame lib n r) = ser lib r"
proof -
  have "length (ser lib r) < 2 ^ 32" using assms by (simp add: fits_def MAX_LOG_RECORD_SIZE_def)
  then have "unat (of_nat (length (ser lib r)) :: u32) = length (ser lib r)" by (simp add: unat_of_nat)
  then show "unat (from_le (rd_range 0 4 (frame lib n r)) :: u32) = length (ser lib r)"
    by (simp add: frame_def frame_parts_def rd_range_def)
qed (simp_all add: frame_def frame_parts_def rd_range_def)

lemma scan_frame:
  assumes "lib_ok lib" and "fits lib r" and "good + length (frame lib n r) \<le> total_len"
  shows "scan_loop lib total_len (frame lib n r @ s) good n = scan_loop lib total_len s (good + length (frame lib n r)) (n + 1)"
  using assms
  by (subst scan_loop.simps)
    (simp add: Let_def frame_fields frame_length size_defs lib_ok_def fits_def add.assoc)

lemma read_frame:
  assumes "lib_ok lib" and "fits lib r"
  shows "read_loop lib total_len (frame lib n r @ s) good n acc =
    read_loop lib total_len s (good + length (frame lib n r)) (n + 1) (acc @ [(n + 1, r)])"
  using assms
  by (subst read_loop.simps)
    (simp add: Let_def frame_fields frame_length size_defs lib_ok_def fits_def add.assoc)

text \<open>The numbered records that a reader returns.\<close>

fun numbered :: "lsn \<Rightarrow> log_record list \<Rightarrow> (lsn \<times> log_record) list" where
  "numbered n [] = []"
| "numbered n (r # rs) = (n + 1, r) # numbered (n + 1) rs"

lemma scan_frames:
  assumes "lib_ok lib" and "\<forall>r \<in> set rs. fits lib r" and "good + length (frames lib n rs) \<le> total_len"
  shows "scan_loop lib total_len (frames lib n rs @ s) good n =
    scan_loop lib total_len s (good + length (frames lib n rs)) (n + of_nat (length rs))"
  using assms(2,3)
proof (induction rs arbitrary: n good)
  case (Cons r rs)
  then show ?case using scan_frame [OF assms(1), of r good n] by (simp add: algebra_simps)
qed simp

lemma read_frames:
  assumes "lib_ok lib" and "\<forall>r \<in> set rs. fits lib r"
  shows "read_loop lib total_len (frames lib n rs @ s) good n acc =
    read_loop lib total_len s (good + length (frames lib n rs)) (n + of_nat (length rs)) (acc @ numbered n rs)"
  using assms(2)
proof (induction rs arbitrary: n good acc)
  case (Cons r rs)
  then show ?case using read_frame [OF assms(1), of r] by (simp add: algebra_simps)
qed simp

text \<open>A frame that was cut short: the scan stops at it, and cuts it off if its header is complete.\<close>

lemma torn_fields:
  assumes "k < length (frame lib n r)" and "16 \<le> k" and "fits lib r"
  shows "unat (from_le (rd_range 0 4 (take k (frame lib n r))) :: u32) = length (ser lib r)"
proof -
  have "rd_range 0 4 (take k (frame lib n r)) = rd_range 0 4 (frame lib n r)"
    using assms by (simp add: rd_range_def min_def)
  then show ?thesis using frame_fields(1) [OF assms(3), of n] by simp
qed

lemma scan_torn:
  assumes "k < length (frame lib n r)" and "fits lib r" and "total_len = good + k"
  shows "scan_loop lib total_len (take k (frame lib n r)) good n = Inr (if k < 16 then None else Some good, n)"
proof (cases "k < 16")
  case True
  then show ?thesis using assms(1) by (subst scan_loop.simps) (simp add: size_defs)
next
  case False
  then show ?thesis using assms torn_fields [OF assms(1) _ assms(2)]
    by (subst scan_loop.simps) (simp add: Let_def size_defs frame_length)
qed

lemma read_torn:
  assumes "k < length (frame lib n r)" and "fits lib r" and "total_len = good + k"
  shows "read_loop lib total_len (take k (frame lib n r)) good n acc = Inr (if k < 16 then None else Some good, acc)"
proof (cases "k < 16")
  case True
  then show ?thesis using assms(1) by (subst read_loop.simps) (simp add: size_defs)
next
  case False
  then show ?thesis using assms torn_fields [OF assms(1) _ assms(2)]
    by (subst read_loop.simps) (auto simp: Let_def size_defs frame_length fits_def read_exact_def)
qed

text \<open>A prefix of a log: some whole frames and a part of the next one.\<close>

lemma frames_prefix:
  assumes "k \<le> length (frames lib n rs)"
  shows "\<exists>i j. i \<le> length rs \<and> take k (frames lib n rs) = frames lib n (take i rs) @
      (if i < length rs then take j (frame lib (n + of_nat i) (rs ! i)) else []) \<and>
    k = length (frames lib n (take i rs)) + (if i < length rs then j else 0) \<and>
    (i < length rs \<longrightarrow> j < length (frame lib (n + of_nat i) (rs ! i)))"
  using assms
proof (induction rs arbitrary: n k)
  case (Cons r rs)
  show ?case
  proof (cases "k < length (frame lib n r)")
    case True
    then show ?thesis by (intro exI [of _ 0] exI [of _ k]) simp
  next
    case False
    then have "k - length (frame lib n r) \<le> length (frames lib (n + 1) rs)" using Cons.prems by simp
    from Cons.IH [OF this] obtain i j where ij: "i \<le> length rs"
      "take (k - length (frame lib n r)) (frames lib (n + 1) rs) = frames lib (n + 1) (take i rs) @
        (if i < length rs then take j (frame lib (n + 1 + of_nat i) (rs ! i)) else [])"
      "k - length (frame lib n r) = length (frames lib (n + 1) (take i rs)) + (if i < length rs then j else 0)"
      "i < length rs \<longrightarrow> j < length (frame lib (n + 1 + of_nat i) (rs ! i))"
      by blast
    then show ?thesis using False by (intro exI [of _ "Suc i"] exI [of _ j]) (auto simp: algebra_simps)
  qed
qed simp

section \<open>Interleaved threads\<close>

text \<open>
  The log as its callers share it. At most one thread leads a flush, because \<open>flushing\<close> is exchanged atomically; \<open>leader\<close> is how far it has come, with the
  LSN that it commits and the LSN that it read. Appending and the leader's write hold the lock of the writer, so each is one step.
  \<open>appended\<close> and \<open>acked\<close> record the history: the records whose append returned, and the LSNs whose \<open>flush_through\<close>
  returned successfully. A caller commits an LSN that \<open>append\<close> has returned.

  The steps are appends that succeed or are refused as too large, and every stage of a flush, whose write and sync may fail at any point. Three things are not
  steps, because the guarantee does not survive them: an append that fails with an I/O error (\<open>failed_append_loses_commit\<close>), \<open>truncate\<close> beside a running
  flush (\<open>truncate_race\<close>), and going on with a log that was reopened with a torn header at its end (\<open>torn_header_loses_commit\<close>). A run starts on a log that was
  closed cleanly and contains no \<open>truncate\<close>.
\<close>

datatype leader_pc = NoLeader | Elected lsn | Snapped lsn lsn | Wrote lsn lsn "unit result"

record wal_sys =
  mgr :: log_manager
  leader :: leader_pc
  appended :: "log_record list"
  acked :: "lsn list"

abbreviation log_of :: "log_manager \<Rightarrow> log_file" where
  "log_of m \<equiv> inner (writer m)"

inductive wal_step :: "wal_lib \<Rightarrow> wal_sys \<Rightarrow> wal_sys \<Rightarrow> bool" for lib where
  append: "wal_append lib r (mgr c) = (m, Inr l) \<Longrightarrow>
    wal_step lib c (c\<lparr>mgr := m, appended := appended c @ [r]\<rparr>)"
| too_large: "wal_append lib r (mgr c) = (m, Inl (Internal e)) \<Longrightarrow> wal_step lib c (c\<lparr>mgr := m\<rparr>)"
| durable_already: "flush_enter t (mgr c) = (m, AlreadyDurable l) \<Longrightarrow>
    wal_step lib c (c\<lparr>mgr := m, acked := t # acked c\<rparr>)"
| elect: "t \<le> current_lsn (mgr c) \<Longrightarrow> flush_enter t (mgr c) = (m, Leader) \<Longrightarrow>
    wal_step lib c (c\<lparr>mgr := m, leader := Elected t\<rparr>)"
| snap: "leader c = Elected t \<Longrightarrow> wal_step lib c (c\<lparr>leader := Snapped t (current_lsn (mgr c))\<rparr>)"
| flush_io: "leader c = Snapped t s \<Longrightarrow> flush_write False (mgr c) = (m, r) \<Longrightarrow>
    wal_step lib c (c\<lparr>mgr := m, leader := Wrote t s r\<rparr>)"
| publish_ok: "leader c = Wrote t s r \<Longrightarrow> flush_finish s r (mgr c) = (m, Inr l) \<Longrightarrow>
    wal_step lib c (c\<lparr>mgr := m, leader := NoLeader, acked := t # acked c\<rparr>)"
| publish_err: "leader c = Wrote t s r \<Longrightarrow> flush_finish s r (mgr c) = (m, Inl e) \<Longrightarrow>
    wal_step lib c (c\<lparr>mgr := m, leader := NoLeader\<rparr>)"
| wake: "follower_check t (mgr c) = Some (m, l) \<Longrightarrow> wal_step lib c (c\<lparr>mgr := m, acked := t # acked c\<rparr>)"
| relaxed: "durability (mgr c) = Relaxed \<Longrightarrow> wal_commit False t (mgr c) = Some (m, r) \<Longrightarrow> wal_step lib c (c\<lparr>mgr := m\<rparr>)"
| mode: "wal_step lib c (c\<lparr>mgr := set_durability_mode d (mgr c)\<rparr>)"
| delay: "wal_step lib c (c\<lparr>mgr := set_group_commit_delay_us us (mgr c)\<rparr>)"

text \<open>The system starts on a log that was closed cleanly, the empty one among them.\<close>

inductive wal_reachable :: "wal_lib \<Rightarrow> wal_sys \<Rightarrow> bool" for lib where
  start: "\<forall>r \<in> set rs. fits lib r \<Longrightarrow> disk f = frames lib 0 rs \<Longrightarrow> synced f = length (disk f) \<Longrightarrow>
    wal_reachable lib \<lparr>mgr = log_manager_with (of_nat (length rs)) f, leader = NoLeader, appended = rs, acked = []\<rparr>"
| step: "wal_reachable lib c \<Longrightarrow> wal_step lib c c' \<Longrightarrow> wal_reachable lib c'"

section \<open>What reaches the file\<close>

text \<open>The stream of a writer: what is in the file and what is still in the buffer.\<close>

definition stream :: "buf_writer \<Rightarrow> bytes" where
  "stream w = disk (inner w) @ buf w"

definition keeps_file :: "buf_writer \<Rightarrow> buf_writer \<Rightarrow> bool" where
  "keeps_file w w' \<longleftrightarrow> synced (inner w') = synced (inner w) \<and> length (disk (inner w)) \<le> length (disk (inner w'))"

lemma os_write_cases:
  obtains n where "fst (os_write d f) = f\<lparr>disk := disk f @ take n d, io_plan := tl (io_plan f)\<rparr>"
    "snd (os_write d f) = Inr () \<longrightarrow> n = length d" "\<exists>e. snd (os_write d f) = Inl (Io e) \<or> snd (os_write d f) = Inr ()"
proof (cases "\<exists>n e p. io_plan f = Some (n, e) # p")
  case True
  then obtain n e p where "io_plan f = Some (n, e) # p" by blast
  then show ?thesis by (intro that [of n]) (simp_all add: os_write_def)
next
  case False
  then have "os_write d f = (f\<lparr>disk := disk f @ d, io_plan := tl (io_plan f)\<rparr>, Inr ())"
    by (auto simp: os_write_def split: list.splits option.splits)
  then show ?thesis by (intro that [of "length d"]) simp_all
qed

lemma bw_flush_stream:
  assumes "bw_flush w = (w', r)"
  shows "stream w' = stream w" and "keeps_file w w'" and "r = Inr () \<longrightarrow> buf w' = []" and "r = Inr () \<or> (\<exists>e. r = Inl (Io e))"
proof -
  obtain n where n: "fst (os_write (buf w) (inner w)) = (inner w)\<lparr>disk := disk (inner w) @ take n (buf w), io_plan := tl (io_plan (inner w))\<rparr>"
    "snd (os_write (buf w) (inner w)) = Inr () \<longrightarrow> n = length (buf w)"
    "\<exists>e. snd (os_write (buf w) (inner w)) = Inl (Io e) \<or> snd (os_write (buf w) (inner w)) = Inr ()"
    by (rule os_write_cases)
  have "take n (buf w) @ drop (min (length (buf w)) n) (buf w) = buf w" by (simp add: min_def)
  then show "stream w' = stream w" "keeps_file w w'" "r = Inr () \<longrightarrow> buf w' = []" "r = Inr () \<or> (\<exists>e. r = Inl (Io e))"
    using assms n by (auto simp: bw_flush_def stream_def keeps_file_def case_prod_beta split: if_splits)
qed

lemma bw_write_all_stream:
  assumes "bw_write_all d w = (w', r)"
  shows "keeps_file w w' \<and> (r = Inr () \<longrightarrow> stream w' = stream w @ d) \<and> (r = Inr () \<or> (\<exists>e. r = Inl (Io e)))"
proof -
  obtain w1 r1 where f: "(if length d > BUF_CAPACITY - length (buf w) then bw_flush w else (w, Inr ())) = (w1, r1)" by fastforce
  have w1: "stream w1 = stream w" "keeps_file w w1" "r1 = Inr () \<or> (\<exists>e. r1 = Inl (Io e))" "length d \<ge> BUF_CAPACITY \<and> r1 = Inr () \<longrightarrow> buf w1 = []"
    using f bw_flush_stream [of w w1 r1] by (cases "buf w"; auto simp: keeps_file_def BUF_CAPACITY_def split: if_splits)+
  obtain n where n: "fst (os_write d (inner w1)) = (inner w1)\<lparr>disk := disk (inner w1) @ take n d, io_plan := tl (io_plan (inner w1))\<rparr>"
    "snd (os_write d (inner w1)) = Inr () \<longrightarrow> n = length d"
    "\<exists>e. snd (os_write d (inner w1)) = Inl (Io e) \<or> snd (os_write d (inner w1)) = Inr ()"
    by (rule os_write_cases)
  have run: "bw_write_all d w = (case r1 of Inl e \<Rightarrow> (w1, Inl e) | Inr _ \<Rightarrow>
      if length d \<ge> BUF_CAPACITY then (w1\<lparr>inner := fst (os_write d (inner w1))\<rparr>, snd (os_write d (inner w1)))
      else (w1\<lparr>buf := buf w1 @ d\<rparr>, Inr ()))"
    by (simp add: bw_write_all_def f case_prod_beta split: sum.split)
  consider e where "r1 = Inl (Io e)" | "r1 = Inr ()" "length d \<ge> BUF_CAPACITY" | "r1 = Inr ()" "\<not> length d \<ge> BUF_CAPACITY"
    using w1(3) by blast
  then show ?thesis
  proof cases
    case 1
    then show ?thesis using assms w1(2) unfolding run by auto
  next
    case 2
    then show ?thesis using assms w1 n unfolding run by (auto simp: stream_def keeps_file_def)
  next
    case 3
    then show ?thesis using assms w1 unfolding run by (auto simp: stream_def keeps_file_def)
  qed
qed

lemma unat_of_nat64: "n < 2 ^ 64 \<Longrightarrow> unat (of_nat n :: u64) = n"
  by (simp add: unat_of_nat)

lemma u64_of_unat: "unat (w :: u64) = n \<Longrightarrow> w = of_nat n"
  by auto

lemma bw_write_seq_stream:
  "bw_write_seq ds w = (w', Inr ()) \<Longrightarrow> keeps_file w w' \<and> stream w' = stream w @ concat ds"
proof (induction ds arbitrary: w)
  case (Cons d ds)
  obtain w1 r where w1: "bw_write_all d w = (w1, r)" by fastforce
  then have r: "r = Inr ()" "bw_write_seq ds w1 = (w', Inr ())"
    using Cons.prems bw_write_all_stream [OF w1] by auto
  show ?case using Cons.IH [OF r(2)] bw_write_all_stream [OF w1] r(1) by (auto simp: keeps_file_def)
qed (simp add: keeps_file_def)

lemma wal_append_ok:
  assumes "wal_append lib r m = (m', Inr l)"
  shows "fits lib r \<and> l = current_lsn m + 1 \<and> keeps_file (writer m) (writer m') \<and>
    stream (writer m') = stream (writer m) @ frame lib (saturating_pred l) r \<and>
    current_lsn m' = l \<and> flushed_lsn m' = flushed_lsn m \<and> flushing m' = flushing m"
proof -
  obtain w q where w: "bw_write_seq (frame_parts lib (saturating_pred (current_lsn m + 1)) (ser lib r)) (writer m) = (w, q)" by fastforce
  then have "fits lib r" "q = Inr ()" "l = current_lsn m + 1" "m' = m\<lparr>current_lsn := l, writer := w\<rparr>"
    using assms by (auto simp: wal_append_def fits_def Let_def split: if_splits sum.splits)
  then show ?thesis using bw_write_seq_stream w by (auto simp: frame_def)
qed

lemma wal_append_too_large: "wal_append lib r m = (m', Inl (Internal e)) \<Longrightarrow> m' = m"
proof -
  have "bw_write_seq ds w = (w', Inl e') \<Longrightarrow> \<exists>s. e' = Io s" for ds w w' e'
  proof (induction ds arbitrary: w)
    case (Cons d ds)
    obtain w1 r where w1: "bw_write_all d w = (w1, r)" by fastforce
    show ?case using Cons bw_write_all_stream [OF w1] by (auto simp: w1)
  qed simp
  then show "wal_append lib r m = (m', Inl (Internal e)) \<Longrightarrow> m' = m"
    by (fastforce simp: wal_append_def Let_def split: if_splits sum.splits prod.splits)
qed

lemma flush_write_ok:
  assumes "flush_write False m = (m', r)"
  shows "stream (writer m') = stream (writer m) \<and> length (disk (log_of m)) \<le> length (disk (log_of m')) \<and>
    (synced (log_of m') = synced (log_of m) \<or> synced (log_of m') = length (disk (log_of m'))) \<and>
    (r = Inr () \<longrightarrow> buf (writer m') = [] \<and> synced (log_of m') = length (disk (log_of m'))) \<and>
    current_lsn m' = current_lsn m \<and> flushed_lsn m' = flushed_lsn m \<and> flushing m' = flushing m"
proof -
  obtain w q where w: "bw_flush (writer m) = (w, q)" by fastforce
  obtain f s where f: "os_sync (inner w) = (f, s)" by fastforce
  have "disk f = disk (inner w) \<and> (if s = Inr () then synced f = length (disk f) else synced f = synced (inner w))"
    using f by (auto simp: os_sync_def split: list.splits option.splits)
  then show ?thesis
    using assms w f bw_flush_stream [OF w] by (auto simp: flush_write_def stream_def keeps_file_def split: sum.splits if_splits)
qed

section \<open>The invariant of group commit\<close>

definition durable :: "wal_lib \<Rightarrow> wal_sys \<Rightarrow> lsn \<Rightarrow> bool" where
  "durable lib c n \<longleftrightarrow> unat n \<le> length (appended c) \<and>
     length (frames lib 0 (take (unat n) (appended c))) \<le> synced (log_of (mgr c))"

fun leader_ok :: "wal_lib \<Rightarrow> wal_sys \<Rightarrow> leader_pc \<Rightarrow> bool" where
  "leader_ok lib c NoLeader = (\<not> flushing (mgr c))"
| "leader_ok lib c (Elected t) = (flushing (mgr c) \<and> t \<le> current_lsn (mgr c))"
| "leader_ok lib c (Snapped t s) = (flushing (mgr c) \<and> t \<le> s \<and> flushed_lsn (mgr c) \<le> s \<and> s \<le> current_lsn (mgr c))"
| "leader_ok lib c (Wrote t s r) = (flushing (mgr c) \<and> t \<le> s \<and> flushed_lsn (mgr c) \<le> s \<and> (r = Inr () \<longrightarrow> durable lib c s))"

definition wal_inv :: "wal_lib \<Rightarrow> wal_sys \<Rightarrow> bool" where
  "wal_inv lib c \<longleftrightarrow> stream (writer (mgr c)) = frames lib 0 (appended c) \<and> (\<forall>r \<in> set (appended c). fits lib r) \<and>
     unat (current_lsn (mgr c)) = length (appended c) \<and> synced (log_of (mgr c)) \<le> length (disk (log_of (mgr c))) \<and>
     durable lib c (flushed_lsn (mgr c)) \<and> leader_ok lib c (leader c) \<and> (\<forall>t \<in> set (acked c). t \<le> flushed_lsn (mgr c))"

lemma durable_mono:
  assumes "durable lib c n" and "appended c' = appended c @ rs" and "synced (log_of (mgr c)) \<le> synced (log_of (mgr c'))"
  shows "durable lib c' n"
  using assms by (simp add: durable_def)

lemma leader_ok_mono:
  assumes "leader_ok lib c p" and "appended c' = appended c @ rs" and "synced (log_of (mgr c)) \<le> synced (log_of (mgr c'))"
    and "flushing (mgr c') = flushing (mgr c)" and "flushed_lsn (mgr c') = flushed_lsn (mgr c)" and "current_lsn (mgr c) \<le> current_lsn (mgr c')"
  shows "leader_ok lib c' p"
  using assms durable_mono [OF _ assms(2,3)] by (cases p) (auto intro: order_trans)

text \<open>A step that only touches counters and settings.\<close>

lemma wal_inv_same:
  assumes "wal_inv lib c" and "writer (mgr c') = writer (mgr c)" and "current_lsn (mgr c') = current_lsn (mgr c)"
    and "flushed_lsn (mgr c') = flushed_lsn (mgr c)" and "flushing (mgr c') = flushing (mgr c)" and "leader c' = leader c"
    and "appended c' = appended c" and "\<forall>t \<in> set (acked c'). t \<in> set (acked c) \<or> t \<le> flushed_lsn (mgr c)"
  shows "wal_inv lib c'"
proof -
  have "leader_ok lib c' (leader c)" by (rule leader_ok_mono [of lib c _ _ "[]"]) (use assms in \<open>auto simp: wal_inv_def\<close>)
  moreover have "durable lib c' (flushed_lsn (mgr c))" by (rule durable_mono [of lib c _ _ "[]"]) (use assms in \<open>auto simp: wal_inv_def\<close>)
  ultimately show ?thesis using assms unfolding wal_inv_def by auto
qed

lemma append_inv:
  assumes "wal_inv lib c" and "wal_append lib r (mgr c) = (m, Inr l)" and "length (appended c) + 1 < 2 ^ 64"
  shows "wal_inv lib (c\<lparr>mgr := m, appended := appended c @ [r]\<rparr>)" (is "wal_inv lib ?c'")
proof -
  note a = wal_append_ok [OF assms(2)]
  have cur: "current_lsn (mgr c) = of_nat (length (appended c))" 
    by (rule u64_of_unat) (use assms(1) in \<open>simp add: wal_inv_def\<close>)
  have l1: "l = of_nat (length (appended c) + 1)" using a cur by simp
  then have l: "unat l = length (appended c) + 1" using assms(3) by (simp only: unat_of_nat64)
  then have "l \<noteq> 0" by auto
  then have pred: "saturating_pred l = of_nat (length (appended c))" using l1 by (simp add: saturating_pred_def)
  have le: "current_lsn (mgr c) \<le> l" using l assms(1) by (simp add: word_le_nat_alt wal_inv_def)
  have s: "synced (log_of m) = synced (log_of (mgr c))" "length (disk (log_of (mgr c))) \<le> length (disk (log_of m))"
    using a by (simp_all add: keeps_file_def)
  have "leader_ok lib ?c' (leader c)"
    by (rule leader_ok_mono [of lib c _ _ "[r]"]) (use assms(1) a s le in \<open>auto simp: wal_inv_def\<close>)
  moreover have "durable lib ?c' (flushed_lsn (mgr c))"
    by (rule durable_mono [of lib c _ _ "[r]"]) (use assms(1) s in \<open>auto simp: wal_inv_def\<close>)
  ultimately show ?thesis using assms(1) a l pred s by (auto simp: wal_inv_def frames_append)
qed

lemma flush_io_inv:
  assumes "wal_inv lib c" and "leader c = Snapped t s" and "flush_write False (mgr c) = (m, r)"
  shows "wal_inv lib (c\<lparr>mgr := m, leader := Wrote t s r\<rparr>)" (is "wal_inv lib ?c'")
proof -
  note w = flush_write_ok [OF assms(3)]
  have sy: "synced (log_of (mgr c)) \<le> synced (log_of m)" "synced (log_of m) \<le> length (disk (log_of m))"
    using w assms(1) by (auto simp: wal_inv_def)
  have "length (frames lib 0 (take n (appended c))) \<le> length (frames lib 0 (appended c))" for n
    by (subst (2) append_take_drop_id [of n "appended c", symmetric]) (simp only: frames_append, simp)
  moreover have "frames lib 0 (appended c) = disk (log_of m)" if "r = Inr ()"
    using w that assms(1) by (auto simp: wal_inv_def stream_def)
  ultimately have "durable lib ?c' s" if "r = Inr ()"
    using that w assms(1,2) by (auto simp: durable_def wal_inv_def word_le_nat_alt)
  moreover have "durable lib ?c' (flushed_lsn (mgr c))"
    by (rule durable_mono [of lib c _ _ "[]"]) (use assms(1) sy in \<open>auto simp: wal_inv_def\<close>)
  ultimately show ?thesis using assms(1,2) w sy by (auto simp: wal_inv_def)
qed

lemma publish_inv:
  assumes "wal_inv lib c" and "leader c = Wrote t s r" and "flush_finish s r (mgr c) = (m, res)"
  shows "wal_inv lib (c\<lparr>mgr := m, leader := NoLeader, acked := (if isl res then acked c else t # acked c)\<rparr>)"
proof (cases r)
  case (Inl e)
  then have "m = (mgr c)\<lparr>flushing := False\<rparr>" "isl res" using assms(3) by (auto simp: flush_finish_def)
  then show ?thesis using assms(1) by (simp add: wal_inv_def durable_def)
next
  case (Inr u)
  then have m: "writer m = writer (mgr c)" "flushed_lsn m = s" "current_lsn m = current_lsn (mgr c)" "\<not> flushing m" "\<not> isl res"
    using assms(3) by (auto simp: flush_finish_def served_def Let_def)
  have l: "t \<le> s" "flushed_lsn (mgr c) \<le> s" "durable lib c s" using assms(1,2) Inr by (auto simp: wal_inv_def)
  then have "\<forall>t' \<in> set (acked c). t' \<le> s" using assms(1) by (auto simp: wal_inv_def)
  then show ?thesis using assms(1) m l by (simp add: wal_inv_def durable_def)
qed

lemma wal_step_appended: "wal_step lib c c' \<Longrightarrow> length (appended c) \<le> length (appended c')"
  by (induction rule: wal_step.induct) auto

lemma wal_step_inv:
  assumes "wal_step lib c c'" and "wal_inv lib c" and "length (appended c') < 2 ^ 64"
  shows "wal_inv lib c'"
  using assms
proof (induction rule: wal_step.induct)
  case (append r c m l)
  then show ?case using append_inv by simp
next
  case (too_large r c m e)
  then show ?case using wal_append_too_large by fastforce
next
  case (durable_already t c m l)
  then have "m = served (mgr c)" "t \<le> flushed_lsn (mgr c)" by (auto simp: flush_enter_def split: if_splits)
  then show ?case by (intro wal_inv_same [OF durable_already.prems(1)]) (auto simp: served_def)
next
  case (elect t c m)
  then have "m = (mgr c)\<lparr>flushing := True\<rparr>" by (auto simp: flush_enter_def split: if_splits)
  then show ?case using elect.prems(1) elect.hyps(1) by (simp add: wal_inv_def durable_def)
next
  case (snap c t)
  have "flushed_lsn (mgr c) \<le> current_lsn (mgr c)" using snap.prems(1) by (simp add: wal_inv_def durable_def word_le_nat_alt)
  then show ?case using snap by (simp add: wal_inv_def durable_def)
next
  case (flush_io c t s m r)
  then show ?case using flush_io_inv by blast
next
  case (publish_ok c t s r m l)
  then show ?case using publish_inv [of lib c t s r m "Inr l"] by simp
next
  case (publish_err c t s r m e)
  then show ?case using publish_inv [of lib c t s r m "Inl e"] by simp
next
  case (wake t c m l)
  then have "m = served (mgr c)" "t \<le> flushed_lsn (mgr c)" by (auto simp: follower_check_def split: if_splits)
  then show ?case by (intro wal_inv_same [OF wake.prems(1)]) (auto simp: served_def)
next
  case (relaxed c t m r)
  then show ?case by (intro wal_inv_same [OF relaxed.prems(1)]) (auto simp: wal_commit_def served_def)
next
  case (mode c d)
  then show ?case by (intro wal_inv_same [OF mode.prems(1)]) (auto simp: set_durability_mode_def)
next
  case (delay c us)
  then show ?case by (intro wal_inv_same [OF delay.prems(1)]) (auto simp: set_group_commit_delay_us_def)
qed

lemma wal_reachable_inv: "wal_reachable lib c \<Longrightarrow> length (appended c) < 2 ^ 64 \<Longrightarrow> wal_inv lib c"
proof (induction rule: wal_reachable.induct)
  case (start rs f)
  then have "unat (of_nat (length rs) :: u64) = length rs" by (simp add: unat_of_nat64)
  then show ?case using start by (simp add: wal_inv_def log_manager_with_def stream_def durable_def)
next
  case (step c c')
  then show ?case using wal_step_inv wal_step_appended by fastforce
qed

section \<open>Opening a log after a crash\<close>

lemma frames_take_mono: "i \<le> j \<Longrightarrow> length (frames lib n (take i rs)) \<le> length (frames lib n (take j rs))"
proof -
  assume "i \<le> j"
  then have "take j rs = take i rs @ take (j - i) (drop i rs)" by (metis le_add_diff_inverse take_add)
  then show ?thesis by (simp add: frames_append)
qed

lemma open_repaired:
  assumes "lib_ok lib" and "\<forall>r \<in> set rs. fits lib r" and "length tail < 16" and "disk f = frames lib 0 rs @ tail"
  shows "read_all_records lib (log_manager_with n f) = (log_manager_with n f, Inr (numbered 0 rs))"
proof -
  have "read_loop lib (length (disk f)) (disk f) 0 0 [] = Inr (None, numbered 0 rs)"
    unfolding assms(4) using assms(3) read_frames [OF assms(1,2)] by (simp add: read_loop.simps [of lib _ tail] size_defs)
  then show ?thesis by (simp add: read_all_records_def log_manager_with_def)
qed

lemma open_prefix:
  assumes "lib_ok lib" and fits: "\<forall>r \<in> set rs. fits lib r" and k: "k \<le> length (frames lib 0 rs)"
    and f: "disk f = take k (frames lib 0 rs)" "io_plan f = []"
  shows "\<exists>i f'. i \<le> length rs \<and> (\<forall>n \<le> length rs. length (frames lib 0 (take n rs)) \<le> k \<longrightarrow> n \<le> i) \<and>
    log_manager_new lib f = (f', Inr (log_manager_with (of_nat i) f')) \<and>
    read_all_records lib (log_manager_with (of_nat i) f') = (log_manager_with (of_nat i) f', Inr (numbered 0 (take i rs)))"
proof -
  obtain i j where i: "i \<le> length rs" and tk: "take k (frames lib 0 rs) = frames lib 0 (take i rs) @
      (if i < length rs then take j (frame lib (of_nat i) (rs ! i)) else [])"
    and ke: "k = length (frames lib 0 (take i rs)) + (if i < length rs then j else 0)"
    and j: "i < length rs \<longrightarrow> j < length (frame lib (of_nat i) (rs ! i))"
    using frames_prefix [OF k] unfolding add_0 by blast
  define tail where "tail = (if i < length rs then take j (frame lib (of_nat i) (rs ! i)) else [])"
  have d: "disk f = frames lib 0 (take i rs) @ tail" using f(1) tk by (simp add: tail_def)
  have lt: "length tail = (if i < length rs then j else 0)" using j by (simp add: tail_def)
  have ft: "\<forall>r \<in> set (take i rs). fits lib r" using fits by (meson in_set_takeD)
  have max: "n \<le> i" if "n \<le> length rs" "length (frames lib 0 (take n rs)) \<le> k" for n
  proof (rule ccontr)
    assume "\<not> n \<le> i"
    then have "Suc i \<le> n" "i < length rs" using that(1) by auto
    then have "length (frames lib 0 (take (Suc i) rs)) \<le> k" using frames_take_mono [of "Suc i" n] that(2) by (meson order_trans)
    then show False using \<open>i < length rs\<close> ke j i by (simp add: take_Suc_conv_app_nth frames_append)
  qed
  have len: "length (disk f) = length (frames lib 0 (take i rs)) + length tail" using d by simp
  have "scan_loop lib (length (disk f)) tail (length (frames lib 0 (take i rs))) (of_nat i) =
      Inr (if length tail < 16 then None else Some (length (frames lib 0 (take i rs))), of_nat i)"
  proof (cases "i < length rs")
    case True
    then show ?thesis using scan_torn [of j lib "of_nat i" "rs ! i"] j fits len lt by (simp add: tail_def)
  next
    case False
    then show ?thesis by (simp add: tail_def scan_loop.simps size_defs)
  qed
  then have scan: "scan_loop lib (length (disk f)) (disk f) 0 0 =
      Inr (if length tail < 16 then None else Some (length (frames lib 0 (take i rs))), of_nat i)"
    using scan_frames [OF assms(1) ft, of 0 0 "length (disk f)" tail] d len i by (simp add: min_absorb2)
  show ?thesis
  proof (cases "length tail < 16")
    case True
    have "log_manager_new lib f = (f, Inr (log_manager_with (of_nat i) f))"
    proof (cases "disk f = []")
      case True
      then have "frames lib 0 (take i rs) = []" using d by simp
      then have "take i rs = []" using frame_length [of lib 0 "hd (take i rs)"] by (cases "take i rs") auto
      then have "i = 0" using i by (cases rs) auto
      then show ?thesis using True by (simp add: log_manager_new_def)
    qed (use scan True in \<open>simp add: log_manager_new_def scan_and_repair_def\<close>)
    then show ?thesis using i max open_repaired [OF assms(1) ft True d] by blast
  next
    case False
    define f' where "f' = fst (truncate_to (length (frames lib 0 (take i rs))) f)"
    have f': "truncate_to (length (frames lib 0 (take i rs))) f = (f', Inr ())" "disk f' = frames lib 0 (take i rs) @ []"
      using f(2) d by (auto simp: f'_def truncate_to_def os_sync_def set_len_def)
    have "log_manager_new lib f = (f', Inr (log_manager_with (of_nat i) f'))"
      using False scan f'(1) d by (auto simp: log_manager_new_def scan_and_repair_def)
    then show ?thesis using i max open_repaired [OF assms(1) ft _ f'(2)] by auto
  qed
qed

lemma crash_prefix:
  assumes "lib_ok lib" and "wal_reachable lib c" and "length (appended c) < 2 ^ 64"
    and "synced (log_of (mgr c)) \<le> k" and "k \<le> length (disk (log_of (mgr c)))"
  shows "\<exists>n f. n \<le> length (appended c) \<and> (\<forall>t \<in> set (acked c). unat t \<le> n) \<and>
    log_manager_new lib \<lparr>disk = take k (disk (log_of (mgr c))), synced = k, io_plan = []\<rparr> = (f, Inr (log_manager_with (of_nat n) f)) \<and>
    snd (read_all_records lib (log_manager_with (of_nat n) f)) = Inr (numbered 0 (take n (appended c)))"
proof -
  have inv: "wal_inv lib c" by (rule wal_reachable_inv [OF assms(2,3)])
  then have fr: "frames lib 0 (appended c) = disk (log_of (mgr c)) @ buf (writer (mgr c))" by (simp add: wal_inv_def stream_def)
  then have k: "k \<le> length (frames lib 0 (appended c))" using assms(5) by simp
  obtain n f where n: "n \<le> length (appended c)" "\<forall>i \<le> length (appended c). length (frames lib 0 (take i (appended c))) \<le> k \<longrightarrow> i \<le> n"
    "log_manager_new lib \<lparr>disk = take k (disk (log_of (mgr c))), synced = k, io_plan = []\<rparr> = (f, Inr (log_manager_with (of_nat n) f))"
    "read_all_records lib (log_manager_with (of_nat n) f) = (log_manager_with (of_nat n) f, Inr (numbered 0 (take n (appended c))))"
    using open_prefix [OF assms(1) _ k, of "\<lparr>disk = take k (disk (log_of (mgr c))), synced = k, io_plan = []\<rparr>"] inv assms(5)
    by (auto simp: fr wal_inv_def)
  have "unat (flushed_lsn (mgr c)) \<le> n"
    using n(2) inv assms(4) unfolding wal_inv_def durable_def by (meson order_trans)
  then have "\<forall>t \<in> set (acked c). unat t \<le> n" using inv unfolding wal_inv_def by (meson order_trans word_le_nat_alt)
  then show ?thesis using n by auto
qed

section \<open>A concrete format\<close>

text \<open>A byte format for records that shows that the hypotheses on the library can hold: bytes are escaped, and every record ends with a
  zero.\<close>

fun esc :: "bytes \<Rightarrow> bytes" where
  "esc [] = [0]"
| "esc (b # bs) = 1 # b # esc bs"

fun unesc :: "bytes \<Rightarrow> (bytes \<times> bytes) option" where
  "unesc (c # s) =
     (if c = 0 then Some ([], s)
      else case s of b # s' \<Rightarrow> map_option (\<lambda>(d, s''). (b # d, s'')) (unesc s') | [] \<Rightarrow> None)"
| "unesc [] = None"

lemma unesc_esc [simp]: "unesc (esc d @ s) = Some (d, s)" "unesc (esc d) = Some (d, [])"
proof -
  show "unesc (esc d @ s) = Some (d, s)" for s by (induction d) auto
  from this [of "[]"] show "unesc (esc d) = Some (d, [])" by simp
qed

definition row_ref :: "u64 \<Rightarrow> u32 \<Rightarrow> u32 \<Rightarrow> u16 \<Rightarrow> bytes" where
  "row_ref t tbl pid slot = to_le t @ to_le tbl @ to_le pid @ to_le slot"

fun sample_ser :: "log_record \<Rightarrow> bytes" where
  "sample_ser (Begin t) = 0 # to_le t"
| "sample_ser (Insert t tbl pid slot d) = 1 # row_ref t tbl pid slot @ esc d"
| "sample_ser (Update t tbl pid slot old new) = 2 # row_ref t tbl pid slot @ esc old @ esc new"
| "sample_ser (Delete t tbl pid slot old) = 3 # row_ref t tbl pid slot @ esc old"
| "sample_ser (Commit t) = 4 # to_le t"
| "sample_ser (Abort t) = 5 # to_le t"
| "sample_ser (Checkpoint ts) = 6 # concat (map to_le ts)"

fun words8 :: "bytes \<Rightarrow> u64 list" where
  "words8 (a # b # c # d # e # f # g # h # s) = from_le [a, b, c, d, e, f, g, h] # words8 s"
| "words8 _ = []"

definition sample_de :: "bytes \<Rightarrow> log_record option" where
  "sample_de s = (case s of [] \<Rightarrow> None | tag # b \<Rightarrow>
     let t = from_le (take 8 b); tbl = from_le (rd_range 8 4 b); pid = from_le (rd_range 12 4 b); slot = from_le (rd_range 16 2 b)
     in if tag = 0 then Some (Begin t)
        else if tag = 1 then map_option (\<lambda>(d, _). Insert t tbl pid slot d) (unesc (drop 18 b))
        else if tag = 2 then (case unesc (drop 18 b) of None \<Rightarrow> None | Some (old, s') \<Rightarrow>
          map_option (\<lambda>(new, _). Update t tbl pid slot old new) (unesc s'))
        else if tag = 3 then map_option (\<lambda>(d, _). Delete t tbl pid slot d) (unesc (drop 18 b))
        else if tag = 4 then Some (Commit t)
        else if tag = 5 then Some (Abort t)
        else Some (Checkpoint (words8 b)))"

definition sample_lib :: wal_lib where
  "sample_lib = \<lparr>ser = sample_ser, de = sample_de, crc32 = (\<lambda>b. fold (\<lambda>x h. h * 31 + ucast x) b 7)\<rparr>"

lemma length_8: "length xs = 8 \<Longrightarrow> \<exists>a b c d e f g h. xs = [a, b, c, d, e, f, g, h]"
  by (auto simp: numeral_eq_Suc length_Suc_conv)

lemma words8_concat: "words8 (concat (map to_le ts)) = ts"
proof (induction ts)
  case (Cons t ts)
  obtain a b c d e f g h where t: "to_le t = [a, b, c, d, e, f, g, h]"
    using length_8 [OF length_to_le_u(4)] by blast
  then have "from_le [a, b, c, d, e, f, g, h] = t" by (metis from_le_to_le_u(4))
  then show ?case using Cons by (simp add: t)
qed simp

lemma sample_lib_ok: "lib_ok sample_lib"
proof -
  have "sample_de (sample_ser r) = Some r" for r
    by (cases r) (simp_all add: sample_de_def row_ref_def rd_range_def words8_concat Let_def)
  then show ?thesis by (simp add: lib_ok_def sample_lib_def)
qed

lemma sample_fits: "fits sample_lib (Begin t)" "fits sample_lib (Commit t)"
  by (simp_all add: fits_def sample_lib_def MAX_LOG_RECORD_SIZE_def)

definition empty_file :: log_file where
  "empty_file = \<lparr>disk = [], synced = 0, io_plan = []\<rparr>"

section \<open>Properties\<close>

text \<open>C30. Durability across a crash. Take any interleaving of threads that append and flush on a log that was closed cleanly before,
  in which appends succeed or are refused as too large, the writes and syncs of a flush may fail, the log is not truncated, and fewer than \<open>2 ^ 64\<close> records are appended.
  If the machine then stops and the file keeps at least the bytes that were synced, opening the log again succeeds and reading it returns the first
  \<open>n\<close> records that were appended, in order and numbered from 1, where \<open>n\<close> is at least every LSN whose commit was acknowledged.\<close>

theorem wal_crash_recovery:
  assumes "lib_ok lib" and "wal_reachable lib c" and "length (appended c) < 2 ^ 64"
    and "synced (log_of (mgr c)) \<le> k" and "k \<le> length (disk (log_of (mgr c)))"
  shows "\<exists>n f. n \<le> length (appended c) \<and> (\<forall>t \<in> set (acked c). unat t \<le> n) \<and>
    log_manager_new lib \<lparr>disk = take k (disk (log_of (mgr c))), synced = k, io_plan = []\<rparr> = (f, Inr (log_manager_with (of_nat n) f)) \<and>
    snd (read_all_records lib (log_manager_with (of_nat n) f)) = Inr (numbered 0 (take n (appended c)))"
  by (rule crash_prefix [OF assms])

definition sample_sys :: wal_sys where
  "sample_sys = \<lparr>mgr = log_manager_with 0 empty_file, leader = NoLeader, appended = [], acked = []\<rparr>"

lemma sample_reachable: "wal_reachable sample_lib sample_sys"
  using wal_reachable.start [of "[]" sample_lib empty_file] by (simp add: sample_sys_def empty_file_def)

lemmas wal_eval = wal_append_def bw_write_all_def bw_flush_def os_write_def os_sync_def log_manager_with_def frame_parts_def
  BUF_CAPACITY_def MAX_LOG_RECORD_SIZE_def Let_def flush_enter_def flush_write_def flush_finish_def served_def empty_file_def

text \<open>A committed change, and a transaction that has only begun.\<close>

definition sample_log :: "log_record list" where
  "sample_log = [Insert 1 0 0 0 [7], Commit 1]"

lemma sample_log_length: "length (frames sample_lib 0 sample_log) = 63"
  by (simp add: sample_log_def frame_length sample_lib_def row_ref_def)

lemma sample_run:
  "\<exists>c. wal_reachable sample_lib c \<and> appended c = sample_log @ [Begin 2] \<and> acked c = [2] \<and>
    disk (log_of (mgr c)) = frames sample_lib 0 sample_log \<and> synced (log_of (mgr c)) = 63"
proof -
  obtain m0 where m0: "wal_append sample_lib (Insert 1 0 0 0 [7]) (mgr sample_sys) = (m0, Inr 1)" "current_lsn m0 = 1" "\<not> flushing m0"
      "flushed_lsn m0 = 0" "writer m0 = \<lparr>inner = empty_file, buf = frame sample_lib 0 (Insert 1 0 0 0 [7])\<rparr>"
    by (simp add: sample_sys_def wal_eval sample_lib_def saturating_pred_def frame_def row_ref_def)
  obtain m1 where m1: "wal_append sample_lib (Commit 1) m0 = (m1, Inr 2)" "current_lsn m1 = 2" "\<not> flushing m1"
      "flushed_lsn m1 = 0" "writer m1 = \<lparr>inner = empty_file, buf = frames sample_lib 0 sample_log\<rparr>"
    using m0(2-5) by (simp add: wal_eval sample_lib_def saturating_pred_def frame_def sample_log_def row_ref_def)
  have r0: "wal_reachable sample_lib (sample_sys\<lparr>mgr := m0, appended := [Insert 1 0 0 0 [7]]\<rparr>)"
    using wal_reachable.step [OF sample_reachable wal_step.append [OF m0(1)]] by (simp add: sample_sys_def)
  have r1: "wal_reachable sample_lib (sample_sys\<lparr>mgr := m1, appended := sample_log\<rparr>)"
    using wal_reachable.step [OF r0 wal_step.append] m1(1) by (simp add: sample_sys_def sample_log_def)
  have r2: "wal_reachable sample_lib (sample_sys\<lparr>mgr := m1\<lparr>flushing := True\<rparr>, appended := sample_log, leader := Elected 2\<rparr>)"
    using wal_reachable.step [OF r1 wal_step.elect [where t = 2]] m1 by (simp add: flush_enter_def sample_sys_def)
  have r3: "wal_reachable sample_lib (sample_sys\<lparr>mgr := m1\<lparr>flushing := True\<rparr>, appended := sample_log, leader := Snapped 2 2\<rparr>)"
    using wal_reachable.step [OF r2 wal_step.snap] m1 by (simp add: sample_sys_def)
  define m2 where "m2 = m1\<lparr>flushing := True, writer := \<lparr>inner = \<lparr>disk = frames sample_lib 0 sample_log, synced = 63, io_plan = []\<rparr>, buf = []\<rparr>\<rparr>"
  have "frames sample_lib 0 sample_log \<noteq> []" using sample_log_length by auto
  then have "flush_write False (m1\<lparr>flushing := True\<rparr>) = (m2, Inr ())"
    using m1(5) sample_log_length by (simp add: wal_eval m2_def)
  then have r4: "wal_reachable sample_lib (sample_sys\<lparr>mgr := m2, appended := sample_log, leader := Wrote 2 2 (Inr ())\<rparr>)"
    using wal_reachable.step [OF r3 wal_step.flush_io] by (simp add: sample_sys_def)
  define m3 where "m3 = fst (flush_finish 2 (Inr ()) m2)"
  have m3: "flush_finish 2 (Inr ()) m2 = (m3, Inr 2)" "writer m3 = writer m2" "current_lsn m3 = 2"
    using m1 by (simp_all add: m3_def m2_def flush_finish_def served_def Let_def)
  have r5: "wal_reachable sample_lib (sample_sys\<lparr>mgr := m3, appended := sample_log, acked := [2]\<rparr>)"
    using wal_reachable.step [OF r4 wal_step.publish_ok] m3(1) by (simp add: sample_sys_def)
  obtain m4 where m4: "wal_append sample_lib (Begin 2) m3 = (m4, Inr 3)" "log_of m4 = log_of m3"
    using m3 by (simp add: wal_eval sample_lib_def saturating_pred_def m2_def)
  have "wal_reachable sample_lib (sample_sys\<lparr>mgr := m4, appended := sample_log @ [Begin 2], acked := [2]\<rparr>)"
    using wal_reachable.step [OF r5 wal_step.append] m4(1) by (simp add: sample_sys_def)
  then show ?thesis using m4(2) m3(2) by (intro exI conjI) (assumption, simp_all add: m2_def)
qed

theorem wal_crash_recovery_witness:
  "\<exists>c n f. wal_reachable sample_lib c \<and> appended c = sample_log @ [Begin 2] \<and> acked c = [2] \<and> 2 \<le> n \<and>
    log_manager_new sample_lib \<lparr>disk = take 63 (disk (log_of (mgr c))), synced = 63, io_plan = []\<rparr> =
      (f, Inr (log_manager_with (of_nat n) f)) \<and>
    snd (read_all_records sample_lib (log_manager_with (of_nat n) f)) = Inr (numbered 0 (take n (sample_log @ [Begin 2])))"
proof -
  obtain c where c: "wal_reachable sample_lib c" "appended c = sample_log @ [Begin 2]" "acked c = [2]"
      "disk (log_of (mgr c)) = frames sample_lib 0 sample_log" "synced (log_of (mgr c)) = 63"
    using sample_run by blast
  have "length (appended c) < 2 ^ 64" by (simp add: c(2) sample_log_def)
  then obtain n f where "2 \<le> n" and
      "log_manager_new sample_lib \<lparr>disk = take 63 (disk (log_of (mgr c))), synced = 63, io_plan = []\<rparr> =
        (f, Inr (log_manager_with (of_nat n) f))"
      "snd (read_all_records sample_lib (log_manager_with (of_nat n) f)) = Inr (numbered 0 (take n (sample_log @ [Begin 2])))"
    using wal_crash_recovery [OF sample_lib_ok c(1), of 63] c sample_log_length by auto
  then show ?thesis using c(1-3) by blast
qed

section \<open>Where the log loses records\<close>

text \<open>
  A header that was cut short is skipped by the scan but stays in the file, and the next record is appended behind it: a
  record that is then committed is gone when the log is opened again.
\<close>

lemma reopen_misread:
  assumes "\<not> length s < 16" and "unat (from_le (rd_range 0 4 s) :: u32) > MAX_LOG_RECORD_SIZE"
  shows "log_manager_new lib \<lparr>disk = s, synced = k, io_plan = []\<rparr> =
      (\<lparr>disk = [], synced = 0, io_plan = []\<rparr>, Inr (log_manager_with 0 \<lparr>disk = [], synced = 0, io_plan = []\<rparr>))"
proof -
  have "scan_loop lib (length s) s 0 0 = Inr (Some 0, 0)"
    using assms by (subst scan_loop.simps) (simp add: size_defs Let_def)
  moreover have "s \<noteq> []" using assms(1) by auto
  ultimately show ?thesis
    by (simp add: log_manager_new_def scan_and_repair_def truncate_to_def set_len_def os_sync_def)
qed

lemma torn_header_loses_commit:
  "\<exists>f m1 m2 f'. log_manager_new sample_lib \<lparr>disk = [0, 0, 0], synced = 3, io_plan = []\<rparr> = (f, Inr (log_manager_with 0 f)) \<and>
     wal_append sample_lib (Commit 1) (log_manager_with 0 f) = (m1, Inr 1) \<and>
     wal_commit False 1 m1 = Some (m2, Inr 1) \<and>
     log_manager_new sample_lib (log_of m2) = (f', Inr (log_manager_with 0 f')) \<and> disk f' = []"
proof -
  define f where "f = \<lparr>disk = [0, 0, 0 :: u8], synced = 3, io_plan = []\<rparr>"
  define s where "s = [0, 0, 0] @ frame sample_lib 0 (Commit 1)"
  have o: "log_manager_new sample_lib f = (f, Inr (log_manager_with 0 f))"
    by (simp add: f_def log_manager_new_def scan_and_repair_def scan_loop.simps size_defs)
  obtain m1 where m1: "wal_append sample_lib (Commit 1) (log_manager_with 0 f) = (m1, Inr 1)" "durability m1 = Strict" "\<not> flushing m1"
      "flushed_lsn m1 = 0" "current_lsn m1 = 1" "writer m1 = \<lparr>inner = f, buf = frame sample_lib 0 (Commit 1)\<rparr>"
    by (simp add: wal_eval sample_lib_def saturating_pred_def frame_def)
  have len: "length (frame sample_lib 0 (Commit 1)) = 25" by (simp add: frame_length sample_lib_def)
  then have "frame sample_lib 0 (Commit 1) \<noteq> []" by auto
  then obtain m2 where m2: "wal_commit False 1 m1 = Some (m2, Inr 1)" "log_of m2 = \<lparr>disk = s, synced = 28, io_plan = []\<rparr>"
    using m1 len by (simp add: wal_commit_def flush_through_def wal_eval f_def s_def)
  have "\<not> length s < 16" by (simp add: s_def len)
  moreover have "to_le (9 :: u32) = [9, 0, 0, 0]" by code_simp
  then have "rd_range 0 4 s = [0, 0, 0, 9]"
    by (simp add: s_def frame_def frame_parts_def rd_range_def sample_lib_def)
  then have "unat (from_le (rd_range 0 4 s) :: u32) > MAX_LOG_RECORD_SIZE"
    by (simp add: MAX_LOG_RECORD_SIZE_def from_le_def)
  ultimately have "log_manager_new sample_lib (log_of m2) =
      (\<lparr>disk = [], synced = 0, io_plan = []\<rparr>, Inr (log_manager_with 0 \<lparr>disk = [], synced = 0, io_plan = []\<rparr>))"
    unfolding m2(2) by (rule reopen_misread)
  then show ?thesis using o m1(1) m2(1) unfolding f_def by (intro exI conjI) (assumption | simp)+
qed

text \<open>
  \<open>truncate\<close> does not wait for a flush that is running: the leader then publishes the LSN that it had read before, and the
  records of the emptied log count as durable before they are written.
\<close>

lemma truncate_race:
  "\<exists>m1 m2 m3 m4 m5. wal_append sample_lib (Commit 1) (mgr sample_sys) = (m1, Inr 1) \<and>
     flush_enter 1 m1 = (m2, Leader) \<and> wal_truncate m2 = (m3, Inr ()) \<and>
     flush_finish (current_lsn m2) (snd (flush_write False m3)) (fst (flush_write False m3)) = (m4, Inr 1) \<and>
     wal_append sample_lib (Commit 2) m4 = (m5, Inr 1) \<and> snd (flush_enter 1 m5) = AlreadyDurable 1 \<and> disk (log_of m5) = []"
  by (simp add: sample_sys_def wal_eval sample_lib_def saturating_pred_def wal_truncate_def set_len_def)

text \<open>
  An append that fails in the middle leaves a part of its frame in the stream and keeps its LSN: what is committed
  behind it is lost when the log is opened again.
\<close>

lemma failed_append_loses_commit:
  assumes "length d = 5000"
  shows "\<exists>m1 m2 m3 f. wal_append sample_lib (Insert 1 0 0 0 d)
       (log_manager_with 0 \<lparr>disk = [], synced = 0, io_plan = [None, Some (0, ''disk full'')]\<rparr>) = (m1, Inl (Io ''disk full'')) \<and>
     wal_append sample_lib (Commit 2) m1 = (m2, Inr 2) \<and> wal_commit False 2 m2 = Some (m3, Inr 2) \<and>
     log_manager_new sample_lib (log_of m3) = (f, Inr (log_manager_with 0 f)) \<and> disk f = []"
proof -
  let ?r = "Insert 1 0 0 0 d" and ?f = "\<lparr>disk = [], synced = 0, io_plan = [None, Some (0, ''disk full'')]\<rparr> :: log_file"
  have "length (esc xs) = 2 * length xs + 1" for xs by (induction xs) auto
  then have len: "length (ser sample_lib ?r) = 10020" using assms by (simp add: sample_lib_def row_ref_def)
  define h where "h = to_le (10020 :: u32) @ to_le (crc32 sample_lib (to_le (0 :: u64) @ ser sample_lib ?r)) @ to_le (0 :: u64)"
  have h: "length h = 16" "h \<noteq> []" by (simp_all add: h_def) (metis length_to_le_u(3) list.size(3) zero_neq_numeral)
  obtain m1 where m1: "wal_append sample_lib ?r (log_manager_with 0 ?f) = (m1, Inl (Io ''disk full''))" "current_lsn m1 = 1"
      "flushed_lsn m1 = 0" "\<not> flushing m1" "durability m1 = Strict" "writer m1 = \<lparr>inner = \<lparr>disk = h, synced = 0, io_plan = []\<rparr>, buf = []\<rparr>"
    using len h by (simp add: wal_eval saturating_pred_def h_def)
  define w where "w = frame sample_lib 1 (Commit 2)"
  have w: "length w = 25" "w \<noteq> []" by (auto simp: w_def frame_length sample_lib_def) (simp add: frame_def frame_parts_def to_le_def)
  obtain m2 where m2: "wal_append sample_lib (Commit 2) m1 = (m2, Inr 2)" "current_lsn m2 = 2"
      "flushed_lsn m2 = 0" "\<not> flushing m2" "durability m2 = Strict" "writer m2 = \<lparr>inner = \<lparr>disk = h, synced = 0, io_plan = []\<rparr>, buf = w\<rparr>"
    using m1 by (simp add: wal_eval sample_lib_def saturating_pred_def w_def frame_def)
  obtain m3 where m3: "wal_commit False 2 m2 = Some (m3, Inr 2)" "log_of m3 = \<lparr>disk = h @ w, synced = 41, io_plan = []\<rparr>"
    using m2 w h by (simp add: wal_commit_def flush_through_def wal_eval)
  have "unat (from_le (rd_range 0 4 (h @ w)) :: u32) = 10020" by (simp add: h_def rd_range_def)
  then have "scan_loop sample_lib (length (h @ w)) (h @ w) 0 0 = Inr (Some 0, 0)"
    using h w by (subst scan_loop.simps) (simp add: size_defs Let_def)
  then have "log_manager_new sample_lib (log_of m3) =
      (\<lparr>disk = [], synced = 0, io_plan = []\<rparr>, Inr (log_manager_with 0 \<lparr>disk = [], synced = 0, io_plan = []\<rparr>))"
    using h(2) unfolding m3(2) by (simp add: log_manager_new_def scan_and_repair_def truncate_to_def set_len_def os_sync_def)
  then show ?thesis using m1(1) m2(1) m3(1) by (intro exI conjI) (assumption | simp)+
qed

end
