(* ===== verification/Recovery.thy ===== *)
theory Recovery
  imports Wal
begin

text \<open>
  Crash recovery, \<open>bytedb-core/src/wal/recovery.rs\<close>: one pass over the log finds the committed and the unfinished transactions, the row changes of the
  former are listed in log order for redo and those of the latter in reverse order for undo. Point-in-time recovery looks at the records up to
  an LSN only.
\<close>

record recovery_result =
  redo_records :: "(lsn \<times> log_record) list"
  undo_records :: "(lsn \<times> log_record) list"
  rr_committed :: "u64 set"
  rr_aborted :: "u64 set"

record analysis =
  an_active :: "u64 set"
  an_committed :: "u64 set"
  an_aborted :: "u64 set"

fun analyze_one :: "log_record \<Rightarrow> analysis \<Rightarrow> analysis" where
  "analyze_one (Begin t) a = a\<lparr>an_active := insert t (an_active a)\<rparr>"
| "analyze_one (Commit t) a = a\<lparr>an_active := an_active a - {t}, an_committed := insert t (an_committed a)\<rparr>"
| "analyze_one (Abort t) a = a\<lparr>an_active := an_active a - {t}, an_aborted := insert t (an_aborted a)\<rparr>"
| "analyze_one (Checkpoint ts) a = a\<lparr>an_active := fold insert ts {}\<rparr>"
| "analyze_one _ a = a"

fun is_row_change :: "log_record \<Rightarrow> bool" where
  "is_row_change (Insert t tbl pid slot d) = True"
| "is_row_change (Update t tbl pid slot old new) = True"
| "is_row_change (Delete t tbl pid slot old) = True"
| "is_row_change _ = False"

definition changes_of :: "u64 set \<Rightarrow> lsn \<times> log_record \<Rightarrow> bool" where
  "changes_of ts p = (case record_txn_id (snd p) of Some t \<Rightarrow> t \<in> ts \<and> is_row_change (snd p) | None \<Rightarrow> False)"

definition analyze_records :: "(lsn \<times> log_record) list \<Rightarrow> recovery_result result" where
  "analyze_records records =
     (let a = fold (analyze_one \<circ> snd) records \<lparr>an_active = {}, an_committed = {}, an_aborted = {}\<rparr>
      in Inr \<lparr>redo_records = filter (changes_of (an_committed a)) records,
              undo_records = filter (changes_of (an_active a)) (rev records),
              rr_committed = an_committed a, rr_aborted = an_active a\<rparr>)"

definition recover_inner :: "wal_lib \<Rightarrow> lsn option \<Rightarrow> log_manager \<Rightarrow> log_manager \<times> recovery_result result" where
  "recover_inner lib target m =
     (case read_all_records lib m of
        (m', Inl e) \<Rightarrow> (m', Inl e)
      | (m', Inr all) \<Rightarrow>
          (m', analyze_records (case target of Some t \<Rightarrow> filter (\<lambda>(lsn, _). lsn \<le> t) all | None \<Rightarrow> all)))"

definition recover :: "wal_lib \<Rightarrow> log_manager \<Rightarrow> log_manager \<times> recovery_result result" where
  "recover lib m = recover_inner lib None m"

definition recover_to_lsn :: "wal_lib \<Rightarrow> lsn \<Rightarrow> log_manager \<Rightarrow> log_manager \<times> recovery_result result" where
  "recover_to_lsn lib target m = recover_inner lib (Some target) m"

section \<open>What the analysis finds\<close>

text \<open>A record starts the activity of a transaction, or ends it; a checkpoint states which transactions are active.\<close>

fun opens :: "u64 \<Rightarrow> log_record \<Rightarrow> bool" where
  "opens t (Begin t') = (t' = t)"
| "opens t (Checkpoint ts) = (t \<in> set ts)"
| "opens t _ = False"

fun closes :: "u64 \<Rightarrow> log_record \<Rightarrow> bool" where
  "closes t (Commit t') = (t' = t)"
| "closes t (Abort t') = (t' = t)"
| "closes t (Checkpoint ts) = (t \<notin> set ts)"
| "closes t _ = False"

definition unfinished :: "log_record list \<Rightarrow> u64 set" where
  "unfinished rs = {t. \<exists>i < length rs. opens t (rs ! i) \<and> (\<forall>j. i < j \<and> j < length rs \<longrightarrow> \<not> closes t (rs ! j))}"

lemma unfinished_snoc: "t \<in> unfinished (rs @ [r]) \<longleftrightarrow> opens t r \<or> t \<in> unfinished rs \<and> \<not> closes t r"
proof
  assume "t \<in> unfinished (rs @ [r])"
  then obtain i where i: "i < Suc (length rs)" "opens t ((rs @ [r]) ! i)"
      "\<forall>j. i < j \<and> j < Suc (length rs) \<longrightarrow> \<not> closes t ((rs @ [r]) ! j)"
    by (auto simp: unfinished_def)
  show "opens t r \<or> t \<in> unfinished rs \<and> \<not> closes t r"
  proof (cases "i = length rs")
    case False
    then have il: "i < length rs" using i(1) by simp
    have "\<not> closes t (rs ! j)" if "i < j" "j < length rs" for j using i(3) that by (auto simp: nth_append dest: spec [of _ j])
    moreover have "\<not> closes t r" using i(3) il by (auto dest: spec [of _ "length rs"])
    ultimately show ?thesis using i(2) il by (auto simp: unfinished_def nth_append)
  qed (use i in simp)
next
  assume "opens t r \<or> t \<in> unfinished rs \<and> \<not> closes t r"
  then show "t \<in> unfinished (rs @ [r])"
  proof
    assume "opens t r"
    then show ?thesis by (auto simp: unfinished_def intro!: exI [of _ "length rs"])
  next
    assume a: "t \<in> unfinished rs \<and> \<not> closes t r"
    then obtain i where "i < length rs" "opens t (rs ! i)" "\<forall>j. i < j \<and> j < length rs \<longrightarrow> \<not> closes t (rs ! j)"
      by (auto simp: unfinished_def)
    then show ?thesis using a by (auto simp: unfinished_def nth_append less_Suc_eq intro!: exI [of _ i])
  qed
qed

lemma opens_not_closes: "opens t r \<Longrightarrow> \<not> closes t r"
  by (cases r) auto

lemma analysis_correct:
  "fold analyze_one rs \<lparr>an_active = {}, an_committed = {}, an_aborted = {}\<rparr> =
    \<lparr>an_active = unfinished rs, an_committed = {t. Commit t \<in> set rs}, an_aborted = {t. Abort t \<in> set rs}\<rparr>"
proof (induction rs rule: rev_induct)
  case (snoc r rs)
  have "fold insert ts {} = set ts" for ts :: "u64 list" by (simp add: union_set_fold [symmetric])
  then show ?case using snoc by (cases r) (auto simp: unfinished_snoc)
qed (simp add: unfinished_def)

lemma fold_snd: "fold (f \<circ> snd) xs a = fold f (map snd xs) a"
  by (induction xs arbitrary: a) auto

lemma analyze_records_correct:
  "analyze_records records = Inr \<lparr>redo_records = filter (changes_of {t. Commit t \<in> set (map snd records)}) records,
     undo_records = rev (filter (changes_of (unfinished (map snd records))) records),
     rr_committed = {t. Commit t \<in> set (map snd records)}, rr_aborted = unfinished (map snd records)\<rparr>"
  unfolding analyze_records_def fold_snd analysis_correct by (simp add: rev_filter Let_def)

lemma numbered_snd [simp]: "map snd (numbered n rs) = rs"
  by (induction rs arbitrary: n) auto

lemma analyze_numbered:
  "analyze_records (numbered n rs) = Inr \<lparr>redo_records = filter (changes_of {t. Commit t \<in> set rs}) (numbered n rs),
     undo_records = rev (filter (changes_of (unfinished rs)) (numbered n rs)),
     rr_committed = {t. Commit t \<in> set rs}, rr_aborted = unfinished rs\<rparr>"
  unfolding analyze_records_correct numbered_snd ..

lemma numbered_append: "numbered n (rs @ rs') = numbered n rs @ numbered (n + of_nat (length rs)) rs'"
  by (induction rs arbitrary: n) (auto simp: algebra_simps)

lemma length_numbered [simp]: "length (numbered n rs) = length rs"
  by (induction rs arbitrary: n) auto

lemma nth_numbered: "i < length rs \<Longrightarrow> numbered n rs ! i = (n + of_nat (Suc i), rs ! i)"
proof (induction rs arbitrary: n i)
  case (Cons r rs)
  then show ?case by (cases i) (auto simp: algebra_simps)
qed simp

text \<open>The records up to an LSN are a prefix of the log.\<close>

lemma filter_numbered:
  assumes "length rs < 2 ^ 64"
  shows "filter (\<lambda>(lsn, _). lsn \<le> t) (numbered 0 rs) = numbered 0 (take (unat t) rs)"
  using assms
proof (induction rs rule: rev_induct)
  case (snoc r rs)
  have l: "unat (of_nat (length rs) + 1 :: u64) = length rs + 1"
    using unat_of_nat64 [of "length rs + 1"] snoc.prems by (simp add: add.commute)
  have "of_nat (length rs) + 1 \<le> t \<longleftrightarrow> length rs + 1 \<le> unat t" unfolding word_le_nat_alt l ..
  then show ?case using snoc by (cases "length rs < unat t") (auto simp: numbered_append)
qed simp

section \<open>Properties\<close>

text \<open>C31. Recovery to a point in time: on a cleanly written log, \<open>recover_to_lsn\<close> sees exactly the first \<open>target\<close> records;
  it redoes the row changes of the transactions that have a commit record among them, in log order, and undoes, in reverse order, those of the
  transactions that were begun, or listed as active by a checkpoint, and have no later record among them that ends them (a commit, an abort, or a checkpoint
  that does not list them). A transaction with a commit record counts as committed whatever else is logged for it.\<close>

theorem recovery_classifies:
  assumes "lib_ok lib" and "\<forall>r \<in> set rs. fits lib r" and "length rs < 2 ^ 64" and "disk f = frames lib 0 rs"
  shows "\<exists>res. snd (recover_to_lsn lib target (log_manager_with (of_nat (length rs)) f)) = Inr res \<and>
    rr_committed res = {t. Commit t \<in> set (take (unat target) rs)} \<and>
    rr_aborted res = unfinished (take (unat target) rs) \<and>
    redo_records res = filter (changes_of (rr_committed res)) (numbered 0 (take (unat target) rs)) \<and>
    undo_records res = rev (filter (changes_of (rr_aborted res)) (numbered 0 (take (unat target) rs)))"
proof -
  have "read_all_records lib (log_manager_with (of_nat (length rs)) f) = (log_manager_with (of_nat (length rs)) f, Inr (numbered 0 rs))"
    using open_repaired [OF assms(1,2), of "[]"] assms(4) by simp
  then have "snd (recover_to_lsn lib target (log_manager_with (of_nat (length rs)) f)) = analyze_records (numbered 0 (take (unat target) rs))"
    unfolding filter_numbered [OF assms(3), symmetric] by (simp add: recover_to_lsn_def recover_inner_def)
  then show ?thesis by (simp add: analyze_numbered)
qed

theorem recovery_classifies_witness:
  "\<exists>res. snd (recover_to_lsn sample_lib 3 (log_manager_with 4
      \<lparr>disk = frames sample_lib 0 [Begin 1, Begin 2, Commit 1, Commit 2], synced = 0, io_plan = []\<rparr>)) = Inr res \<and>
    rr_committed res = {1} \<and> rr_aborted res = {2}"
proof -
  let ?rs = "[Begin 1, Begin 2, Commit 1, Commit 2]"
  obtain res where res: "snd (recover_to_lsn sample_lib 3 (log_manager_with (of_nat (length ?rs))
      \<lparr>disk = frames sample_lib 0 ?rs, synced = 0, io_plan = []\<rparr>)) = Inr res"
      "rr_committed res = {t. Commit t \<in> set (take (unat (3 :: u64)) ?rs)}" "rr_aborted res = unfinished (take (unat (3 :: u64)) ?rs)"
    using recovery_classifies [OF sample_lib_ok, of ?rs "\<lparr>disk = frames sample_lib 0 ?rs, synced = 0, io_plan = []\<rparr>" 3] sample_fits
    by auto
  have tk: "take (unat (3 :: u64)) ?rs = [Begin 1, Begin 2, Commit 1]" by simp
  have "t \<in> unfinished ([Begin 1, Begin 2] @ [Commit 1]) \<longleftrightarrow> t \<in> {2}" for t
    using unfinished_snoc [of t "[]" "Begin 1"] unfinished_snoc [of t "[Begin 1]" "Begin 2"]
      unfinished_snoc [of t "[Begin 1, Begin 2]" "Commit 1"] by (auto simp: unfinished_def)
  then have "unfinished [Begin 1, Begin 2, Commit 1] = {2}" by auto
  then show ?thesis using res unfolding tk by auto
qed

text \<open>C32. Committed work survives a crash, for runs that start on a cleanly closed log, in which appends succeed or are refused as too large, flushes may fail, and the
  log is not truncated: when the commit record of a transaction was acknowledged and the machine stops, then opening the
  log and recovering succeeds, the transaction counts as committed, and every row change that it had logged before is
  among the changes to redo, under its LSN.\<close>

theorem committed_work_survives:
  assumes "lib_ok lib" and "wal_reachable lib c" and "length (appended c) < 2 ^ 64"
    and "synced (log_of (mgr c)) \<le> k" and "k \<le> length (disk (log_of (mgr c)))"
    and "i < length (appended c)" and "appended c ! i = Commit t" and "of_nat (Suc i) \<in> set (acked c)"
  shows "\<exists>f m res. log_manager_new lib \<lparr>disk = take k (disk (log_of (mgr c))), synced = k, io_plan = []\<rparr> = (f, Inr m) \<and>
    snd (recover lib m) = Inr res \<and> t \<in> rr_committed res \<and>
    (\<forall>j < i. record_txn_id (appended c ! j) = Some t \<and> is_row_change (appended c ! j) \<longrightarrow>
      (of_nat (Suc j), appended c ! j) \<in> set (redo_records res))"
proof -
  obtain n f where n: "n \<le> length (appended c)" "\<forall>t \<in> set (acked c). unat t \<le> n"
      "log_manager_new lib \<lparr>disk = take k (disk (log_of (mgr c))), synced = k, io_plan = []\<rparr> = (f, Inr (log_manager_with (of_nat n) f))"
      "snd (read_all_records lib (log_manager_with (of_nat n) f)) = Inr (numbered 0 (take n (appended c)))"
    using crash_prefix [OF assms(1-5)] by blast
  let ?rs = "take n (appended c)"
  have "unat (of_nat (Suc i) :: u64) = Suc i" using assms(3,6) by (intro unat_of_nat64) simp
  then have i: "i < n" using n(2) assms(8) by (metis Suc_le_lessD)
  have rec: "snd (recover lib (log_manager_with (of_nat n) f)) = analyze_records (numbered 0 ?rs)"
    using n(4) by (cases "read_all_records lib (log_manager_with (of_nat n) f)") (simp add: recover_def recover_inner_def)
  have com: "Commit t \<in> set ?rs" using i assms(6,7) n(1) by (auto simp: in_set_conv_nth intro!: exI [of _ i])
  have "(of_nat (Suc j), appended c ! j) \<in> set (filter (changes_of {t. Commit t \<in> set ?rs}) (numbered 0 ?rs))"
    if "j < i" "record_txn_id (appended c ! j) = Some t" "is_row_change (appended c ! j)" for j
  proof -
    have "numbered 0 ?rs ! j = (of_nat (Suc j), appended c ! j)" using that(1) i n(1) by (simp add: nth_numbered)
    then have "(of_nat (Suc j), appended c ! j) \<in> set (numbered 0 ?rs)" using that(1) i n(1) by (metis length_numbered length_take less_trans min.absorb2 nth_mem)
    then show ?thesis using that(2,3) com by (simp add: changes_of_def)
  qed
  then show ?thesis using n(3) rec com by (simp add: analyze_numbered)
qed

theorem committed_work_survives_witness:
  "\<exists>c f m res. wal_reachable sample_lib c \<and> appended c = sample_log @ [Begin 2] \<and>
    log_manager_new sample_lib \<lparr>disk = take 63 (disk (log_of (mgr c))), synced = 63, io_plan = []\<rparr> = (f, Inr m) \<and>
    snd (recover sample_lib m) = Inr res \<and> 1 \<in> rr_committed res \<and> (1, Insert 1 0 0 0 [7]) \<in> set (redo_records res)"
proof -
  obtain c where c: "wal_reachable sample_lib c" "appended c = sample_log @ [Begin 2]" "acked c = [2]"
      "disk (log_of (mgr c)) = frames sample_lib 0 sample_log" "synced (log_of (mgr c)) = 63"
    using sample_run by blast
  have "length (appended c) < 2 ^ 64" by (simp add: c(2) sample_log_def)
  then obtain f m res where "log_manager_new sample_lib \<lparr>disk = take 63 (disk (log_of (mgr c))), synced = 63, io_plan = []\<rparr> = (f, Inr m)"
      "snd (recover sample_lib m) = Inr res" "1 \<in> rr_committed res" "(1, Insert 1 0 0 0 [7]) \<in> set (redo_records res)"
    using committed_work_survives [OF sample_lib_ok c(1), of 63 1 1] c sample_log_length by (auto simp: sample_log_def)
  then show ?thesis using c(1,2) by blast
qed

end
