(* ===== verification/Disk.thy ===== *)
theory Disk
  imports Page
begin

text \<open>
  The disk manager, \<open>bytedb-core/src/storage/disk_manager.rs\<close>, and the checksum functions of \<open>storage/page.rs\<close>.
  The database file is its bytes; a read past its end fails, a write past its end fills the gap with zeros. \<open>crc\<close> is the
  checksum function of the library. Errors of the device are left out.
\<close>

section \<open>Operations\<close>

record disk_manager =
  dfile :: bytes
  next_page_id :: u32

definition disk_manager_new :: "bytes \<Rightarrow> disk_manager" where
  "disk_manager_new file =
     (let file_len = of_nat (length file) :: u64;
          num_pages = (if file_len = 0 then 1 else ucast file_len div of_nat PAGE_SIZE)
      in \<lparr>dfile = file, next_page_id = num_pages\<rparr>)"

definition read_at :: "disk_manager \<Rightarrow> nat \<Rightarrow> nat \<Rightarrow> bytes result" where
  "read_at d n offset =
     (if offset + n \<le> length (dfile d) then Inr (rd_range offset n (dfile d)) else Inl (Io ''UnexpectedEof''))"

definition write_at :: "bytes \<Rightarrow> nat \<Rightarrow> disk_manager \<Rightarrow> disk_manager" where
  "write_at b offset d =
     d\<lparr>dfile := wr_range offset b (dfile d @ replicate (offset - length (dfile d)) 0)\<rparr>"

definition compute_checksum_bytes :: "(bytes \<Rightarrow> u32) \<Rightarrow> bytes \<Rightarrow> u32" where
  "compute_checksum_bytes crc b = crc (drop 20 b)"

definition compute_checksum :: "(bytes \<Rightarrow> u32) \<Rightarrow> page \<Rightarrow> u32" where
  "compute_checksum crc p = crc (drop 20 (pdata p))"

definition checksum_offset :: nat where "checksum_offset = 16"

definition read_page :: "(bytes \<Rightarrow> u32) \<Rightarrow> u32 \<Rightarrow> disk_manager \<Rightarrow> page result" where
  "read_page crc pid d =
     rbind (read_at d PAGE_SIZE (unat pid * PAGE_SIZE)) (\<lambda>b.
       let p = (new_page pid)\<lparr>pdata := b, page_id := pid\<rparr>; stored = page_checksum p
       in if stored \<noteq> 0 \<and> stored \<noteq> compute_checksum crc p then Inl (ChecksumMismatch pid) else Inr p)"

definition write_page :: "(bytes \<Rightarrow> u32) \<Rightarrow> u32 \<Rightarrow> page \<Rightarrow> disk_manager \<Rightarrow> disk_manager" where
  "write_page crc pid p d =
     (let buf = wr_range checksum_offset (to_le (0 :: u32)) (pdata p);
          cs = compute_checksum_bytes crc buf
      in write_at (wr_range checksum_offset (to_le cs) buf) (unat pid * PAGE_SIZE) d)"

definition allocate_page :: "(bytes \<Rightarrow> u32) \<Rightarrow> disk_manager \<Rightarrow> disk_manager \<times> u32" where
  "allocate_page crc d =
     (let pid = next_page_id d
      in (write_page crc pid (new_page pid) (d\<lparr>next_page_id := pid + 1\<rparr>), pid))"

definition deallocate_page :: "u32 \<Rightarrow> disk_manager \<Rightarrow> unit result" where
  "deallocate_page pid d = Inr ()"

definition num_pages :: "disk_manager \<Rightarrow> u32" where
  "num_pages d = next_page_id d"

section \<open>Pages in the file\<close>

definition covered :: "disk_manager \<Rightarrow> u32 \<Rightarrow> bool" where
  "covered d pid \<longleftrightarrow> unat pid * 8192 + 8192 \<le> length (dfile d)"

definition raw_page :: "disk_manager \<Rightarrow> u32 \<Rightarrow> bytes" where
  "raw_page d pid = rd_range (unat pid * 8192) 8192 (dfile d)"

text \<open>The contents of a page without its checksum field.\<close>

definition payload :: "bytes \<Rightarrow> bytes" where
  "payload b = wr_range 16 (to_le (0 :: u32)) b"

definition sum_ok :: "(bytes \<Rightarrow> u32) \<Rightarrow> bytes \<Rightarrow> bool" where
  "sum_ok crc b \<longleftrightarrow> from_le (rd_range 16 4 b) = (0 :: u32) \<or> from_le (rd_range 16 4 b) = crc (drop 20 b)"

definition sealed :: "(bytes \<Rightarrow> u32) \<Rightarrow> bytes \<Rightarrow> bytes" where
  "sealed crc b = wr_range 16 (to_le (crc (drop 20 b))) b"

lemma length_new_page [simp]: "length (pdata (new_page pid)) = 8192"
  by (simp add: new_page_def header_defs set_page_id_def Let_def length_wr_range)

lemma length_payload [simp]: "length b = 8192 \<Longrightarrow> length (payload b) = 8192"
  by (simp add: payload_def length_wr_range)

lemma length_sealed [simp]: "length b = 8192 \<Longrightarrow> length (sealed crc b) = 8192"
  by (simp add: sealed_def length_wr_range)

lemma wr_range_twice: "length x = length y \<Longrightarrow> a + length x \<le> length b \<Longrightarrow> wr_range a x (wr_range a y b) = wr_range a x b"
  by (simp add: wr_range_def)

lemma drop_wr_range: "a + length x \<le> n \<Longrightarrow> a + length x \<le> length b \<Longrightarrow> drop n (wr_range a x b) = drop n b"
  by (simp add: wr_range_def)

lemma payload_sealed [simp]: "length b = 8192 \<Longrightarrow> payload (sealed crc b) = payload b"
  by (simp add: payload_def sealed_def wr_range_twice)

lemma sealed_payload: "length b = 8192 \<Longrightarrow> sealed crc (payload b) = sealed crc b"
  by (simp add: payload_def sealed_def wr_range_twice drop_wr_range)

lemma sum_ok_sealed: "length b = 8192 \<Longrightarrow> sum_ok crc (sealed crc b)"
  by (simp add: sum_ok_def sealed_def rd_wr_same drop_wr_range)

lemma length_raw_page: "covered d pid \<Longrightarrow> length (raw_page d pid) = 8192"
  by (simp add: covered_def raw_page_def length_rd_range)

lemma read_page_eq:
  "read_page crc pid d =
     (if \<not> covered d pid then Inl (Io ''UnexpectedEof'')
      else if sum_ok crc (raw_page d pid) then Inr \<lparr>page_id = pid, pdata = raw_page d pid\<rparr>
      else Inl (ChecksumMismatch pid))"
proof -
  have "(new_page pid)\<lparr>pdata := b, page_id := pid\<rparr> = \<lparr>page_id = pid, pdata = b\<rparr>" for b by simp
  then show ?thesis
    by (auto simp: read_page_def read_at_def covered_def raw_page_def sum_ok_def page_checksum_def compute_checksum_def Let_def)
qed

lemma write_page_eq:
  assumes "length (pdata p) = 8192"
  shows "write_page crc pid p d = write_at (sealed crc (pdata p)) (unat pid * 8192) d"
proof -
  have "compute_checksum_bytes crc (payload (pdata p)) = crc (drop 20 (pdata p))"
    using assms by (simp add: compute_checksum_bytes_def payload_def drop_wr_range)
  then show ?thesis
    using assms by (simp add: write_page_def checksum_offset_def Let_def payload_def [symmetric]) (simp add: payload_def sealed_def wr_range_twice)
qed

lemma write_at_next [simp]: "next_page_id (write_at b off d) = next_page_id d"
  by (simp add: write_at_def)

text \<open>The pages of the file as the pool sees them; page 0 is never one of them.\<close>

definition contents :: "disk_manager \<Rightarrow> u32 \<Rightarrow> bytes option" where
  "contents d pid = (if pid \<noteq> 0 \<and> covered d pid then Some (payload (raw_page d pid)) else None)"

text \<open>A file of whole pages, all with good checksums; a new file is empty and its first page is page 1.\<close>

definition disk_wf :: "(bytes \<Rightarrow> u32) \<Rightarrow> disk_manager \<Rightarrow> bool" where
  "disk_wf crc d \<longleftrightarrow> (dfile d = [] \<and> next_page_id d = 1 \<or> length (dfile d) = unat (next_page_id d) * 8192 \<and> next_page_id d \<noteq> 0) \<and>
     (\<forall>pid. covered d pid \<longrightarrow> sum_ok crc (raw_page d pid))"

lemma raw_in_place:
  assumes "covered d pid" and "length b = 8192"
  shows "length (dfile (write_at b (unat pid * 8192) d)) = length (dfile d)"
    and "covered (write_at b (unat pid * 8192) d) q = covered d q"
    and "covered d q \<Longrightarrow> raw_page (write_at b (unat pid * 8192) d) q = (if q = pid then b else raw_page d q)"
proof -
  have len: "unat pid * 8192 + length b \<le> length (dfile d)" using assms by (simp add: covered_def)
  then have f: "dfile (write_at b (unat pid * 8192) d) = wr_range (unat pid * 8192) b (dfile d)" by (simp add: write_at_def)
  show l: "length (dfile (write_at b (unat pid * 8192) d)) = length (dfile d)" unfolding f by (rule length_wr_range [OF len])
  then show "covered (write_at b (unat pid * 8192) d) q = covered d q" by (simp add: covered_def)
  assume q: "covered d q"
  show "raw_page (write_at b (unat pid * 8192) d) q = (if q = pid then b else raw_page d q)"
  proof (cases "q = pid")
    case True
    then show ?thesis using len assms(2) by (simp add: raw_page_def f rd_wr_same)
  next
    case False
    then have "unat q < unat pid \<or> unat pid < unat q" by (metis linorder_neqE_nat word_unat_eq_iff)
    then have "unat q * 8192 + 8192 \<le> unat pid * 8192 \<or> unat pid * 8192 + length b \<le> unat q * 8192" using assms(2) by auto
    then show ?thesis using len q False assms(2) by (simp add: raw_page_def f rd_wr_other covered_def)
  qed
qed

lemma raw_append:
  assumes "length (dfile d) \<le> unat pid * 8192" and "length b = 8192"
  shows "length (dfile (write_at b (unat pid * 8192) d)) = unat pid * 8192 + 8192"
    and "raw_page (write_at b (unat pid * 8192) d) pid = b"
    and "covered d q \<Longrightarrow> raw_page (write_at b (unat pid * 8192) d) q = raw_page d q"
proof -
  have f: "dfile (write_at b (unat pid * 8192) d) = dfile d @ replicate (unat pid * 8192 - length (dfile d)) 0 @ b"
    using assms by (simp add: write_at_def wr_range_def)
  show "length (dfile (write_at b (unat pid * 8192) d)) = unat pid * 8192 + 8192" unfolding f using assms by simp
  show "raw_page (write_at b (unat pid * 8192) d) pid = b" unfolding raw_page_def f using assms by (simp add: rd_range_def)
  show "covered d q \<Longrightarrow> raw_page (write_at b (unat pid * 8192) d) q = raw_page d q"
    unfolding raw_page_def f covered_def by simp
qed

lemma disk_write_in_place:
  assumes "disk_wf crc d" and "covered d pid" and "length b = 8192" and "sum_ok crc b" and "pid \<noteq> 0"
  shows "disk_wf crc (write_at b (unat pid * 8192) d)" and "contents (write_at b (unat pid * 8192) d) = (contents d)(pid \<mapsto> payload b)"
proof -
  note r = raw_in_place [OF assms(2,3)]
  have e: "dfile (write_at b (unat pid * 8192) d) = [] \<longleftrightarrow> dfile d = []" using r(1) by (metis length_0_conv)
  show "disk_wf crc (write_at b (unat pid * 8192) d)"
    using assms(1,4) r by (auto simp: disk_wf_def e)
  show "contents (write_at b (unat pid * 8192) d) = (contents d)(pid \<mapsto> payload b)"
    using assms(2,5) r by (auto simp: contents_def)
qed

lemma le_dec_zeros: "le_dec (replicate n 0) = 0"
  by (induction n) auto

lemma allocate_page_ok:
  assumes "disk_wf crc d" and "unat (next_page_id d) + 1 < 2 ^ 32" and "allocate_page crc d = (d', pid)"
  shows "disk_wf crc d'" and "pid = next_page_id d" and "next_page_id d' = pid + 1" and "pid \<noteq> 0"
    and "contents d' = (contents d)(pid \<mapsto> payload (pdata (new_page pid)))" and "contents d pid = None"
proof -
  let ?b = "sealed crc (pdata (new_page pid))"
  show pid: "pid = next_page_id d" and n': "next_page_id d' = pid + 1"
    using assms(3) by (auto simp: allocate_page_def Let_def write_page_eq)
  have d': "d' = write_at ?b (unat pid * 8192) (d\<lparr>next_page_id := pid + 1\<rparr>)"
    using assms(3) by (auto simp: allocate_page_def Let_def write_page_eq)
  have p0: "unat pid \<noteq> 0" using assms(1) pid by (auto simp: disk_wf_def unat_eq_0)
  then show "pid \<noteq> 0" by auto
  have len: "length (dfile (d\<lparr>next_page_id := pid + 1\<rparr>)) \<le> unat pid * 8192" using assms(1) pid by (auto simp: disk_wf_def)
  note r = raw_append [OF len, of ?b, folded d', simplified]
  have cov: "covered d' q \<longleftrightarrow> unat q \<le> unat pid" for q using r(1) by (simp add: covered_def)
  have up: "unat (pid + 1) = unat pid + 1" using assms(2) pid by (simp add: unat_word_ariths(1))
  have old: "covered d q \<or> dfile d = [] \<and> q = 0" if "unat q \<le> unat pid" "q \<noteq> pid" for q
  proof -
    have "unat q < unat pid" using that by (metis le_neq_implies_less word_unat_eq_iff)
    then show ?thesis using assms(1) pid by (auto simp: disk_wf_def covered_def unat_eq_0)
  qed
  have raw: "raw_page d' q = (if q = pid then ?b else raw_page d q)" if "covered d q \<or> q = pid" for q
    using that r by (auto simp: covered_def raw_page_def)
  have zero: "sum_ok crc (raw_page d' 0)" if "dfile d = []"
  proof -
    have "dfile d' = replicate (unat pid * 8192) 0 @ ?b" using that by (simp add: d' write_at_def wr_range_def)
    then have "raw_page d' 0 = replicate 8192 0" using p0 by (simp add: raw_page_def rd_range_def min_def)
    then show ?thesis by (simp add: sum_ok_def rd_range_def from_le_def le_dec_zeros)
  qed
  have so: "sum_ok crc (raw_page d' q)" if "covered d' q" for q
  proof -
    have "unat q \<le> unat pid" using that cov by simp
    then consider "q = pid" | "covered d q" "q \<noteq> pid" | "dfile d = []" "q = 0" using old [of q] by blast
    then show ?thesis
    proof cases
      case 1
      then show ?thesis using raw [of q] sum_ok_sealed [of "pdata (new_page pid)" crc] by simp
    next
      case 2
      then show ?thesis using raw [of q] assms(1) by (simp add: disk_wf_def)
    qed (use zero in simp)
  qed
  have "next_page_id d' \<noteq> 0" using n' up by (metis add_is_0 one_neq_zero unat_0)
  then show "disk_wf crc d'" using r(1) n' up so by (auto simp: disk_wf_def)
  have nc: "\<not> covered d pid" using len by (simp add: covered_def)
  then show "contents d pid = None" by (simp add: contents_def)
  show "contents d' = (contents d)(pid \<mapsto> payload (pdata (new_page pid)))"
  proof
    fix q
    have c: "covered d q \<Longrightarrow> covered d' q" using len cov [of q] by (simp add: covered_def)
    show "contents d' q = ((contents d)(pid \<mapsto> payload (pdata (new_page pid)))) q"
    proof (cases "q = pid")
      case True
      then show ?thesis using raw [of q] cov [of q] p0 by (auto simp: contents_def)
    next
      case False
      then have "q \<noteq> 0 \<Longrightarrow> covered d' q = covered d q" using old [of q] cov [of q] c by auto
      then show ?thesis using False raw [of q] by (auto simp: contents_def)
    qed
  qed
qed

section \<open>Limits of the format\<close>

text \<open>The length of the file is cut to 32 bits before it is divided: a database file of 4 GiB is opened as one without any page, and the next
  page that is allocated overwrites the start of the file.\<close>

lemma large_file_forgotten:
  assumes "length file = 2 ^ 32"
  shows "next_page_id (disk_manager_new file) = 0"
proof -
  have "(of_nat (2 ^ 32) :: u64) = 4294967296" and "(ucast (4294967296 :: u64) :: u32) = 0" by simp_all
  then show ?thesis unfolding disk_manager_new_def Let_def assms by simp
qed

text \<open>The checksum does not cover the page id, the page type and the LSN, which precede it.\<close>

lemma header_unprotected:
  assumes "length b = 8192" and "length h = 16"
  shows "sum_ok crc (wr_range 0 h (sealed crc b))"
proof -
  have "rd_range 16 4 (wr_range 0 h (sealed crc b)) = rd_range 16 4 (sealed crc b)"
    using assms by (intro rd_wr_other) simp_all
  moreover have "drop 20 (wr_range 0 h (sealed crc b)) = drop 20 (sealed crc b)" using assms by (intro drop_wr_range) simp_all
  ultimately show ?thesis using sum_ok_sealed [OF assms(1)] by (simp add: sum_ok_def)
qed

end
