(* ===== verification/BufferPool.thy ===== *)
theory BufferPool
  imports Disk "HOL-Library.AList"
begin

text \<open>
  The buffer pool, \<open>bytedb-core/src/storage/buffer_pool.rs\<close>: a fixed number of frames that cache pages of the file, pin counts that
  keep a page in its frame while a guard is alive, and the LRU-2 choice of a victim. The page table is an association list. A guard holds a reference to the page
  of its frame, so it is the index of the frame; dropping it unpins. Every index in the page table and in the free list is in range (\<open>pool_inv\<close>).

  \<open>fetch_page\<close> reads the file without holding the lock. It is the composition of the look-up, the read and the installation
  of the page, which are definitions of their own.
\<close>

section \<open>Frames\<close>

definition LRU_K :: nat where "LRU_K = 2"
definition DEFAULT_POOL_FRAMES :: nat where "DEFAULT_POOL_FRAMES = 2048"

record frame =
  fr_page :: page
  fr_page_id :: u32
  fr_pin :: u32
  fr_dirty :: bool
  fr_history :: "u64 list"
  fr_access :: u8

definition frame_empty :: frame where
  "frame_empty = \<lparr>fr_page = new_page INVALID_PAGE_ID, fr_page_id = INVALID_PAGE_ID, fr_pin = 0, fr_dirty = False,
     fr_history = replicate LRU_K 0, fr_access = 0\<rparr>"

definition record_access :: "u64 \<Rightarrow> frame \<Rightarrow> frame" where
  "record_access ts f =
     (if unat (fr_access f) < LRU_K
      then f\<lparr>fr_history := (fr_history f)[unat (fr_access f) := ts], fr_access := fr_access f + 1\<rparr>
      else f\<lparr>fr_history := tl (fr_history f) @ [ts]\<rparr>)"

definition kth_oldest :: "frame \<Rightarrow> u64" where
  "kth_oldest f = (if unat (fr_access f) < LRU_K then 0 else hd (fr_history f))"

section \<open>The pool\<close>

record buffer_pool =
  bp_frames :: "frame list"
  bp_table :: "(u32 \<times> nat) list"
  bp_free :: "nat list"
  bp_clock :: u64
  bp_disk :: disk_manager
  bp_hits :: u64
  bp_misses :: u64

definition buffer_pool_new :: "disk_manager \<Rightarrow> nat \<Rightarrow> buffer_pool" where
  "buffer_pool_new d num_frames =
     (let n = max num_frames 2
      in \<lparr>bp_frames = replicate n frame_empty, bp_table = [], bp_free = map (\<lambda>i. n - 1 - i) [0..<n], bp_clock = 0,
          bp_disk = d, bp_hits = 0, bp_misses = 0\<rparr>)"

definition capacity :: "buffer_pool \<Rightarrow> nat" where
  "capacity s = length (bp_frames s)"

definition tick :: "buffer_pool \<Rightarrow> buffer_pool" where
  "tick s = s\<lparr>bp_clock := bp_clock s + 1\<rparr>"

definition set_frame :: "nat \<Rightarrow> frame \<Rightarrow> buffer_pool \<Rightarrow> buffer_pool" where
  "set_frame i f s = s\<lparr>bp_frames := (bp_frames s)[i := f]\<rparr>"

fun victim_loop :: "nat \<Rightarrow> frame list \<Rightarrow> (nat \<times> u64 \<times> u8) option \<Rightarrow> (nat \<times> u64 \<times> u8) option" where
  "victim_loop i [] best = best"
| "victim_loop i (f # fs) best =
     victim_loop (i + 1) fs
       (if fr_pin f > 0 \<or> fr_page_id f = INVALID_PAGE_ID then best
        else case best of
          None \<Rightarrow> Some (i, kth_oldest f, fr_access f)
        | Some (_, bk, ba) \<Rightarrow>
            if fr_access f < ba \<or> fr_access f = ba \<and> kth_oldest f < bk then Some (i, kth_oldest f, fr_access f) else best)"

definition pick_victim :: "buffer_pool \<Rightarrow> nat option" where
  "pick_victim s = map_option fst (victim_loop 0 (bp_frames s) None)"

record buffer_guard =
  g_frame :: nat
  g_pid :: u32
  g_dirtied :: bool

definition evict_locked :: "(bytes \<Rightarrow> u32) \<Rightarrow> nat \<Rightarrow> buffer_pool \<Rightarrow> buffer_pool" where
  "evict_locked crc i s =
     (let f = bp_frames s ! i; pid = fr_page_id f
      in if pid = INVALID_PAGE_ID then s
         else
           let s1 = (if fr_dirty f then s\<lparr>bp_disk := write_page crc pid (fr_page f) (bp_disk s)\<rparr> else s)
           in set_frame i (f\<lparr>fr_page_id := INVALID_PAGE_ID, fr_dirty := False, fr_pin := 0, fr_access := 0\<rparr>)
                (s1\<lparr>bp_table := AList.delete pid (bp_table s1)\<rparr>))"

text \<open>A look-up under the lock: a resident page is pinned.\<close>

definition fetch_lookup :: "u32 \<Rightarrow> buffer_pool \<Rightarrow> (buffer_pool \<times> buffer_guard) option" where
  "fetch_lookup pid s =
     (case map_of (bp_table s) pid of
        None \<Rightarrow> None
      | Some i \<Rightarrow>
          let s1 = tick s; f = bp_frames s1 ! i
          in Some (set_frame i (record_access (bp_clock s1) (f\<lparr>fr_pin := fr_pin f + 1\<rparr>)) s1,
                   \<lparr>g_frame = i, g_pid = pid, g_dirtied = False\<rparr>))"

definition choose_frame :: "(bytes \<Rightarrow> u32) \<Rightarrow> buffer_pool \<Rightarrow> (buffer_pool \<times> nat) result" where
  "choose_frame crc s =
     (if bp_free s \<noteq> [] then Inr (s\<lparr>bp_free := butlast (bp_free s)\<rparr>, last (bp_free s))
      else case pick_victim s of
        None \<Rightarrow> Inl (Internal ''buffer_pool: every frame is pinned, cannot evict'')
      | Some victim \<Rightarrow> Inr (evict_locked crc victim s, victim))"

definition load_frame :: "nat \<Rightarrow> u32 \<Rightarrow> page \<Rightarrow> buffer_pool \<Rightarrow> buffer_pool" where
  "load_frame i pid pg s =
     (let s1 = tick s
      in (set_frame i (record_access (bp_clock s1)
            \<lparr>fr_page = pg, fr_page_id = pid, fr_pin = 1, fr_dirty = False, fr_history = replicate LRU_K 0, fr_access = 0\<rparr>) s1)
         \<lparr>bp_table := AList.update pid i (bp_table s1)\<rparr>)"

definition fetch_install :: "(bytes \<Rightarrow> u32) \<Rightarrow> u32 \<Rightarrow> page \<Rightarrow> buffer_pool \<Rightarrow> buffer_pool \<times> buffer_guard result" where
  "fetch_install crc pid pg s =
     (case fetch_lookup pid s of
        Some (s', g) \<Rightarrow> (s', Inr g)
      | None \<Rightarrow>
          (case choose_frame crc s of
             Inl e \<Rightarrow> (s, Inl e)
           | Inr (s1, i) \<Rightarrow> (load_frame i pid pg s1, Inr \<lparr>g_frame = i, g_pid = pid, g_dirtied = False\<rparr>)))"

definition fetch_page :: "(bytes \<Rightarrow> u32) \<Rightarrow> u32 \<Rightarrow> buffer_pool \<Rightarrow> buffer_pool \<times> buffer_guard result" where
  "fetch_page crc pid s =
     (if pid = INVALID_PAGE_ID then (s, Inl (Internal ''buffer_pool: refusing to fetch INVALID_PAGE_ID''))
      else case fetch_lookup pid s of
        Some (s', g) \<Rightarrow> (s'\<lparr>bp_hits := bp_hits s' + 1\<rparr>, Inr g)
      | None \<Rightarrow>
          let s1 = s\<lparr>bp_misses := bp_misses s + 1\<rparr>
          in case read_page crc pid (bp_disk s1) of
               Inl e \<Rightarrow> (s1, Inl e)
             | Inr pg \<Rightarrow> fetch_install crc pid pg s1)"

definition bp_new_page :: "(bytes \<Rightarrow> u32) \<Rightarrow> buffer_pool \<Rightarrow> buffer_pool \<times> buffer_guard result" where
  "bp_new_page crc s =
     (case allocate_page crc (bp_disk s) of (d, pid) \<Rightarrow>
        (case fetch_page crc pid (s\<lparr>bp_disk := d\<rparr>) of
           (s1, Inl e) \<Rightarrow> (s1, Inl e)
         | (s1, Inr g) \<Rightarrow> (s1, Inr (g\<lparr>g_dirtied := True\<rparr>))))"

definition unpin :: "buffer_guard \<Rightarrow> buffer_pool \<Rightarrow> buffer_pool" where
  "unpin g s =
     (let f = bp_frames s ! g_frame g
      in if fr_page_id f = g_pid g \<and> fr_pin f > 0
         then set_frame (g_frame g) (f\<lparr>fr_pin := fr_pin f - 1, fr_dirty := fr_dirty f \<or> g_dirtied g\<rparr>) s
         else s)"

definition flush_page :: "(bytes \<Rightarrow> u32) \<Rightarrow> u32 \<Rightarrow> buffer_pool \<Rightarrow> buffer_pool" where
  "flush_page crc pid s =
     (case map_of (bp_table s) pid of
        None \<Rightarrow> s
      | Some i \<Rightarrow>
          let f = bp_frames s ! i
          in if fr_dirty f
             then set_frame i (f\<lparr>fr_dirty := False\<rparr>) (s\<lparr>bp_disk := write_page crc pid (fr_page f) (bp_disk s)\<rparr>)
             else s)"

text \<open>\<open>flush_all\<close> collects the dirty pages, writes them without the lock, and takes the lock again to clear the flags.\<close>

definition flush_collect :: "buffer_pool \<Rightarrow> (u32 \<times> page) list" where
  "flush_collect s =
     map (\<lambda>f. (fr_page_id f, fr_page f)) (filter (\<lambda>f. fr_dirty f \<and> fr_page_id f \<noteq> INVALID_PAGE_ID) (bp_frames s))"

definition flush_dirties :: "(bytes \<Rightarrow> u32) \<Rightarrow> (u32 \<times> page) list \<Rightarrow> buffer_pool \<Rightarrow> buffer_pool" where
  "flush_dirties crc dirties s = s\<lparr>bp_disk := fold (\<lambda>(pid, pg). write_page crc pid pg) dirties (bp_disk s)\<rparr>"

definition flush_clear :: "buffer_pool \<Rightarrow> buffer_pool" where
  "flush_clear s =
     s\<lparr>bp_frames := map (\<lambda>f. if fr_page_id f \<noteq> INVALID_PAGE_ID then f\<lparr>fr_dirty := False\<rparr> else f) (bp_frames s)\<rparr>"

definition flush_all :: "(bytes \<Rightarrow> u32) \<Rightarrow> buffer_pool \<Rightarrow> buffer_pool" where
  "flush_all crc s = flush_clear (flush_dirties crc (flush_collect s) s)"

section \<open>Guards\<close>

definition guard_page :: "buffer_guard \<Rightarrow> buffer_pool \<Rightarrow> page" where
  "guard_page g s = fr_page (bp_frames s ! g_frame g)"

definition mark_dirty :: "buffer_guard \<Rightarrow> buffer_guard" where
  "mark_dirty g = g\<lparr>g_dirtied := True\<rparr>"

text \<open>Storing new page data through \<open>page_mut\<close>, which marks the guard.\<close>

definition guard_write :: "bytes \<Rightarrow> buffer_guard \<Rightarrow> buffer_pool \<Rightarrow> buffer_pool \<times> buffer_guard" where
  "guard_write b g s =
     (let f = bp_frames s ! g_frame g
      in (set_frame (g_frame g) (f\<lparr>fr_page := (fr_page f)\<lparr>pdata := b\<rparr>\<rparr>) s, mark_dirty g))"

section \<open>Clients\<close>

text \<open>The pool and the guards that are alive; what clients do with them, in any order.\<close>

record pool_sys =
  ps_pool :: buffer_pool
  ps_guards :: "buffer_guard list"

datatype pool_op =
    PFetch u32
  | PNew
  | PWrite nat bytes
  | PDrop nat
  | PFlushPage u32
  | PFlushAll

definition with_guard :: "pool_sys \<Rightarrow> buffer_pool \<times> buffer_guard result \<Rightarrow> pool_sys \<times> unit result" where
  "with_guard s r =
     (case r of
        (p, Inl e) \<Rightarrow> (s\<lparr>ps_pool := p\<rparr>, Inl e)
      | (p, Inr g) \<Rightarrow> (\<lparr>ps_pool = p, ps_guards = ps_guards s @ [g]\<rparr>, Inr ()))"

fun remove_nth :: "nat \<Rightarrow> 'a list \<Rightarrow> 'a list" where
  "remove_nth n [] = []"
| "remove_nth 0 (x # xs) = xs"
| "remove_nth (Suc n) (x # xs) = x # remove_nth n xs"

fun pool_do :: "(bytes \<Rightarrow> u32) \<Rightarrow> pool_op \<Rightarrow> pool_sys \<Rightarrow> pool_sys \<times> unit result" where
  "pool_do crc (PFetch pid) s = with_guard s (fetch_page crc pid (ps_pool s))"
| "pool_do crc PNew s = with_guard s (bp_new_page crc (ps_pool s))"
| "pool_do crc (PWrite i b) s =
     (if i < length (ps_guards s) \<and> length b = PAGE_SIZE
      then (case guard_write b (ps_guards s ! i) (ps_pool s) of
              (p, g) \<Rightarrow> (\<lparr>ps_pool = p, ps_guards = (ps_guards s)[i := g]\<rparr>, Inr ()))
      else (s, Inr ()))"
| "pool_do crc (PDrop i) s =
     (if i < length (ps_guards s)
      then (\<lparr>ps_pool = unpin (ps_guards s ! i) (ps_pool s), ps_guards = remove_nth i (ps_guards s)\<rparr>, Inr ())
      else (s, Inr ()))"
| "pool_do crc (PFlushPage pid) s = (s\<lparr>ps_pool := flush_page crc pid (ps_pool s)\<rparr>, Inr ())"
| "pool_do crc PFlushAll s = (s\<lparr>ps_pool := flush_all crc (ps_pool s)\<rparr>, Inr ())"

text \<open>A run, with the record of which operations succeeded.\<close>

fun pool_run :: "(bytes \<Rightarrow> u32) \<Rightarrow> pool_op list \<Rightarrow> pool_sys \<Rightarrow> pool_sys \<times> bool list" where
  "pool_run crc [] s = (s, [])"
| "pool_run crc (x # xs) s =
     (case pool_do crc x s of (s1, r) \<Rightarrow> case pool_run crc xs s1 of (s2, oks) \<Rightarrow> (s2, (\<not> isl r) # oks))"

section \<open>The abstract pool\<close>

text \<open>
  To its clients the pool is a map from page ids to page contents, whether a page is in a frame or only in the file, with the
  pages that are held and the id of the next new page.
\<close>

type_synonym pool_view = "(u32 \<rightharpoonup> bytes) \<times> u32 list \<times> u32"

definition pool_contents :: "buffer_pool \<Rightarrow> u32 \<rightharpoonup> bytes" where
  "pool_contents s pid =
     (case map_of (bp_table s) pid of
        Some i \<Rightarrow> Some (payload (pdata (fr_page (bp_frames s ! i))))
      | None \<Rightarrow> contents (bp_disk s) pid)"

definition view :: "pool_sys \<Rightarrow> pool_view" where
  "view s = (pool_contents (ps_pool s), map g_pid (ps_guards s), next_page_id (bp_disk (ps_pool s)))"

fun pool_spec :: "pool_op \<Rightarrow> bool \<Rightarrow> pool_view \<Rightarrow> pool_view" where
  "pool_spec (PFetch pid) ok (m, gs, n) = (m, if ok then gs @ [pid] else gs, n)"
| "pool_spec PNew ok (m, gs, n) = (m(n \<mapsto> payload (pdata (new_page n))), if ok then gs @ [n] else gs, n + 1)"
| "pool_spec (PWrite i b) ok (m, gs, n) = (if i < length gs \<and> length b = 8192 then m(gs ! i \<mapsto> payload b) else m, gs, n)"
| "pool_spec (PDrop i) ok (m, gs, n) = (m, remove_nth i gs, n)"
| "pool_spec (PFlushPage pid) ok v = v"
| "pool_spec PFlushAll ok v = v"

fun spec_run :: "(pool_op \<times> bool) list \<Rightarrow> pool_view \<Rightarrow> pool_view" where
  "spec_run [] v = v"
| "spec_run ((x, ok) # xs) v = spec_run xs (pool_spec x ok v)"

section \<open>The invariant\<close>

definition on_frame :: "nat \<Rightarrow> buffer_guard list \<Rightarrow> buffer_guard list" where
  "on_frame i gs = filter (\<lambda>g. g_frame g = i) gs"

text \<open>A frame without unwritten changes holds what the file has.\<close>

definition frame_ok :: "disk_manager \<Rightarrow> (u32 \<rightharpoonup> nat) \<Rightarrow> buffer_guard list \<Rightarrow> nat \<Rightarrow> frame \<Rightarrow> bool" where
  "frame_ok d tab gs i f \<longleftrightarrow> length (pdata (fr_page f)) = 8192 \<and> fr_pin f = of_nat (length (on_frame i gs)) \<and>
     (if fr_page_id f = 0 then on_frame i gs = []
      else tab (fr_page_id f) = Some i \<and> covered d (fr_page_id f) \<and>
        (\<not> fr_dirty f \<and> (\<forall>g \<in> set (on_frame i gs). \<not> g_dirtied g) \<longrightarrow>
          contents d (fr_page_id f) = Some (payload (pdata (fr_page f)))))"

definition pool_inv :: "(bytes \<Rightarrow> u32) \<Rightarrow> buffer_pool \<Rightarrow> buffer_guard list \<Rightarrow> bool" where
  "pool_inv crc p gs \<longleftrightarrow> disk_wf crc (bp_disk p) \<and>
     (\<forall>i < length (bp_frames p). frame_ok (bp_disk p) (map_of (bp_table p)) gs i (bp_frames p ! i)) \<and>
     (\<forall>pid i. map_of (bp_table p) pid = Some i \<longrightarrow> i < length (bp_frames p) \<and> fr_page_id (bp_frames p ! i) = pid \<and> pid \<noteq> 0) \<and>
     (\<forall>g \<in> set gs. g_frame g < length (bp_frames p) \<and> fr_page_id (bp_frames p ! g_frame g) = g_pid g \<and> g_pid g \<noteq> 0) \<and>
     distinct (bp_free p) \<and> set (bp_free p) = {i. i < length (bp_frames p) \<and> fr_page_id (bp_frames p ! i) = 0} \<and>
     distinct (map fst (bp_table p))"

lemma on_frame_append: "on_frame i (gs @ [g]) = on_frame i gs @ (if g_frame g = i then [g] else [])"
  by (simp add: on_frame_def)

lemma pool_invD:
  assumes "pool_inv crc p gs"
  shows "disk_wf crc (bp_disk p)" "\<And>i. i < length (bp_frames p) \<Longrightarrow> frame_ok (bp_disk p) (map_of (bp_table p)) gs i (bp_frames p ! i)"
    "\<And>pid i. map_of (bp_table p) pid = Some i \<Longrightarrow> i < length (bp_frames p) \<and> fr_page_id (bp_frames p ! i) = pid \<and> pid \<noteq> 0"
    "\<And>g. g \<in> set gs \<Longrightarrow> g_frame g < length (bp_frames p) \<and> fr_page_id (bp_frames p ! g_frame g) = g_pid g \<and> g_pid g \<noteq> 0"
    "distinct (bp_free p)" "set (bp_free p) = {i. i < length (bp_frames p) \<and> fr_page_id (bp_frames p ! i) = 0}"
    "distinct (map fst (bp_table p))"
  using assms by (auto simp: pool_inv_def)

lemma record_access_fields [simp]:
  "fr_page (record_access ts f) = fr_page f" "fr_page_id (record_access ts f) = fr_page_id f"
  "fr_pin (record_access ts f) = fr_pin f" "fr_dirty (record_access ts f) = fr_dirty f"
  by (simp_all add: record_access_def)

lemma pool_misc_inv [simp]:
  "pool_inv crc (p\<lparr>bp_hits := h\<rparr>) gs = pool_inv crc p gs"
  "pool_inv crc (p\<lparr>bp_misses := h\<rparr>) gs = pool_inv crc p gs"
  "pool_inv crc (tick p) gs = pool_inv crc p gs"
  "pool_contents (p\<lparr>bp_hits := h\<rparr>) = pool_contents p"
  "pool_contents (p\<lparr>bp_misses := h\<rparr>) = pool_contents p"
  "pool_contents (tick p) = pool_contents p"
  "bp_disk (tick p) = bp_disk p" "bp_frames (tick p) = bp_frames p" "bp_table (tick p) = bp_table p" "bp_free (tick p) = bp_free p"
  by (auto simp: pool_inv_def pool_contents_def tick_def fun_eq_iff split: option.split)

lemma set_frame_fields [simp]:
  "bp_disk (set_frame i f p) = bp_disk p" "bp_table (set_frame i f p) = bp_table p" "bp_free (set_frame i f p) = bp_free p"
  "bp_frames (set_frame i f p) = (bp_frames p)[i := f]"
  by (simp_all add: set_frame_def)

text \<open>Changing one frame that keeps its page, and the guards on it.\<close>

lemma set_frame_inv:
  assumes inv: "pool_inv crc p gs" and i: "i < length (bp_frames p)" and id: "fr_page_id f = fr_page_id (bp_frames p ! i)"
    and f: "frame_ok (bp_disk p) (map_of (bp_table p)) gs' i f"
    and gs: "\<And>j. j \<noteq> i \<Longrightarrow> on_frame j gs' = on_frame j gs"
    and g: "\<And>g. g \<in> set gs' \<Longrightarrow> g \<in> set gs \<or> g_frame g = i \<and> g_pid g = fr_page_id f \<and> fr_page_id f \<noteq> 0"
  shows "pool_inv crc (set_frame i f p) gs'"
proof -
  have other: "frame_ok (bp_disk p) (map_of (bp_table p)) gs' j (bp_frames p ! j)" if "j < length (bp_frames p)" "j \<noteq> i" for j
    using pool_invD(2) [OF inv that(1)] gs [OF that(2)] by (simp add: frame_ok_def)
  have ids: "fr_page_id ((bp_frames p)[i := f] ! j) = fr_page_id (bp_frames p ! j)" if "j < length (bp_frames p)" for j
    using that i id by (simp add: nth_list_update)
  show ?thesis
    unfolding pool_inv_def
  proof (intro conjI allI impI ballI)
    fix j assume "j < length (bp_frames (set_frame i f p))"
    then show "frame_ok (bp_disk (set_frame i f p)) (map_of (bp_table (set_frame i f p))) gs' j (bp_frames (set_frame i f p) ! j)"
      using f other i by (cases "j = i") simp_all
  next
    fix pid j assume "map_of (bp_table (set_frame i f p)) pid = Some j"
    then have "j < length (bp_frames p) \<and> fr_page_id (bp_frames p ! j) = pid \<and> pid \<noteq> 0" using pool_invD(3) [OF inv] by simp
    then show "j < length (bp_frames (set_frame i f p))" "fr_page_id (bp_frames (set_frame i f p) ! j) = pid" "pid \<noteq> 0"
      using ids by simp_all
  next
    fix g assume "g \<in> set gs'"
    from this [THEN assms(6)] have "g_frame g < length (bp_frames p) \<and> fr_page_id (bp_frames p ! g_frame g) = g_pid g \<and> g_pid g \<noteq> 0"
      using pool_invD(4) [OF inv, of g] i id by auto
    then show "g_frame g < length (bp_frames (set_frame i f p))" "fr_page_id (bp_frames (set_frame i f p) ! g_frame g) = g_pid g" "g_pid g \<noteq> 0"
      using ids by simp_all
  next
    have "{j. j < length (bp_frames p) \<and> fr_page_id ((bp_frames p)[i := f] ! j) = 0} = {j. j < length (bp_frames p) \<and> fr_page_id (bp_frames p ! j) = 0}"
      using ids by auto
    then show "set (bp_free (set_frame i f p)) = {j. j < length (bp_frames (set_frame i f p)) \<and> fr_page_id (bp_frames (set_frame i f p) ! j) = 0}"
      using pool_invD(6) [OF inv] by simp
  qed (use pool_invD [OF inv] in simp_all)
qed

lemma set_frame_contents:
  assumes "pool_inv crc p gs" and "i < length (bp_frames p)"
  shows "pool_contents (set_frame i f p) pid =
    (if map_of (bp_table p) pid = Some i then Some (payload (pdata (fr_page f))) else pool_contents p pid)"
  using assms pool_invD(3) [OF assms(1)] by (auto simp: pool_contents_def nth_list_update split: option.splits)

lemma frame_table:
  assumes "pool_inv crc p gs" and "i < length (bp_frames p)" and "fr_page_id (bp_frames p ! i) \<noteq> 0"
  shows "map_of (bp_table p) pid = Some i \<longleftrightarrow> pid = fr_page_id (bp_frames p ! i)"
  using pool_invD(2) [OF assms(1,2)] pool_invD(3) [OF assms(1), of pid i] assms(3) by (auto simp: frame_ok_def)


section \<open>Operations on the invariant\<close>

lemma fetch_lookup_ok:
  assumes inv: "pool_inv crc p gs" and r: "fetch_lookup pid p = Some (p', g)"
  shows "pool_inv crc p' (gs @ [g]) \<and> pool_contents p' = pool_contents p \<and> bp_disk p' = bp_disk p \<and> g_pid g = pid"
proof -
  obtain i where i: "map_of (bp_table p) pid = Some i" and p': "p' = set_frame i (record_access (bp_clock (tick p))
      ((bp_frames p ! i)\<lparr>fr_pin := fr_pin (bp_frames p ! i) + 1\<rparr>)) (tick p)" and g: "g = \<lparr>g_frame = i, g_pid = pid, g_dirtied = False\<rparr>"
    using r by (auto simp: fetch_lookup_def Let_def split: option.splits)
  have i': "i < length (bp_frames p)" "fr_page_id (bp_frames p ! i) = pid" "pid \<noteq> 0" using pool_invD(3) [OF inv i] by auto
  have "frame_ok (bp_disk p) (map_of (bp_table p)) gs i (bp_frames p ! i)" by (rule pool_invD(2) [OF inv i'(1)])
  then have "frame_ok (bp_disk p) (map_of (bp_table p)) (gs @ [g]) i
      (record_access (bp_clock (tick p)) ((bp_frames p ! i)\<lparr>fr_pin := fr_pin (bp_frames p ! i) + 1\<rparr>))"
    using i' by (auto simp: frame_ok_def on_frame_append g)
  then have "pool_inv crc p' (gs @ [g])"
    unfolding p' by (intro set_frame_inv [of crc "tick p" gs]) (use inv i' in \<open>auto simp: on_frame_append g\<close>)
  moreover have "pool_contents p' = pool_contents p"
  proof
    fix q
    show "pool_contents p' q = pool_contents p q"
      unfolding p' using set_frame_contents [of crc "tick p" gs i] inv i' i
      by (auto simp: pool_contents_def)
  qed
  ultimately show ?thesis using g by (simp add: p')
qed

text \<open>Writing the page of a frame back to the file.\<close>

lemma write_back:
  assumes inv: "pool_inv crc p gs" and i: "i < length (bp_frames p)" and id: "fr_page_id (bp_frames p ! i) \<noteq> 0"
    and p': "p' = p\<lparr>bp_disk := write_page crc (fr_page_id (bp_frames p ! i)) (fr_page (bp_frames p ! i)) (bp_disk p)\<rparr>"
  shows "pool_inv crc p' gs" and "pool_contents p' = pool_contents p" and "next_page_id (bp_disk p') = next_page_id (bp_disk p)"
    and "contents (bp_disk p') = (contents (bp_disk p))(fr_page_id (bp_frames p ! i) \<mapsto> payload (pdata (fr_page (bp_frames p ! i))))"
proof -
  let ?f = "bp_frames p ! i" and ?d = "bp_disk p"
  have f: "frame_ok ?d (map_of (bp_table p)) gs i ?f" by (rule pool_invD(2) [OF inv i])
  then have len: "length (pdata (fr_page ?f)) = 8192" and cov: "covered ?d (fr_page_id ?f)" using id by (auto simp: frame_ok_def)
  have d': "bp_disk p' = write_at (sealed crc (pdata (fr_page ?f))) (unat (fr_page_id ?f) * 8192) ?d"
    by (simp add: p' write_page_eq [OF len])
  show n: "next_page_id (bp_disk p') = next_page_id ?d" by (simp add: d')
  have cov': "covered (bp_disk p') q = covered ?d q" for q unfolding d' by (rule raw_in_place(2) [OF cov]) (simp add: len)
  have wf: "disk_wf crc (bp_disk p')"
    unfolding d' by (rule disk_write_in_place(1) [OF pool_invD(1) [OF inv] cov]) (use len id sum_ok_sealed in auto)
  show c: "contents (bp_disk p') = (contents ?d)(fr_page_id ?f \<mapsto> payload (pdata (fr_page ?f)))"
    unfolding d' using disk_write_in_place(2) [OF pool_invD(1) [OF inv] cov] len id sum_ok_sealed by simp
  show "pool_contents p' = pool_contents p"
  proof
    fix q
    have "bp_table p' = bp_table p" "bp_frames p' = bp_frames p" by (simp_all add: p')
    then show "pool_contents p' q = pool_contents p q"
      using frame_table [OF inv i id, of "fr_page_id ?f"] by (auto simp: pool_contents_def c split: option.split)
  qed
  have "frame_ok (bp_disk p') (map_of (bp_table p)) gs j (bp_frames p ! j)" if j: "j < length (bp_frames p)" for j
  proof (cases "j = i")
    case True
    then show ?thesis using f by (auto simp: frame_ok_def cov' c)
  next
    case False
    have fj: "frame_ok ?d (map_of (bp_table p)) gs j (bp_frames p ! j)" by (rule pool_invD(2) [OF inv j])
    have "fr_page_id (bp_frames p ! j) \<noteq> fr_page_id ?f \<or> fr_page_id (bp_frames p ! j) = 0"
      using False fj f id by (auto simp: frame_ok_def)
    then show ?thesis using fj by (auto simp: frame_ok_def cov' c)
  qed
  then show "pool_inv crc p' gs" using inv wf by (simp add: pool_inv_def p')
qed

text \<open>A pool with one frame taken out, to be filled.\<close>

definition pool_inv_but :: "(bytes \<Rightarrow> u32) \<Rightarrow> buffer_pool \<Rightarrow> buffer_guard list \<Rightarrow> nat \<Rightarrow> bool" where
  "pool_inv_but crc p gs i \<longleftrightarrow> disk_wf crc (bp_disk p) \<and> i < length (bp_frames p) \<and>
     (\<forall>j < length (bp_frames p). j \<noteq> i \<longrightarrow> frame_ok (bp_disk p) (map_of (bp_table p)) gs j (bp_frames p ! j)) \<and>
     (\<forall>pid j. map_of (bp_table p) pid = Some j \<longrightarrow> j < length (bp_frames p) \<and> j \<noteq> i \<and> fr_page_id (bp_frames p ! j) = pid \<and> pid \<noteq> 0) \<and>
     (\<forall>g \<in> set gs. g_frame g < length (bp_frames p) \<and> g_frame g \<noteq> i \<and> fr_page_id (bp_frames p ! g_frame g) = g_pid g \<and> g_pid g \<noteq> 0) \<and>
     distinct (bp_free p) \<and> set (bp_free p) = {j. j < length (bp_frames p) \<and> j \<noteq> i \<and> fr_page_id (bp_frames p ! j) = 0} \<and>
     distinct (map fst (bp_table p))"

lemma evict_ok:
  assumes inv: "pool_inv crc p gs" and i: "i < length (bp_frames p)" and id: "fr_page_id (bp_frames p ! i) \<noteq> 0"
    and none: "on_frame i gs = []"
  shows "pool_inv_but crc (evict_locked crc i p) gs i" and "pool_contents (evict_locked crc i p) = pool_contents p"
    and "next_page_id (bp_disk (evict_locked crc i p)) = next_page_id (bp_disk p)"
    and "map_of (bp_table (evict_locked crc i p)) q \<noteq> None \<Longrightarrow> map_of (bp_table p) q \<noteq> None"
    and "bp_free (evict_locked crc i p) = bp_free p" and "length (bp_frames (evict_locked crc i p)) = length (bp_frames p)"
proof -
  let ?f = "bp_frames p ! i" and ?pid = "fr_page_id (bp_frames p ! i)"
  define p1 where "p1 = (if fr_dirty ?f then p\<lparr>bp_disk := write_page crc ?pid (fr_page ?f) (bp_disk p)\<rparr> else p)"
  have p1: "pool_inv crc p1 gs" "pool_contents p1 = pool_contents p" "next_page_id (bp_disk p1) = next_page_id (bp_disk p)"
    using write_back [OF inv i id refl] inv by (simp_all add: p1_def)
  have same: "bp_frames p1 = bp_frames p" "bp_table p1 = bp_table p" "bp_free p1 = bp_free p" by (simp_all add: p1_def)
  have clean: "contents (bp_disk p1) ?pid = Some (payload (pdata (fr_page ?f)))"
    using write_back(4) [OF inv i id refl] pool_invD(2) [OF inv i] none id by (auto simp: p1_def frame_ok_def)
  have e: "evict_locked crc i p = set_frame i (?f\<lparr>fr_page_id := 0, fr_dirty := False, fr_pin := 0, fr_access := 0\<rparr>)
      (p1\<lparr>bp_table := AList.delete ?pid (bp_table p)\<rparr>)"
    using id same by (simp add: evict_locked_def Let_def INVALID_PAGE_ID_def p1_def)
  have t: "map_of (AList.delete ?pid (bp_table p)) q = (if q = ?pid then None else map_of (bp_table p) q)" for q
    by (simp add: delete_conv)
  show "map_of (bp_table (evict_locked crc i p)) q \<noteq> None \<Longrightarrow> map_of (bp_table p) q \<noteq> None" for q
    by (simp add: e t split: if_splits)
  show "bp_free (evict_locked crc i p) = bp_free p" "length (bp_frames (evict_locked crc i p)) = length (bp_frames p)"
    "next_page_id (bp_disk (evict_locked crc i p)) = next_page_id (bp_disk p)" by (simp_all add: e same p1(3))
  have nf: "map_of (bp_table p) q = Some i \<longleftrightarrow> q = ?pid" for q by (rule frame_table [OF inv i id])
  show "pool_contents (evict_locked crc i p) = pool_contents p"
  proof
    fix q
    have "pool_contents p q = pool_contents p1 q" using p1(2) by simp
    then show "pool_contents (evict_locked crc i p) q = pool_contents p q"
      using clean nf [of q] by (auto simp: pool_contents_def e t same nth_list_update split: option.splits)
  qed
  have g: "g_frame g \<noteq> i" if "g \<in> set gs" for g using none that by (auto simp: on_frame_def filter_empty_conv)
  have fo: "frame_ok (bp_disk p1) (map_of (AList.delete ?pid (bp_table p))) gs j (bp_frames p ! j)" if "j < length (bp_frames p)" "j \<noteq> i" for j
  proof -
    have fj: "frame_ok (bp_disk p1) (map_of (bp_table p)) gs j (bp_frames p ! j)" using pool_invD(2) [OF p1(1)] that(1) by (simp add: same)
    then have "fr_page_id (bp_frames p ! j) \<noteq> ?pid \<or> fr_page_id (bp_frames p ! j) = 0" using that(2) nf [of ?pid] id by (auto simp: frame_ok_def)
    then show ?thesis using fj by (auto simp: frame_ok_def t)
  qed
  show "pool_inv_but crc (evict_locked crc i p) gs i"
    unfolding pool_inv_but_def
  proof (intro conjI allI impI ballI)
    fix q j assume "map_of (bp_table (evict_locked crc i p)) q = Some j"
    then have q: "map_of (bp_table p) q = Some j" "q \<noteq> ?pid" by (auto simp: e t split: if_splits)
    then show "j < length (bp_frames (evict_locked crc i p))" "j \<noteq> i" "fr_page_id (bp_frames (evict_locked crc i p) ! j) = q" "q \<noteq> 0"
      using pool_invD(3) [OF inv q(1)] nf [of q] by (auto simp: e same)
  next
    fix j' assume j': "j' \<in> set gs"
    show "g_frame j' < length (bp_frames (evict_locked crc i p))" "g_frame j' \<noteq> i"
      "fr_page_id (bp_frames (evict_locked crc i p) ! g_frame j') = g_pid j'" "g_pid j' \<noteq> 0"
      using g [OF j'] pool_invD(4) [OF inv j'] by (auto simp: e same)
  next
    have "j < length (bp_frames p) \<and> fr_page_id (bp_frames p ! j) = 0 \<longleftrightarrow>
        j < length (bp_frames p) \<and> j \<noteq> i \<and> fr_page_id (bp_frames (evict_locked crc i p) ! j) = 0" for j
      using id by (cases "j = i") (simp_all add: e same)
    then show "set (bp_free (evict_locked crc i p)) =
        {j. j < length (bp_frames (evict_locked crc i p)) \<and> j \<noteq> i \<and> fr_page_id (bp_frames (evict_locked crc i p) ! j) = 0}"
      using pool_invD(6) [OF inv] by (simp add: e same)
  next
    fix j assume "j < length (bp_frames (evict_locked crc i p))" "j \<noteq> i"
    then show "frame_ok (bp_disk (evict_locked crc i p)) (map_of (bp_table (evict_locked crc i p))) gs j (bp_frames (evict_locked crc i p) ! j)"
      using fo [of j] by (simp add: e same)
  next
    show "disk_wf crc (bp_disk (evict_locked crc i p))" using pool_invD(1) [OF p1(1)] by (simp add: e)
    show "i < length (bp_frames (evict_locked crc i p))" using i by (simp add: e same)
    show "distinct (bp_free (evict_locked crc i p))" using pool_invD(5) [OF inv] by (simp add: e same)
    show "distinct (map fst (bp_table (evict_locked crc i p)))" using pool_invD(7) [OF inv] by (simp add: e distinct_delete)
  qed
qed

lemma victim_loop_ok:
  "victim_loop n fs best = Some (i, k, a) \<Longrightarrow>
    (best = Some (i, k, a)) \<or> n \<le> i \<and> i < n + length fs \<and> fr_pin (fs ! (i - n)) = 0 \<and> fr_page_id (fs ! (i - n)) \<noteq> 0"
proof (induction fs arbitrary: n best)
  case (Cons f fs)
  define best' where "best' = (if fr_pin f > 0 \<or> fr_page_id f = INVALID_PAGE_ID then best
        else case best of
          None \<Rightarrow> Some (n, kth_oldest f, fr_access f)
        | Some (_, bk, ba) \<Rightarrow>
            if fr_access f < ba \<or> fr_access f = ba \<and> kth_oldest f < bk then Some (n, kth_oldest f, fr_access f) else best)"
  have "victim_loop (Suc n) fs best' = Some (i, k, a)" using Cons.prems by (simp add: best'_def)
  from Cons.IH [OF this] show ?case
  proof
    assume b: "best' = Some (i, k, a)"
    have "best' = best \<or> best' = Some (n, kth_oldest f, fr_access f) \<and> fr_pin f = 0 \<and> fr_page_id f \<noteq> 0"
      by (auto simp: best'_def INVALID_PAGE_ID_def word_gt_0 split: option.splits)
    then show ?thesis using b by auto
  next
    assume "Suc n \<le> i \<and> i < Suc n + length fs \<and> fr_pin (fs ! (i - Suc n)) = 0 \<and> fr_page_id (fs ! (i - Suc n)) \<noteq> 0"
    then show ?thesis by (auto simp: nth_Cons' Suc_le_eq)
  qed
qed simp

lemma victim_loop_none:
  "victim_loop n fs best = None \<longleftrightarrow> best = None \<and> (\<forall>f \<in> set fs. fr_pin f > 0 \<or> fr_page_id f = 0)"
proof (induction fs arbitrary: n best)
  case (Cons f fs)
  have "(if fr_pin f > 0 \<or> fr_page_id f = INVALID_PAGE_ID then best
        else case best of
          None \<Rightarrow> Some (n, kth_oldest f, fr_access f)
        | Some (_, bk, ba) \<Rightarrow>
            if fr_access f < ba \<or> fr_access f = ba \<and> kth_oldest f < bk then Some (n, kth_oldest f, fr_access f) else best) = None \<longleftrightarrow>
      best = None \<and> (fr_pin f > 0 \<or> fr_page_id f = 0)"
    by (cases best) (auto simp: INVALID_PAGE_ID_def split: prod.splits)
  then show ?case unfolding victim_loop.simps Cons.IH by auto
qed simp

lemma pinned_guards:
  assumes "pool_inv crc p gs" and "length gs < 2 ^ 32" and "i < length (bp_frames p)" and "fr_pin (bp_frames p ! i) = 0"
  shows "on_frame i gs = []"
proof -
  have pin: "fr_pin (bp_frames p ! i) = of_nat (length (on_frame i gs))" using pool_invD(2) [OF assms(1,3)] by (simp add: frame_ok_def)
  have "length (on_frame i gs) \<le> length gs" by (simp add: on_frame_def)
  then have "unat (of_nat (length (on_frame i gs)) :: u32) = length (on_frame i gs)" using assms(2) by (simp add: unat_of_nat)
  then show ?thesis using pin assms(4) by (metis length_0_conv unat_0)
qed

lemma choose_frame_ok:
  assumes inv: "pool_inv crc p gs" and gs: "length gs < 2 ^ 32" and r: "choose_frame crc p = Inr (p', i)"
  shows "pool_inv_but crc p' gs i \<and> pool_contents p' = pool_contents p \<and> next_page_id (bp_disk p') = next_page_id (bp_disk p) \<and>
    (\<forall>q. map_of (bp_table p) q = None \<longrightarrow> map_of (bp_table p') q = None) \<and> length (bp_frames p') = length (bp_frames p)"
proof (cases "bp_free p = []")
  case False
  then have p': "p' = p\<lparr>bp_free := butlast (bp_free p)\<rparr>" and i: "i = last (bp_free p)" using r by (auto simp: choose_frame_def)
  have fr: "bp_free p = butlast (bp_free p) @ [i]" using False i by simp
  have set: "set (bp_free p) = {j. j < length (bp_frames p) \<and> fr_page_id (bp_frames p ! j) = 0}" by (rule pool_invD(6) [OF inv])
  have "i \<in> set (bp_free p)" using fr by (metis in_set_conv_decomp)
  then have i0: "i < length (bp_frames p)" "fr_page_id (bp_frames p ! i) = 0" using set by auto
  have "distinct (butlast (bp_free p) @ [i])" by (subst fr [symmetric]) (rule pool_invD(5) [OF inv])
  then have "i \<notin> set (butlast (bp_free p))" "distinct (butlast (bp_free p))" by auto
  moreover have "set (bp_free p) = insert i (set (butlast (bp_free p)))" by (subst fr) simp
  ultimately have bl: "distinct (butlast (bp_free p))" "set (butlast (bp_free p)) = {j. j < length (bp_frames p) \<and> j \<noteq> i \<and> fr_page_id (bp_frames p ! j) = 0}"
    using set by auto
  have "pool_inv_but crc p' gs i"
    unfolding pool_inv_but_def
  proof (intro conjI allI impI ballI)
    fix q j assume "map_of (bp_table p') q = Some j"
    then show "j < length (bp_frames p')" "j \<noteq> i" "fr_page_id (bp_frames p' ! j) = q" "q \<noteq> 0"
      using pool_invD(3) [OF inv, of q j] i0 by (auto simp: p')
  next
    fix g assume "g \<in> set gs"
    then show "g_frame g < length (bp_frames p')" "g_frame g \<noteq> i" "fr_page_id (bp_frames p' ! g_frame g) = g_pid g" "g_pid g \<noteq> 0"
      using pool_invD(4) [OF inv, of g] i0 by (auto simp: p')
  next
    fix j assume "j < length (bp_frames p')"
    then show "frame_ok (bp_disk p') (map_of (bp_table p')) gs j (bp_frames p' ! j)" using pool_invD(2) [OF inv, of j] by (simp add: p')
  next
    show "disk_wf crc (bp_disk p')" "distinct (map fst (bp_table p'))" using pool_invD(1,7) [OF inv] by (simp_all add: p')
    show "i < length (bp_frames p')" "distinct (bp_free p')"
      "set (bp_free p') = {j. j < length (bp_frames p') \<and> j \<noteq> i \<and> fr_page_id (bp_frames p' ! j) = 0}"
      using i0(1) bl by (simp_all add: p')
  qed
  then show ?thesis by (simp add: p' pool_contents_def fun_eq_iff split: option.split)
next
  case True
  obtain v where pv: "pick_victim p = Some v" using r True by (cases "pick_victim p") (simp_all add: choose_frame_def)
  then have v: "p' = evict_locked crc v p" "i = v" using r True by (auto simp: choose_frame_def)
  then have "map_option fst (victim_loop 0 (bp_frames p) None) = Some i" using pv by (simp add: pick_victim_def)
  then obtain k a where "victim_loop 0 (bp_frames p) None = Some (i, k, a)" by auto
  from victim_loop_ok [OF this] have i: "i < length (bp_frames p)" "fr_pin (bp_frames p ! i) = 0" "fr_page_id (bp_frames p ! i) \<noteq> 0" by auto
  note e = evict_ok [OF inv i(1,3) pinned_guards [OF inv gs i(1,2)]]
  have "\<forall>q. map_of (bp_table p) q = None \<longrightarrow> map_of (bp_table p') q = None" unfolding v(1) v(2) [symmetric] using e(4) by blast
  then show ?thesis using e(1-3,6) by (simp only: v(1) v(2) [symmetric])
qed

lemma on_frame_none: "pool_inv_but crc p gs i \<Longrightarrow> on_frame i gs = []"
  by (auto simp: pool_inv_but_def on_frame_def filter_empty_conv)

lemma load_frame_ok:
  assumes inv: "pool_inv_but crc p gs i" and pid: "pid \<noteq> 0" and t: "map_of (bp_table p) pid = None"
    and cov: "covered (bp_disk p) pid" and c: "contents (bp_disk p) pid = Some (payload (pdata pg))" and len: "length (pdata pg) = 8192"
  shows "pool_inv crc (load_frame i pid pg p) (gs @ [\<lparr>g_frame = i, g_pid = pid, g_dirtied = False\<rparr>])"
    and "pool_contents (load_frame i pid pg p) = pool_contents p"
    and "bp_disk (load_frame i pid pg p) = bp_disk p"
proof -
  let ?p = "load_frame i pid pg p" and ?g = "\<lparr>g_frame = i, g_pid = pid, g_dirtied = False\<rparr>"
  obtain f where f: "bp_frames ?p = (bp_frames p)[i := f]" "fr_page f = pg" "fr_page_id f = pid" "fr_pin f = 1" "\<not> fr_dirty f"
    by (simp add: load_frame_def Let_def tick_def set_frame_def)
  have d: "bp_disk ?p = bp_disk p" "bp_free ?p = bp_free p" "map_of (bp_table ?p) = (map_of (bp_table p))(pid \<mapsto> i)"
    by (simp_all add: load_frame_def Let_def tick_def set_frame_def update_conv')
  show "bp_disk ?p = bp_disk p" by (rule d(1))
  have i: "i < length (bp_frames p)" using inv by (simp add: pool_inv_but_def)
  have tab: "j < length (bp_frames p) \<and> j \<noteq> i \<and> fr_page_id (bp_frames p ! j) = q \<and> q \<noteq> 0" if "map_of (bp_table p) q = Some j" for q j
    using inv that by (simp add: pool_inv_but_def)
  show "pool_contents ?p = pool_contents p"
  proof
    fix q
    show "pool_contents ?p q = pool_contents p q"
      using c t i tab [of q] by (auto simp: pool_contents_def d f nth_list_update split: option.splits)
  qed
  have n: "on_frame i gs = []" by (rule on_frame_none [OF inv])
  have fi: "frame_ok (bp_disk p) ((map_of (bp_table p))(pid \<mapsto> i)) (gs @ [?g]) i f"
    using f n pid cov c len by (simp add: frame_ok_def on_frame_append)
  have fj: "frame_ok (bp_disk p) ((map_of (bp_table p))(pid \<mapsto> i)) (gs @ [?g]) j (bp_frames p ! j)" if "j < length (bp_frames p)" "j \<noteq> i" for j
  proof -
    have "frame_ok (bp_disk p) (map_of (bp_table p)) gs j (bp_frames p ! j)" using inv that by (simp add: pool_inv_but_def)
    then show ?thesis using t that(2) by (auto simp: frame_ok_def on_frame_append split: if_splits)
  qed
  show "pool_inv crc ?p (gs @ [?g])"
    unfolding pool_inv_def d f(1)
  proof (intro conjI allI impI ballI)
    fix j assume "j < length ((bp_frames p)[i := f])"
    then show "frame_ok (bp_disk p) ((map_of (bp_table p))(pid \<mapsto> i)) (gs @ [?g]) j ((bp_frames p)[i := f] ! j)"
      using fi fj [of j] i by (cases "j = i") simp_all
  next
    fix q j assume "((map_of (bp_table p))(pid \<mapsto> i)) q = Some j"
    then have "q = pid \<and> j = i \<or> q \<noteq> pid \<and> map_of (bp_table p) q = Some j" by (auto split: if_splits)
    then show "j < length ((bp_frames p)[i := f])" "fr_page_id ((bp_frames p)[i := f] ! j) = q" "q \<noteq> 0"
      using tab [of q j] i f(3) pid by auto
  next
    fix g assume "g \<in> set (gs @ [?g])"
    then have "g = ?g \<or> g_frame g < length (bp_frames p) \<and> g_frame g \<noteq> i \<and> fr_page_id (bp_frames p ! g_frame g) = g_pid g \<and> g_pid g \<noteq> 0"
      using inv by (auto simp: pool_inv_but_def)
    then show "g_frame g < length ((bp_frames p)[i := f])" "fr_page_id ((bp_frames p)[i := f] ! g_frame g) = g_pid g" "g_pid g \<noteq> 0"
      using i f(3) pid by auto
  next
    have "j < length (bp_frames p) \<and> j \<noteq> i \<and> fr_page_id (bp_frames p ! j) = 0 \<longleftrightarrow>
        j < length (bp_frames p) \<and> fr_page_id ((bp_frames p)[i := f] ! j) = 0" for j
      using f(3) pid by (cases "j = i") simp_all
    moreover have "set (bp_free p) = {j. j < length (bp_frames p) \<and> j \<noteq> i \<and> fr_page_id (bp_frames p ! j) = 0}"
      using inv by (simp add: pool_inv_but_def)
    ultimately show "set (bp_free p) = {j. j < length ((bp_frames p)[i := f]) \<and> fr_page_id ((bp_frames p)[i := f] ! j) = 0}" by simp
  next
    show "distinct (map fst (bp_table ?p))"
      using inv distinct_update [of "bp_table p" pid i] by (simp add: pool_inv_but_def load_frame_def Let_def tick_def set_frame_def)
  qed (use inv in \<open>simp_all add: pool_inv_but_def\<close>)
qed

text \<open>A frame is available as long as fewer guards are alive than there are frames.\<close>

lemma choose_frame_available:
  assumes inv: "pool_inv crc p gs" and gs: "length gs < length (bp_frames p)"
  shows "\<not> isl (choose_frame crc p)"
proof (cases "bp_free p = []")
  case True
  have "\<exists>i < length (bp_frames p). on_frame i gs = []"
  proof (rule ccontr)
    assume "\<not> ?thesis"
    then have "\<forall>i < length (bp_frames p). \<exists>g \<in> set gs. g_frame g = i" by (auto simp: on_frame_def filter_empty_conv)
    then have "{..<length (bp_frames p)} \<subseteq> g_frame ` set gs" by auto
    then have "card {..<length (bp_frames p)} \<le> card (set gs)" by (meson List.finite_set card_image_le card_mono finite_imageI le_trans)
    then show False using gs card_length [of gs] by simp
  qed
  then obtain i where i: "i < length (bp_frames p)" "on_frame i gs = []" by blast
  have "fr_page_id (bp_frames p ! i) \<noteq> 0" using pool_invD(6) [OF inv] True i(1) by auto
  moreover have "fr_pin (bp_frames p ! i) = 0" using pool_invD(2) [OF inv i(1)] i(2) by (simp add: frame_ok_def)
  ultimately have "victim_loop 0 (bp_frames p) None \<noteq> None" unfolding victim_loop_none using i(1) by (auto intro!: bexI [of _ "bp_frames p ! i"])
  then show ?thesis using True by (auto simp: choose_frame_def pick_victim_def)
qed (simp add: choose_frame_def)

lemma fetch_page_ok:
  assumes inv: "pool_inv crc p gs" and gs: "length gs < 2 ^ 32" and r: "fetch_page crc pid p = (p', res)"
  shows "pool_contents p' = pool_contents p \<and> next_page_id (bp_disk p') = next_page_id (bp_disk p) \<and> length (bp_frames p') = length (bp_frames p) \<and>
    (case res of
       Inl e \<Rightarrow> pool_inv crc p' gs \<and> e \<noteq> Panic \<and> (length gs < length (bp_frames p) \<longrightarrow> pool_contents p pid = None)
     | Inr g \<Rightarrow> pool_inv crc p' (gs @ [g]) \<and> g_pid g = pid)"
proof (cases "pid = 0")
  case True
  have "pool_contents p 0 = None"
    using pool_invD(3) [OF inv, of 0] by (cases "map_of (bp_table p) 0") (auto simp: pool_contents_def contents_def)
  then show ?thesis using True r inv by (auto simp: fetch_page_def INVALID_PAGE_ID_def)
next
  case False
  show ?thesis
  proof (cases "fetch_lookup pid p")
    case (Some a)
    obtain p1 g where a: "a = (p1, g)" by (cases a)
    have "length (bp_frames p1) = length (bp_frames p)" using Some a by (auto simp: fetch_lookup_def Let_def split: option.splits)
    then show ?thesis using fetch_lookup_ok [OF inv Some [unfolded a]] False r Some a by (auto simp: fetch_page_def INVALID_PAGE_ID_def)
  next
    case None
    let ?p1 = "p\<lparr>bp_misses := bp_misses p + 1\<rparr>"
    have tn: "map_of (bp_table p) pid = None" using None by (auto simp: fetch_lookup_def Let_def split: option.splits)
    have inv1: "pool_inv crc ?p1 gs" using inv by simp
    show ?thesis
    proof (cases "covered (bp_disk p) pid")
      case cov: False
      then have "pool_contents p pid = None" using tn by (simp add: pool_contents_def contents_def)
      then show ?thesis using cov None False r inv by (auto simp: fetch_page_def INVALID_PAGE_ID_def read_page_eq Let_def)
    next
      case cov: True
      define pg where "pg = \<lparr>page_id = pid, pdata = raw_page (bp_disk p) pid\<rparr>"
      have "sum_ok crc (raw_page (bp_disk p) pid)" using pool_invD(1) [OF inv] cov by (simp add: disk_wf_def)
      then have "fetch_page crc pid p = fetch_install crc pid pg ?p1"
        using None False cov by (simp add: fetch_page_def INVALID_PAGE_ID_def read_page_eq Let_def pg_def)
      moreover have "fetch_lookup pid ?p1 = None" using tn by (simp add: fetch_lookup_def)
      ultimately have r': "(p', res) = (case choose_frame crc ?p1 of Inl e \<Rightarrow> (?p1, Inl e)
           | Inr (s1, i) \<Rightarrow> (load_frame i pid pg s1, Inr \<lparr>g_frame = i, g_pid = pid, g_dirtied = False\<rparr>))"
        using r by (simp add: fetch_install_def)
      show ?thesis
      proof (cases "choose_frame crc ?p1")
        case (Inl e)
        have "e \<noteq> Panic" using Inl by (auto simp: choose_frame_def split: if_splits option.splits)
        moreover have "\<not> length gs < length (bp_frames p)" using choose_frame_available [OF inv1] Inl by fastforce
        ultimately show ?thesis using r' Inl inv by simp
      next
        case (Inr b)
        obtain s1 i where b: "b = (s1, i)" by (cases b)
        note c = choose_frame_ok [OF inv1 gs Inr [unfolded b]]
        have t1: "map_of (bp_table s1) pid = None" using c tn by simp
        have "pool_contents s1 pid = pool_contents p pid" using c by simp
        then have "contents (bp_disk s1) pid = contents (bp_disk p) pid" by (simp add: pool_contents_def t1 tn)
        then have cp: "contents (bp_disk s1) pid = Some (payload (pdata pg))" using cov False by (simp add: contents_def pg_def)
        then have cv: "covered (bp_disk s1) pid" by (auto simp: contents_def split: if_splits)
        have len: "length (pdata pg) = 8192" using cov by (simp add: pg_def length_raw_page)
        note l = load_frame_ok [OF conjunct1 [OF c] False t1 cv cp len]
        have "length (bp_frames (load_frame i pid pg s1)) = length (bp_frames s1)"
          by (simp add: load_frame_def Let_def tick_def set_frame_def)
        then show ?thesis using r' Inr b l c by simp
      qed
    qed
  qed
qed

lemma pool_inv_alloc:
  assumes inv: "pool_inv crc p gs" and n: "unat (next_page_id (bp_disk p)) + 1 < 2 ^ 32" and a: "allocate_page crc (bp_disk p) = (d, pid)"
  shows "pool_inv crc (p\<lparr>bp_disk := d\<rparr>) gs" and "pid = next_page_id (bp_disk p)" and "next_page_id d = pid + 1"
    and "pool_contents (p\<lparr>bp_disk := d\<rparr>) = (pool_contents p)(pid \<mapsto> payload (pdata (new_page pid)))"
proof -
  note al = allocate_page_ok [OF pool_invD(1) [OF inv] n a]
  show "pid = next_page_id (bp_disk p)" "next_page_id d = pid + 1" by (rule al)+
  have cov: "q \<noteq> pid \<and> covered d q \<and> contents d q = contents (bp_disk p) q" if "covered (bp_disk p) q" "q \<noteq> 0" for q
  proof -
    have "contents (bp_disk p) q \<noteq> None" using that by (simp add: contents_def)
    then have "q \<noteq> pid" using al(6) by auto
    moreover from this have e: "contents d q = contents (bp_disk p) q" using al(5) by simp
    ultimately show ?thesis using \<open>contents (bp_disk p) q \<noteq> None\<close> by (auto simp: contents_def split: if_splits)
  qed
  have fr: "frame_ok d (map_of (bp_table p)) gs i (bp_frames p ! i)" if "i < length (bp_frames p)" for i
    using pool_invD(2) [OF inv that] cov [of "fr_page_id (bp_frames p ! i)"] by (simp add: frame_ok_def split: if_splits)
  show "pool_inv crc (p\<lparr>bp_disk := d\<rparr>) gs"
    using inv fr al(1) by (simp add: pool_inv_def)
  have "map_of (bp_table p) pid = None"
  proof (rule ccontr)
    assume "map_of (bp_table p) pid \<noteq> None"
    then obtain i where "map_of (bp_table p) pid = Some i" by auto
    from pool_invD(3) [OF inv this] pool_invD(2) [OF inv, of i] cov [of pid] show False by (auto simp: frame_ok_def)
  qed
  then show "pool_contents (p\<lparr>bp_disk := d\<rparr>) = (pool_contents p)(pid \<mapsto> payload (pdata (new_page pid)))"
    by (auto simp: pool_contents_def fun_eq_iff al(5) split: option.split)
qed

text \<open>Marking a guard only weakens what is known of its frame.\<close>

lemma on_frame_update:
  "k < length gs \<Longrightarrow> g_frame g = g_frame (gs ! k) \<Longrightarrow> j \<noteq> g_frame g \<Longrightarrow> on_frame j (gs[k := g]) = on_frame j gs"
proof (induction gs arbitrary: k)
  case (Cons a gs)
  then show ?case by (cases k) (auto simp: on_frame_def)
qed simp

lemma length_on_frame_update:
  "k < length gs \<Longrightarrow> g_frame g = g_frame (gs ! k) \<Longrightarrow> length (on_frame j (gs[k := g])) = length (on_frame j gs)"
proof (induction gs arbitrary: k)
  case (Cons a gs)
  then show ?case by (cases k) (auto simp: on_frame_def)
qed simp

lemma on_frame_remove:
  "k < length gs \<Longrightarrow> j \<noteq> g_frame (gs ! k) \<Longrightarrow> on_frame j (remove_nth k gs) = on_frame j gs"
proof (induction gs arbitrary: k)
  case (Cons a gs)
  then show ?case by (cases k) (auto simp: on_frame_def)
qed simp

lemma length_on_frame_remove:
  "k < length gs \<Longrightarrow> Suc (length (on_frame (g_frame (gs ! k)) (remove_nth k gs))) = length (on_frame (g_frame (gs ! k)) gs)"
proof (induction gs arbitrary: k)
  case (Cons a gs)
  then show ?case by (cases k) (auto simp: on_frame_def)
qed simp

lemma set_remove_nth: "set (remove_nth k gs) \<subseteq> set gs"
proof (induction gs arbitrary: k)
  case (Cons a gs)
  then show ?case by (cases k) auto
qed simp

lemma remove_nth_split: "k < length gs \<Longrightarrow> set gs = insert (gs ! k) (set (remove_nth k gs))"
proof (induction gs arbitrary: k)
  case (Cons a gs)
  then show ?case by (cases k) auto
qed simp

lemma map_remove_nth: "map f (remove_nth k gs) = remove_nth k (map f gs)"
proof (induction gs arbitrary: k)
  case (Cons a gs)
  then show ?case by (cases k) auto
qed simp

lemma remove_nth_out: "length gs \<le> k \<Longrightarrow> remove_nth k gs = gs"
proof (induction gs arbitrary: k)
  case (Cons a gs)
  then show ?case by (cases k) auto
qed simp

lemma guard_write_inv:
  assumes inv: "pool_inv crc p gs" and k: "k < length gs" and b: "length b = 8192" and r: "guard_write b (gs ! k) p = (p', g)"
  shows "pool_inv crc p' (gs[k := g])" and "pool_contents p' = (pool_contents p)(g_pid (gs ! k) \<mapsto> payload b)"
    and "bp_disk p' = bp_disk p" and "g_pid g = g_pid (gs ! k)"
proof -
  let ?i = "g_frame (gs ! k)"
  let ?f = "(bp_frames p ! ?i)\<lparr>fr_page := (fr_page (bp_frames p ! ?i))\<lparr>pdata := b\<rparr>\<rparr>"
  have p': "p' = set_frame ?i ?f p" and g: "g = (gs ! k)\<lparr>g_dirtied := True\<rparr>"
    using r by (auto simp: guard_write_def mark_dirty_def Let_def)
  show "bp_disk p' = bp_disk p" "g_pid g = g_pid (gs ! k)" by (simp_all add: p' g)
  have gk: "?i < length (bp_frames p)" "fr_page_id (bp_frames p ! ?i) = g_pid (gs ! k)" "g_pid (gs ! k) \<noteq> 0"
    using pool_invD(4) [OF inv, of "gs ! k"] k by auto
  have gin: "g \<in> set (on_frame ?i (gs[k := g]))" using k by (auto simp: on_frame_def g set_update_memI)
  have "frame_ok (bp_disk p) (map_of (bp_table p)) gs ?i (bp_frames p ! ?i)" by (rule pool_invD(2) [OF inv gk(1)])
  then have "frame_ok (bp_disk p) (map_of (bp_table p)) (gs[k := g]) ?i ?f"
    using gk gin b k length_on_frame_update [of k gs g ?i] by (auto simp: frame_ok_def g)
  then show "pool_inv crc p' (gs[k := g])"
    unfolding p'
  proof (intro set_frame_inv [OF inv gk(1)])
    show "on_frame j (gs[k := g]) = on_frame j gs" if "j \<noteq> ?i" for j using k that by (intro on_frame_update) (simp_all add: g)
    show "h \<in> set gs \<or> g_frame h = ?i \<and> g_pid h = fr_page_id ?f \<and> fr_page_id ?f \<noteq> 0" if "h \<in> set (gs[k := g])" for h
      using set_update_subset_insert [of gs k g] that gk by (auto simp: g)
  qed simp_all
  show "pool_contents p' = (pool_contents p)(g_pid (gs ! k) \<mapsto> payload b)"
    unfolding p' by (rule ext) (use set_frame_contents [OF inv gk(1)] frame_table [OF inv gk(1)] gk in simp)
qed

lemma unpin_inv:
  assumes inv: "pool_inv crc p gs" and k: "k < length gs" and gs: "length gs < 2 ^ 32"
  shows "pool_inv crc (unpin (gs ! k) p) (remove_nth k gs)" and "pool_contents (unpin (gs ! k) p) = pool_contents p"
    and "bp_disk (unpin (gs ! k) p) = bp_disk p"
proof -
  let ?g = "gs ! k"
  let ?i = "g_frame ?g"
  let ?f = "(bp_frames p ! ?i)\<lparr>fr_pin := fr_pin (bp_frames p ! ?i) - 1, fr_dirty := fr_dirty (bp_frames p ! ?i) \<or> g_dirtied ?g\<rparr>"
  have gk: "?i < length (bp_frames p)" "fr_page_id (bp_frames p ! ?i) = g_pid ?g" "g_pid ?g \<noteq> 0"
    using pool_invD(4) [OF inv, of "gs ! k"] k by auto
  have "?g \<in> set (on_frame ?i gs)" using k by (simp add: on_frame_def)
  then have "fr_pin (bp_frames p ! ?i) \<noteq> 0" using pinned_guards [OF inv gs gk(1)] by auto
  then have p': "unpin ?g p = set_frame ?i ?f p" using gk(2) by (simp add: unpin_def Let_def word_gt_0)
  show "bp_disk (unpin (gs ! k) p) = bp_disk p" unfolding p' by simp
  have all: "(\<forall>g \<in> set (on_frame ?i gs). \<not> g_dirtied g) \<longleftrightarrow> \<not> g_dirtied ?g \<and> (\<forall>g \<in> set (on_frame ?i (remove_nth k gs)). \<not> g_dirtied g)"
    using remove_nth_split [OF k] by (auto simp: on_frame_def)
  have f: "frame_ok (bp_disk p) (map_of (bp_table p)) gs ?i (bp_frames p ! ?i)" by (rule pool_invD(2) [OF inv gk(1)])
  have "length (on_frame ?i gs) = Suc (length (on_frame ?i (remove_nth k gs)))" using length_on_frame_remove [OF k] by simp
  then have "frame_ok (bp_disk p) (map_of (bp_table p)) (remove_nth k gs) ?i ?f"
    using f gk all by (auto simp: frame_ok_def)
  then show "pool_inv crc (unpin ?g p) (remove_nth k gs)"
    unfolding p'
  proof (intro set_frame_inv [OF inv gk(1)])
    show "on_frame j (remove_nth k gs) = on_frame j gs" if "j \<noteq> ?i" for j using k that by (rule on_frame_remove)
    show "h \<in> set gs \<or> g_frame h = ?i \<and> g_pid h = fr_page_id ?f \<and> fr_page_id ?f \<noteq> 0" if "h \<in> set (remove_nth k gs)" for h
      using set_remove_nth [of k gs] that by auto
  qed simp_all
  show "pool_contents (unpin ?g p) = pool_contents p"
    unfolding p' by (rule ext) (use set_frame_contents [OF inv gk(1)] in \<open>simp add: pool_contents_def\<close>)
qed

text \<open>Writing a frame back and clearing its flag.\<close>

definition clean_frame :: "(bytes \<Rightarrow> u32) \<Rightarrow> nat \<Rightarrow> buffer_pool \<Rightarrow> buffer_pool" where
  "clean_frame crc i p =
     (let f = bp_frames p ! i
      in set_frame i (f\<lparr>fr_dirty := False\<rparr>) (p\<lparr>bp_disk := write_page crc (fr_page_id f) (fr_page f) (bp_disk p)\<rparr>))"

lemma clean_frame_ok:
  assumes inv: "pool_inv crc p gs" and i: "i < length (bp_frames p)" and id: "fr_page_id (bp_frames p ! i) \<noteq> 0"
  shows "pool_inv crc (clean_frame crc i p) gs" and "pool_contents (clean_frame crc i p) = pool_contents p"
    and "next_page_id (bp_disk (clean_frame crc i p)) = next_page_id (bp_disk p)"
proof -
  let ?f = "bp_frames p ! i"
  define p1 where "p1 = p\<lparr>bp_disk := write_page crc (fr_page_id ?f) (fr_page ?f) (bp_disk p)\<rparr>"
  note w = write_back [OF inv i id p1_def]
  have p1: "bp_frames p1 = bp_frames p" "bp_table p1 = bp_table p" by (simp_all add: p1_def)
  have e: "clean_frame crc i p = set_frame i (?f\<lparr>fr_dirty := False\<rparr>) p1" by (simp add: clean_frame_def Let_def p1_def)
  have i1: "i < length (bp_frames p1)" using i p1 by simp
  have "frame_ok (bp_disk p1) (map_of (bp_table p1)) gs i ?f" using pool_invD(2) [OF w(1) i1] p1 by simp
  then have "frame_ok (bp_disk p1) (map_of (bp_table p1)) gs i (?f\<lparr>fr_dirty := False\<rparr>)"
    using id w(4) by (simp add: frame_ok_def)
  then show "pool_inv crc (clean_frame crc i p) gs"
    unfolding e by (intro set_frame_inv [OF w(1) i1]) (simp_all add: p1)
  show "pool_contents (clean_frame crc i p) = pool_contents p"
    unfolding e by (rule ext) (use set_frame_contents [OF w(1) i1] w(2) p1 in \<open>auto simp: pool_contents_def\<close>)
  show "next_page_id (bp_disk (clean_frame crc i p)) = next_page_id (bp_disk p)" using w(3) by (simp add: e)
qed

lemma flush_page_ok:
  assumes inv: "pool_inv crc p gs"
  shows "pool_inv crc (flush_page crc pid p) gs" and "pool_contents (flush_page crc pid p) = pool_contents p"
    and "next_page_id (bp_disk (flush_page crc pid p)) = next_page_id (bp_disk p)"
proof -
  have "flush_page crc pid p = p \<or> (\<exists>i < length (bp_frames p). fr_page_id (bp_frames p ! i) \<noteq> 0 \<and> flush_page crc pid p = clean_frame crc i p)"
  proof (cases "map_of (bp_table p) pid")
    case (Some i)
    then show ?thesis using pool_invD(3) [OF inv Some] by (auto simp: flush_page_def clean_frame_def Let_def)
  qed (simp add: flush_page_def)
  then show "pool_inv crc (flush_page crc pid p) gs" "pool_contents (flush_page crc pid p) = pool_contents p"
    "next_page_id (bp_disk (flush_page crc pid p)) = next_page_id (bp_disk p)"
    using inv clean_frame_ok [OF inv] by auto
qed

text \<open>Flushing everything cleans the dirty frames one after the other.\<close>

definition dirty_at :: "buffer_pool \<Rightarrow> nat \<Rightarrow> bool" where
  "dirty_at p i \<longleftrightarrow> fr_dirty (bp_frames p ! i) \<and> fr_page_id (bp_frames p ! i) \<noteq> 0"

fun clean_upto :: "(bytes \<Rightarrow> u32) \<Rightarrow> nat \<Rightarrow> buffer_pool \<Rightarrow> buffer_pool" where
  "clean_upto crc 0 p = p"
| "clean_upto crc (Suc n) p =
     (let q = clean_upto crc n p in if dirty_at q n then clean_frame crc n q else q)"

lemma clean_upto_ok:
  assumes inv: "pool_inv crc p gs"
  shows "n \<le> length (bp_frames p) \<Longrightarrow> pool_inv crc (clean_upto crc n p) gs \<and> pool_contents (clean_upto crc n p) = pool_contents p \<and>
    next_page_id (bp_disk (clean_upto crc n p)) = next_page_id (bp_disk p) \<and> length (bp_frames (clean_upto crc n p)) = length (bp_frames p)"
proof (induction n)
  case (Suc n)
  then have IH: "pool_inv crc (clean_upto crc n p) gs" "length (bp_frames (clean_upto crc n p)) = length (bp_frames p)" by simp_all
  then show ?case
    using Suc clean_frame_ok [OF IH(1), of n] by (simp add: Let_def dirty_at_def) (simp add: clean_frame_def Let_def)
qed (simp add: inv)

definition cleaned :: "frame \<Rightarrow> frame" where
  "cleaned f = (if fr_page_id f \<noteq> 0 then f\<lparr>fr_dirty := False\<rparr> else f)"

lemma clean_upto_eq:
  "n \<le> length (bp_frames p) \<Longrightarrow> clean_upto crc n p =
     p\<lparr>bp_frames := map cleaned (take n (bp_frames p)) @ drop n (bp_frames p),
       bp_disk := fold (\<lambda>(pid, pg). write_page crc pid pg)
         (map (\<lambda>f. (fr_page_id f, fr_page f)) (filter (\<lambda>f. fr_dirty f \<and> fr_page_id f \<noteq> 0) (take n (bp_frames p)))) (bp_disk p)\<rparr>"
proof (induction n)
  case (Suc n)
  then have n: "n < length (bp_frames p)" by simp
  let ?fs = "bp_frames p" and ?f = "bp_frames p ! n"
  have t: "take (Suc n) ?fs = take n ?fs @ [?f]" using n by (rule take_Suc_conv_app_nth)
  have d: "drop n ?fs = ?f # drop (Suc n) ?fs" using n by (simp add: Cons_nth_drop_Suc)
  have nth: "(map cleaned (take n ?fs) @ drop n ?fs) ! n = ?f" using n by (simp add: nth_append)
  have upd: "(map cleaned (take n ?fs) @ drop n ?fs)[n := g] = map cleaned (take n ?fs) @ g # drop (Suc n) ?fs" for g
    using n by (simp add: list_update_append d)
  have same: "\<not> dirty_at p n \<Longrightarrow> cleaned ?f = ?f" by (cases "bp_frames p ! n") (auto simp: cleaned_def dirty_at_def)
  show ?case
  proof (cases "dirty_at p n")
    case True
    then have "cleaned ?f = ?f\<lparr>fr_dirty := False\<rparr>" by (simp add: cleaned_def dirty_at_def)
    then show ?thesis using True Suc n nth upd t by (simp add: Let_def dirty_at_def clean_frame_def set_frame_def)
  next
    case False
    then have e: "clean_upto crc (Suc n) p = clean_upto crc n p" using Suc n nth by (auto simp: Let_def dirty_at_def)
    have "map cleaned (take (Suc n) ?fs) @ drop (Suc n) ?fs = map cleaned (take n ?fs) @ drop n ?fs" using t d same [OF False] by simp
    moreover have "filter (\<lambda>f. fr_dirty f \<and> fr_page_id f \<noteq> 0) (take (Suc n) ?fs) = filter (\<lambda>f. fr_dirty f \<and> fr_page_id f \<noteq> 0) (take n ?fs)"
      using t False by (simp add: dirty_at_def)
    ultimately show ?thesis using e Suc n by simp
  qed
qed simp

lemma flush_all_eq: "flush_all crc p = clean_upto crc (length (bp_frames p)) p"
  by (simp add: clean_upto_eq flush_all_def flush_clear_def flush_dirties_def flush_collect_def INVALID_PAGE_ID_def cleaned_def [abs_def])

lemma flush_all_ok:
  assumes "pool_inv crc p gs"
  shows "pool_inv crc (flush_all crc p) gs" and "pool_contents (flush_all crc p) = pool_contents p"
    and "next_page_id (bp_disk (flush_all crc p)) = next_page_id (bp_disk p)"
  using clean_upto_ok [OF assms] by (simp_all add: flush_all_eq)

section \<open>Runs\<close>

definition sys_inv :: "(bytes \<Rightarrow> u32) \<Rightarrow> nat \<Rightarrow> pool_sys \<Rightarrow> bool" where
  "sys_inv crc n s \<longleftrightarrow> pool_inv crc (ps_pool s) (ps_guards s) \<and> length (ps_guards s) + n < 2 ^ 32 \<and>
     unat (next_page_id (bp_disk (ps_pool s))) + n < 2 ^ 32"

lemma dirtied_inv:
  assumes "pool_inv crc p (gs @ [g])"
  shows "pool_inv crc p (gs @ [g\<lparr>g_dirtied := True\<rparr>])"
proof -
  have f: "frame_ok d t (gs @ [g\<lparr>g_dirtied := True\<rparr>]) i f" if "frame_ok d t (gs @ [g]) i f" for d t i f
    using that by (auto simp: frame_ok_def on_frame_append)
  show ?thesis using assms f by (simp add: pool_inv_def)
qed

lemma unat_succ: "unat n + 1 < 2 ^ 32 \<Longrightarrow> unat (n + 1 :: u32) = unat n + 1"
  by (simp add: unat_word_ariths)

lemma pool_do_fetch:
  assumes "sys_inv crc (Suc n) s" and "with_guard s (fetch_page crc pid (ps_pool s)) = (s', r)"
  shows "sys_inv crc n s' \<and> view s' = pool_spec (PFetch pid) (\<not> isl r) (view s)"
proof -
  obtain p' res where f: "fetch_page crc pid (ps_pool s) = (p', res)" by fastforce
  have "pool_inv crc (ps_pool s) (ps_guards s)" "length (ps_guards s) < 2 ^ 32" using assms(1) by (auto simp: sys_inv_def)
  note ok = fetch_page_ok [OF this f]
  show ?thesis
    using ok assms by (cases res) (auto simp: sys_inv_def view_def with_guard_def f)
qed

lemma pool_do_new:
  assumes inv: "sys_inv crc (Suc n) s" and r: "with_guard s (bp_new_page crc (ps_pool s)) = (s', r)"
  shows "sys_inv crc n s' \<and> view s' = pool_spec PNew (\<not> isl r) (view s)"
proof -
  obtain d pid where a: "allocate_page crc (bp_disk (ps_pool s)) = (d, pid)" by fastforce
  define p1 where "p1 = (ps_pool s)\<lparr>bp_disk := d\<rparr>"
  obtain p' res where f: "fetch_page crc pid p1 = (p', res)" by fastforce
  have i: "pool_inv crc (ps_pool s) (ps_guards s)" "unat (next_page_id (bp_disk (ps_pool s))) + 1 < 2 ^ 32" "length (ps_guards s) < 2 ^ 32"
    using inv by (auto simp: sys_inv_def)
  note al = pool_inv_alloc [OF i(1,2) a, folded p1_def]
  note ok = fetch_page_ok [OF al(1) i(3) f]
  have d1: "next_page_id (bp_disk p1) = next_page_id (bp_disk (ps_pool s)) + 1" using al by (simp add: p1_def)
  have n: "unat (next_page_id (bp_disk p1)) = unat (next_page_id (bp_disk (ps_pool s))) + 1"
    unfolding d1 by (rule unat_succ [OF i(2)])
  show ?thesis
  proof (cases res)
    case (Inl e)
    then have "s' = s\<lparr>ps_pool := p'\<rparr>" "isl r" using r a f by (auto simp: with_guard_def bp_new_page_def p1_def)
    then show ?thesis using ok inv al n d1 Inl by (simp add: sys_inv_def view_def)
  next
    case (Inr g)
    then have "s' = \<lparr>ps_pool = p', ps_guards = ps_guards s @ [g\<lparr>g_dirtied := True\<rparr>]\<rparr>" "\<not> isl r"
      using r a f by (auto simp: with_guard_def bp_new_page_def p1_def)
    then show ?thesis using ok inv al n d1 Inr dirtied_inv [of crc p' "ps_guards s" g] by (simp add: sys_inv_def view_def)
  qed
qed

lemma length_remove_nth: "length (remove_nth k xs) \<le> length xs"
proof (induction xs arbitrary: k)
  case (Cons a xs)
  then show ?case by (cases k) (simp_all add: le_SucI)
qed simp

lemma pool_do_ok:
  assumes inv: "sys_inv crc (Suc n) s" and r: "pool_do crc x s = (s', r)"
  shows "sys_inv crc n s' \<and> view s' = pool_spec x (\<not> isl r) (view s)"
proof -
  let ?p = "ps_pool s" and ?gs = "ps_guards s"
  have p: "pool_inv crc ?p ?gs" and l: "length ?gs < 2 ^ 32" using inv by (auto simp: sys_inv_def)
  have weak: "sys_inv crc n s" using inv by (simp add: sys_inv_def)
  show ?thesis
  proof (cases x)
    case (PFetch pid)
    then show ?thesis using pool_do_fetch inv r by simp
  next
    case PNew
    then show ?thesis using pool_do_new inv r by simp
  next
    case (PWrite k b)
    show ?thesis
    proof (cases "k < length ?gs \<and> length b = 8192")
      case True
      obtain p' g where w: "guard_write b (?gs ! k) ?p = (p', g)" by fastforce
      note wr = guard_write_inv [OF p conjunct1 [OF True] conjunct2 [OF True] w]
      have "s' = \<lparr>ps_pool = p', ps_guards = ?gs[k := g]\<rparr>" using r PWrite True w by (auto simp: PAGE_SIZE_def)
      moreover have "map g_pid (?gs[k := g]) = map g_pid ?gs" using wr(4) True by (metis list_update_id map_update nth_map)
      ultimately show ?thesis using wr weak PWrite True by (simp add: sys_inv_def view_def)
    next
      case False
      then have "s' = s" using r PWrite by (simp add: PAGE_SIZE_def split: if_splits)
      then show ?thesis using weak PWrite False by (auto simp: view_def)
    qed
  next
    case (PDrop k)
    show ?thesis
    proof (cases "k < length ?gs")
      case True
      note u = unpin_inv [OF p True l]
      have "s' = \<lparr>ps_pool = unpin (?gs ! k) ?p, ps_guards = remove_nth k ?gs\<rparr>" using r PDrop True by auto
      then show ?thesis using u weak PDrop length_remove_nth [of k ?gs] by (simp add: sys_inv_def view_def map_remove_nth)
    next
      case False
      then show ?thesis using r weak PDrop by (auto simp: view_def remove_nth_out)
    qed
  next
    case (PFlushPage pid)
    then have "s' = s\<lparr>ps_pool := flush_page crc pid ?p\<rparr>" using r by auto
    then show ?thesis using flush_page_ok [OF p] weak PFlushPage by (simp add: sys_inv_def view_def)
  next
    case PFlushAll
    then have "s' = s\<lparr>ps_pool := flush_all crc ?p\<rparr>" using r by auto
    then show ?thesis using flush_all_ok [OF p] weak PFlushAll by (simp add: sys_inv_def view_def)
  qed
qed

text \<open>
  A component with a counter or an id that may run out refines its specification for as many steps as the invariant has room for.
\<close>

locale bounded_refinement =
  fixes step :: "'op \<Rightarrow> 's \<Rightarrow> 's \<times> unit result"
    and run :: "'op list \<Rightarrow> 's \<Rightarrow> 's \<times> bool list"
    and spec :: "'op \<Rightarrow> bool \<Rightarrow> 'v \<Rightarrow> 'v"
    and srun :: "('op \<times> bool) list \<Rightarrow> 'v \<Rightarrow> 'v"
    and abstr :: "'s \<Rightarrow> 'v"
    and room :: "nat \<Rightarrow> 's \<Rightarrow> bool"
  assumes run_nil: "run [] s = (s, [])"
    and run_cons: "run (x # xs) s = (case step x s of (s1, r) \<Rightarrow> case run xs s1 of (s2, oks) \<Rightarrow> (s2, (\<not> isl r) # oks))"
    and srun_nil: "srun [] v = v"
    and srun_cons: "srun ((x, ok) # ys) v = srun ys (spec x ok v)"
    and step_ok: "room (Suc n) s \<Longrightarrow> step x s = (s', r) \<Longrightarrow> room n s' \<and> abstr s' = spec x (\<not> isl r) (abstr s)"
begin

lemma run_refines:
  "room (length xs) s \<Longrightarrow> run xs s = (s', oks) \<Longrightarrow> room 0 s' \<and> abstr s' = srun (zip xs oks) (abstr s)"
proof (induction xs arbitrary: s oks)
  case Nil
  then show ?case by (simp add: run_nil srun_nil)
next
  case (Cons x xs)
  obtain s1 r where s1: "step x s = (s1, r)" by fastforce
  obtain s2 o2 where s2: "run xs s1 = (s2, o2)" by fastforce
  have e: "s' = s2" "oks = (\<not> isl r) # o2" using Cons.prems(2) s1 s2 by (simp_all add: run_cons)
  show ?case using step_ok [of "length xs" s x s1 r] Cons.IH [of s1 o2] Cons.prems(1) s1 s2 by (simp add: e srun_cons)
qed

end

interpretation pool: bounded_refinement "pool_do crc" "pool_run crc" pool_spec spec_run view "sys_inv crc" for crc
  by unfold_locales (use pool_do_ok in auto)

lemma pool_inv_new:
  assumes "disk_wf crc d"
  shows "pool_inv crc (buffer_pool_new d n) []" and "pool_contents (buffer_pool_new d n) = contents d"
    and "bp_disk (buffer_pool_new d n) = d"
proof -
  let ?n = "max n 2"
  have inj: "inj_on (\<lambda>i. ?n - 1 - i) {0..<?n}" by (auto simp: inj_on_def)
  have s: "(\<lambda>i. ?n - 1 - i) ` {0..<?n} = {i. i < ?n}"
  proof (intro equalityI subsetI)
    fix j assume "j \<in> {i. i < ?n}"
    then have "j = ?n - 1 - (?n - 1 - j)" "?n - 1 - j \<in> {0..<?n}" by auto
    then show "j \<in> (\<lambda>i. ?n - 1 - i) ` {0..<?n}" by (rule image_eqI)
  qed auto
  show "pool_inv crc (buffer_pool_new d n) []"
    using assms inj s
    by (simp add: pool_inv_def buffer_pool_new_def Let_def frame_ok_def frame_empty_def on_frame_def INVALID_PAGE_ID_def distinct_map cong: conj_cong)
  show "pool_contents (buffer_pool_new d n) = contents d" "bp_disk (buffer_pool_new d n) = d"
    by (simp_all add: pool_contents_def buffer_pool_new_def Let_def fun_eq_iff)
qed

lemma guard_reads:
  assumes "pool_inv crc p gs" and "g \<in> set gs"
  shows "pool_contents p (g_pid g) = Some (payload (pdata (guard_page g p)))"
proof -
  have g: "g_frame g < length (bp_frames p)" "fr_page_id (bp_frames p ! g_frame g) = g_pid g" "g_pid g \<noteq> 0"
    using pool_invD(4) [OF assms] by auto
  then have "map_of (bp_table p) (g_pid g) = Some (g_frame g)" using frame_table [OF assms(1) g(1)] by auto
  then show ?thesis by (simp add: pool_contents_def guard_page_def)
qed

section \<open>Persistence\<close>

lemma flush_all_frames: "bp_frames (flush_all crc p) = map cleaned (bp_frames p)" "bp_table (flush_all crc p) = bp_table p"
  by (simp_all add: flush_all_eq clean_upto_eq)

lemma flush_all_contents:
  assumes inv: "pool_inv crc p gs" and g: "\<forall>g \<in> set gs. \<not> g_dirtied g"
  shows "contents (bp_disk (flush_all crc p)) = pool_contents p"
proof
  fix pid
  let ?q = "flush_all crc p"
  note ok = flush_all_ok [OF inv]
  show "contents (bp_disk ?q) pid = pool_contents p pid"
  proof (cases "map_of (bp_table p) pid")
    case None
    then show ?thesis using ok(2) by (metis flush_all_frames(2) option.simps(4) pool_contents_def)
  next
    case (Some i)
    then have t: "map_of (bp_table ?q) pid = Some i" by (simp add: flush_all_frames)
    have i: "i < length (bp_frames ?q)" "fr_page_id (bp_frames ?q ! i) = pid" "pid \<noteq> 0" using pool_invD(3) [OF ok(1) t] by auto
    have "\<not> fr_dirty (bp_frames ?q ! i)" using i by (auto simp: flush_all_frames cleaned_def split: if_splits)
    then have "contents (bp_disk ?q) pid = Some (payload (pdata (fr_page (bp_frames ?q ! i))))"
      using pool_invD(2) [OF ok(1) i(1)] i g by (auto simp: frame_ok_def on_frame_def)
    then show ?thesis using t ok(2) by (metis option.simps(5) pool_contents_def)
  qed
qed

lemma reopen_disk:
  assumes "disk_wf crc d" and "unat (next_page_id d) * 8192 < 2 ^ 32"
  shows "disk_manager_new (dfile d) = d"
proof (cases "dfile d = []")
  case True
  have "next_page_id d = 1" using assms(1) True by (auto simp: disk_wf_def unat_eq_0)
  then show ?thesis using True by (cases d) (simp add: disk_manager_new_def)
next
  case False
  then have len: "length (dfile d) = unat (next_page_id d) * 8192" using assms(1) by (simp add: disk_wf_def)
  have small: "length (dfile d) < 2 ^ 32" using len assms(2) by simp
  have a: "unat (of_nat (length (dfile d)) :: u64) = length (dfile d)" using small by (simp add: unat_of_nat)
  then have nz: "(of_nat (length (dfile d)) :: u64) \<noteq> 0" using False by (metis length_0_conv unat_0)
  have "unat (ucast (of_nat (length (dfile d)) :: u64) :: u32) = length (dfile d)"
    using small a by (simp add: unsigned_ucast_eq take_bit_nat_eq_self)
  then have "unat ((ucast (of_nat (length (dfile d)) :: u64) :: u32) div 8192) = unat (next_page_id d)"
    by (simp add: unat_div len)
  then have "(ucast (of_nat (length (dfile d)) :: u64) :: u32) div 8192 = next_page_id d" by (simp add: word_unat_eq_iff)
  then show ?thesis using nz by (cases d) (simp add: disk_manager_new_def Let_def PAGE_SIZE_def)
qed

text \<open>The table has an entry per occupied frame.\<close>

lemma table_bound:
  assumes inv: "pool_inv crc p gs"
  shows "length (bp_table p) + length (bp_free p) = length (bp_frames p)"
proof -
  let ?n = "length (bp_frames p)" and ?id = "\<lambda>i. fr_page_id (bp_frames p ! i)"
  have inj: "inj_on ?id {i. i < ?n \<and> ?id i \<noteq> 0}"
    unfolding inj_on_def using frame_table [OF inv] by (metis (mono_tags, lifting) mem_Collect_eq option.inject)
  have img: "?id ` {i. i < ?n \<and> ?id i \<noteq> 0} = fst ` set (bp_table p)"
  proof (intro equalityI subsetI)
    fix q assume "q \<in> ?id ` {i. i < ?n \<and> ?id i \<noteq> 0}"
    then show "q \<in> fst ` set (bp_table p)" using frame_table [OF inv] by (auto simp: map_of_eq_None_iff [symmetric] dom_map_of_conv_image_fst [symmetric])
  next
    fix q assume "q \<in> fst ` set (bp_table p)"
    then obtain i where "map_of (bp_table p) q = Some i" by (metis map_of_eq_None_iff option.exhaust)
    from pool_invD(3) [OF inv this] show "q \<in> ?id ` {i. i < ?n \<and> ?id i \<noteq> 0}" by force
  qed
  have "length (bp_table p) = card (fst ` set (bp_table p))"
    using pool_invD(7) [OF inv] distinct_card [of "map fst (bp_table p)"] by simp
  then have a: "length (bp_table p) = card {i. i < ?n \<and> ?id i \<noteq> 0}" using card_image [OF inj] img by simp
  have b: "length (bp_free p) = card {i. i < ?n \<and> ?id i = 0}"
    using pool_invD(5,6) [OF inv] distinct_card by metis
  have u: "{i. i < ?n \<and> ?id i \<noteq> 0} \<union> {i. i < ?n \<and> ?id i = 0} = {i. i < ?n}" by auto
  have "card {i. i < ?n} = card {i. i < ?n \<and> ?id i \<noteq> 0} + card {i. i < ?n \<and> ?id i = 0}"
    unfolding u [symmetric] by (rule card_Un_disjoint) auto
  then show ?thesis using a b by simp
qed

lemma pool_run_frames:
  assumes "sys_inv crc (length ops) s" and "pool_run crc ops s = (s', oks)"
  shows "length (bp_frames (ps_pool s')) = length (bp_frames (ps_pool s))"
  using assms
proof (induction ops arbitrary: s oks)
  case (Cons x ops)
  obtain s1 r where s1: "pool_do crc x s = (s1, r)" by fastforce
  obtain s2 o2 where s2: "pool_run crc ops s1 = (s2, o2)" by fastforce
  have inv: "pool_inv crc (ps_pool s) (ps_guards s)" "length (ps_guards s) < 2 ^ 32" using Cons.prems(1) by (auto simp: sys_inv_def)
  have fetch: "length (bp_frames (fst (fetch_page crc pid p))) = length (bp_frames p)" if "pool_inv crc p (ps_guards s)" for pid p
    using fetch_page_ok [OF that inv(2), of pid] by (cases "fetch_page crc pid p") auto
  have new: "length (bp_frames (fst (bp_new_page crc (ps_pool s)))) = length (bp_frames (ps_pool s))"
  proof -
    obtain d pid where a: "allocate_page crc (bp_disk (ps_pool s)) = (d, pid)" by fastforce
    have "unat (next_page_id (bp_disk (ps_pool s))) + 1 < 2 ^ 32" using Cons.prems(1) by (auto simp: sys_inv_def)
    from fetch [OF pool_inv_alloc(1) [OF inv(1) this a], of pid] show ?thesis
      by (auto simp: bp_new_page_def a split: prod.splits sum.splits)
  qed
  have "length (bp_frames (ps_pool s1)) = length (bp_frames (ps_pool s))"
  proof (cases x)
    case (PFetch pid)
    then show ?thesis using s1 fetch [OF inv(1), of pid] by (auto simp: with_guard_def split: prod.splits sum.splits)
  next
    case PNew
    then show ?thesis using s1 new by (auto simp: with_guard_def split: prod.splits sum.splits)
  next
    case PFlushAll
    then show ?thesis using s1 by (auto simp: flush_all_frames)
  qed (use s1 in \<open>auto simp: unpin_def guard_write_def flush_page_def Let_def split: if_splits option.splits\<close>)
  moreover have "sys_inv crc (length ops) s1" using pool_do_ok [of crc "length ops" s x s1 r] Cons.prems(1) s1 by simp
  ultimately show ?case using Cons.IH [of s1 o2] Cons.prems(2) s1 s2 by simp
qed simp

section \<open>Properties\<close>

lemma sys_inv_new:
  assumes "disk_wf crc d" and "unat (next_page_id d) + length ops < 2 ^ 32"
  shows "sys_inv crc (length ops) \<lparr>ps_pool = buffer_pool_new d n, ps_guards = []\<rparr>"
  using assms pool_inv_new [OF assms(1)] by (simp add: sys_inv_def)

lemma new_page_succeeds:
  assumes "disk_wf crc d" and "unat (next_page_id d) + 1 < 2 ^ 32"
  shows "\<exists>p g. bp_new_page crc (buffer_pool_new d n) = (p, Inr g)"
proof -
  let ?p = "buffer_pool_new d n"
  note new = pool_inv_new [OF assms(1), of n]
  obtain d' pid where a: "allocate_page crc d = (d', pid)" by fastforce
  note al = pool_inv_alloc [OF new(1), unfolded new(3), OF assms(2) a]
  obtain p r where f: "fetch_page crc pid (?p\<lparr>bp_disk := d'\<rparr>) = (p, r)" by fastforce
  have "0 < length (bp_frames (?p\<lparr>bp_disk := d'\<rparr>))" by (simp add: buffer_pool_new_def Let_def)
  moreover have "pool_contents (?p\<lparr>bp_disk := d'\<rparr>) pid \<noteq> None" unfolding al(4) by simp
  ultimately show ?thesis
    using fetch_page_ok [OF al(1) _ f] a f by (cases r) (auto simp: bp_new_page_def new(3))
qed

text \<open>C33. The buffer pool is transparent: whatever a sequence of fetches, allocations, writes through guards, unpins and flushes does with the frames, the
  victims and the file, the pool is a map from page ids to contents on which only allocations and writes have an effect, and every live guard reads
  the contents of its page. So no eviction loses a write or hands a guard another page.
\<close>
theorem pool_refines:
  assumes "disk_wf crc d" and "unat (next_page_id d) + length ops < 2 ^ 32"
    and "pool_run crc ops \<lparr>ps_pool = buffer_pool_new d n, ps_guards = []\<rparr> = (s, oks)"
  shows "view s = spec_run (zip ops oks) (contents d, [], next_page_id d) \<and>
    (\<forall>g \<in> set (ps_guards s). fst (view s) (g_pid g) = Some (payload (pdata (guard_page g (ps_pool s)))))"
proof -
  note r = pool.run_refines [OF sys_inv_new [OF assms(1,2)] assms(3)]
  then have inv: "pool_inv crc (ps_pool s) (ps_guards s)" by (simp add: sys_inv_def)
  have "view \<lparr>ps_pool = buffer_pool_new d n, ps_guards = []\<rparr> = (contents d, [], next_page_id d)"
    by (simp add: view_def pool_inv_new [OF assms(1)])
  then have "view s = spec_run (zip ops oks) (contents d, [], next_page_id d)" using r by simp
  moreover have "\<forall>g \<in> set (ps_guards s). fst (view s) (g_pid g) = Some (payload (pdata (guard_page g (ps_pool s))))"
    using guard_reads [OF inv] by (simp add: view_def)
  ultimately show ?thesis by blast
qed

lemma disk_wf_empty: "disk_wf crc (disk_manager_new [])"
  by (simp add: disk_wf_def disk_manager_new_def covered_def)

theorem pool_refines_witness:
  "case pool_run (\<lambda>_. 0) [PNew, PFetch 7, PDrop 0, PFetch 1] \<lparr>ps_pool = buffer_pool_new (disk_manager_new []) 2, ps_guards = []\<rparr> of
     (s, oks) \<Rightarrow> view s = spec_run (zip [PNew, PFetch 7, PDrop 0, PFetch 1] oks) (contents (disk_manager_new []), [], 1)"
proof -
  have "unat (next_page_id (disk_manager_new [])) + length [PNew, PFetch 7, PDrop 0, PFetch 1] < 2 ^ 32" by (simp add: disk_manager_new_def)
  from pool_refines [OF disk_wf_empty this] show ?thesis by (simp add: disk_manager_new_def split: prod.split)
qed

text \<open>C34. Flushing persists: on a well-formed disk whose page ids do not run out, after any sequence of operations at whose end no guard that
  wrote is alive, \<open>flush_all\<close> puts the contents of every page into the file. A pool that is opened on that file, of less than 4 GiB, shows the same pages
  and continues with the same page id.
\<close>
theorem flush_all_persists:
  assumes "disk_wf crc d" and "unat (next_page_id d) + length ops < 2 ^ 32"
    and "pool_run crc ops \<lparr>ps_pool = buffer_pool_new d n, ps_guards = []\<rparr> = (s, oks)"
    and "\<forall>g \<in> set (ps_guards s). \<not> g_dirtied g" and "unat (next_page_id (bp_disk (ps_pool s))) * 8192 < 2 ^ 32"
  shows "view \<lparr>ps_pool = buffer_pool_new (disk_manager_new (dfile (bp_disk (flush_all crc (ps_pool s))))) m, ps_guards = []\<rparr> =
    (fst (view s), [], snd (snd (view s)))"
proof -
  have inv: "pool_inv crc (ps_pool s) (ps_guards s)"
    using pool.run_refines [OF sys_inv_new [OF assms(1,2)] assms(3)] by (simp add: sys_inv_def)
  note f = flush_all_ok [OF inv]
  let ?d = "bp_disk (flush_all crc (ps_pool s))"
  have wf: "disk_wf crc ?d" by (rule pool_invD(1) [OF f(1)])
  have "disk_manager_new (dfile ?d) = ?d" using reopen_disk [OF wf] assms(5) f(3) by simp
  then show ?thesis using pool_inv_new [OF wf] flush_all_contents [OF inv assms(4)] f(3) by (simp add: view_def)
qed

theorem flush_all_persists_witness:
  "\<exists>s oks. pool_run (\<lambda>_. 0) [PNew, PWrite 0 (replicate 8192 7), PDrop 0] \<lparr>ps_pool = buffer_pool_new (disk_manager_new []) 2, ps_guards = []\<rparr> = (s, oks) \<and>
    fst (view \<lparr>ps_pool = buffer_pool_new (disk_manager_new (dfile (bp_disk (flush_all (\<lambda>_. 0) (ps_pool s))))) 3, ps_guards = []\<rparr>) 1 =
      Some (payload (replicate 8192 7))"
proof -
  let ?ops = "[PNew, PWrite 0 (replicate 8192 7), PDrop 0]" and ?d = "disk_manager_new []"
  let ?s = "\<lparr>ps_pool = buffer_pool_new ?d 2, ps_guards = []\<rparr>"
  obtain s oks where run: "pool_run (\<lambda>_. 0) ?ops ?s = (s, oks)" by fastforce
  have n: "next_page_id ?d = 1" "unat (next_page_id ?d) + length ?ops < 2 ^ 32" by (simp_all add: disk_manager_new_def)
  obtain p g where new: "bp_new_page (\<lambda>_. 0) (buffer_pool_new ?d 2) = (p, Inr g)" using new_page_succeeds [of "\<lambda>_. 0" ?d 2] disk_wf_empty n by auto
  then have s: "ps_guards s = []" "oks = [True, True, True]"
    using run by (auto simp: with_guard_def PAGE_SIZE_def split: prod.splits)
  have "view s = spec_run (zip ?ops oks) (view ?s)" using pool.run_refines [OF sys_inv_new [OF disk_wf_empty n(2)] run] by blast
  then have v: "view s = ((contents ?d)(1 \<mapsto> payload (pdata (new_page 1)), 1 \<mapsto> payload (replicate 8192 7)), [], 2)"
    using n(1) by (simp add: s(2) view_def pool_inv_new(2,3) [OF disk_wf_empty])
  then have "unat (next_page_id (bp_disk (ps_pool s))) * 8192 < 2 ^ 32" by (simp add: view_def)
  from flush_all_persists [OF disk_wf_empty n(2) run _ this, of 3] show ?thesis using run s(1) v by auto
qed

text \<open>C35. The pool stays within its frames: after any sequence of operations it has the number of frames it was opened with, and the resident pages and the free
  frames add up to that number. While fewer guards are alive than there are frames, fetching a page that exists succeeds.
\<close>
theorem pool_capacity:
  assumes "disk_wf crc d" and "unat (next_page_id d) + length ops < 2 ^ 32"
    and "pool_run crc ops \<lparr>ps_pool = buffer_pool_new d n, ps_guards = []\<rparr> = (s, oks)"
  shows "capacity (ps_pool s) = max n 2 \<and> length (bp_table (ps_pool s)) + length (bp_free (ps_pool s)) = max n 2 \<and>
    (length (ps_guards s) < max n 2 \<and> fst (view s) pid \<noteq> None \<longrightarrow> \<not> isl (snd (fetch_page crc pid (ps_pool s))))"
proof -
  have sys: "sys_inv crc 0 s" using pool.run_refines [OF sys_inv_new [OF assms(1,2)] assms(3)] by simp
  then have inv: "pool_inv crc (ps_pool s) (ps_guards s)" and l: "length (ps_guards s) < 2 ^ 32" by (simp_all add: sys_inv_def)
  have "length (bp_frames (ps_pool s)) = max n 2"
    using pool_run_frames [OF sys_inv_new [OF assms(1,2)] assms(3)] by (simp add: buffer_pool_new_def Let_def)
  moreover have "\<not> isl (snd (fetch_page crc pid (ps_pool s)))"
    if "length (ps_guards s) < length (bp_frames (ps_pool s))" "fst (view s) pid \<noteq> None"
    using fetch_page_ok [OF inv l, of pid] that by (cases "fetch_page crc pid (ps_pool s)"; cases "snd (fetch_page crc pid (ps_pool s))") (auto simp: view_def)
  ultimately show ?thesis using table_bound [OF inv] by (auto simp: capacity_def)
qed

theorem pool_capacity_witness:
  "case pool_run (\<lambda>_. 0) [PNew, PNew] \<lparr>ps_pool = buffer_pool_new (disk_manager_new []) 0, ps_guards = []\<rparr> of
     (s, oks) \<Rightarrow> capacity (ps_pool s) = 2 \<and> length (bp_table (ps_pool s)) + length (bp_free (ps_pool s)) = 2"
proof -
  have "unat (next_page_id (disk_manager_new [])) + length [PNew, PNew] < 2 ^ 32" by (simp add: disk_manager_new_def)
  from pool_capacity [OF disk_wf_empty this] show ?thesis by (simp split: prod.split)
qed

section \<open>Interleavings that lose writes\<close>

text \<open>
  A page that is read without the lock is installed as it was read: if another thread changed, wrote back and evicted the page in the meantime,
  the pool serves the old contents.
\<close>

lemma stale_install:
  assumes "pool_inv crc p gs" and "length gs < 2 ^ 32" and "map_of (bp_table p) pid = None" and "choose_frame crc p = Inr (s1, i)"
  shows "pool_contents (fst (fetch_install crc pid stale p)) pid = Some (payload (pdata stale))"
proof -
  have "i < length (bp_frames s1)" using choose_frame_ok [OF assms(1,2,4)] by (simp add: pool_inv_but_def)
  then show ?thesis
    using assms(3,4) by (simp add: fetch_install_def fetch_lookup_def load_frame_def Let_def pool_contents_def update_conv' tick_def)
qed

text \<open>
  The second half of \<open>flush_all\<close> clears the flag of a page that became dirty after the first half had collected the pages. Its change is
  lost with the next eviction: the pool falls back to what the file has.
\<close>

lemma flush_clear_forgets:
  assumes inv: "pool_inv crc p gs" and i: "i < length (bp_frames p)" and id: "fr_page_id (bp_frames p ! i) = pid" "pid \<noteq> 0"
    and "fr_dirty (bp_frames p ! i)"
  shows "pool_contents (evict_locked crc i (flush_clear p)) pid = contents (bp_disk p) pid"
  using i id pool_invD(7) [OF inv]
  by (simp add: evict_locked_def flush_clear_def Let_def INVALID_PAGE_ID_def pool_contents_def delete_conv')

end
