(* ===== verification/Lexer.thy ===== *)
theory Lexer
  imports Prelude
begin

text \<open>
  The SQL lexer, \<open>bytedb-query/src/parser/lexer.rs\<close> and \<open>token.rs\<close>. Text consists of ASCII characters. The state of the
  lexer is the input from its position on. The tokens are grouped: keywords are \<open>KW\<close>, operators and punctuation
  are \<open>Sym\<close>. Integer literals are 64-bit words, float literals the bits of the \<open>f64\<close>.
\<close>

unbundle bit_operations_syntax

section \<open>Tokens\<close>

text \<open>A keyword token is the name of its variant.\<close>

type_synonym keyword = string

datatype symbol =
    SEq | SNeq | SLt | SGt | SLte | SGte | SPlus | SMinus | SStar | SSlash | SPercent | SDoubleColon | SLParen | SRParen | SLBrace
     | SRBrace | SLBracket | SRBracket | SComma | SSemicolon | SDot | SDollarDot | SColon

datatype token =
    KW keyword
  | Sym symbol
  | HexBlob bytes
  | IntLit u64
  | FloatLit u64
  | StringLit string
  | BoolLit bool
  | NullLit
  | Ident string
  | Eof

text \<open>The errors are \<open>QueryError::Parse\<close> with the parts of their message. \<open>NoFuel\<close> is no error of the source: it says that a
  bound on the number of steps was too small.\<close>

datatype parse_error =
    Parse string
  | UnexpectedChar char
  | InvalidInteger string
  | InvalidHexChar char
  | ExpectedToken token token
  | ExpectedKind string token
  | UnexpectedToken token
  | NoFuel

section \<open>Characters\<close>

definition is_ascii_digit :: "char \<Rightarrow> bool" where
  "is_ascii_digit c \<longleftrightarrow> (48 :: nat) \<le> of_char c \<and> (of_char c :: nat) \<le> 57"

definition is_lower :: "char \<Rightarrow> bool" where
  "is_lower c \<longleftrightarrow> (97 :: nat) \<le> of_char c \<and> (of_char c :: nat) \<le> 122"

definition is_upper :: "char \<Rightarrow> bool" where
  "is_upper c \<longleftrightarrow> (65 :: nat) \<le> of_char c \<and> (of_char c :: nat) \<le> 90"

definition is_alphabetic :: "char \<Rightarrow> bool" where
  "is_alphabetic c \<longleftrightarrow> is_lower c \<or> is_upper c"

definition is_ident_start :: "char \<Rightarrow> bool" where
  "is_ident_start c \<longleftrightarrow> is_alphabetic c \<or> c = CHR ''_''"

definition is_ident_char :: "char \<Rightarrow> bool" where
  "is_ident_char c \<longleftrightarrow> is_alphabetic c \<or> is_ascii_digit c \<or> c = CHR ''_''"

definition is_ascii_hexdigit :: "char \<Rightarrow> bool" where
  "is_ascii_hexdigit c \<longleftrightarrow> is_ascii_digit c \<or> (97 :: nat) \<le> of_char c \<and> (of_char c :: nat) \<le> 102 \<or>
     (65 :: nat) \<le> of_char c \<and> (of_char c :: nat) \<le> 70"

definition is_whitespace :: "char \<Rightarrow> bool" where
  "is_whitespace c \<longleftrightarrow> (9 :: nat) \<le> of_char c \<and> (of_char c :: nat) \<le> 13 \<or> c = CHR '' ''"

definition to_ascii_lowercase :: "char \<Rightarrow> char" where
  "to_ascii_lowercase c = (if is_upper c then char_of (of_char c + 32 :: nat) else c)"

definition to_ascii_uppercase :: "char \<Rightarrow> char" where
  "to_ascii_uppercase c = (if is_lower c then char_of (of_char c - 32 :: nat) else c)"

definition to_uppercase :: "string \<Rightarrow> string" where
  "to_uppercase s = map to_ascii_uppercase s"

definition eq_ignore_ascii_case :: "string \<Rightarrow> string \<Rightarrow> bool" where
  "eq_ignore_ascii_case s t \<longleftrightarrow> map to_ascii_lowercase s = map to_ascii_lowercase t"

definition at_char :: "char \<Rightarrow> string \<Rightarrow> bool" where
  "at_char c inp \<longleftrightarrow> inp \<noteq> [] \<and> hd inp = c"

section \<open>Keywords\<close>

definition keyword_table :: "(string \<times> token) list" where
  "keyword_table =
     [(''SELECT'', KW ''Select''), (''DISTINCT'', KW ''Distinct''), (''FROM'', KW ''From''), (''WHERE'', KW ''Where''),
      (''INSERT'', KW ''Insert''), (''INTO'', KW ''Into''), (''VALUES'', KW ''Values''), (''UPDATE'', KW ''Update''), (''SET'', KW ''Set''),
      (''DELETE'', KW ''Delete''), (''CREATE'', KW ''Create''), (''DROP'', KW ''Drop''), (''ALTER'', KW ''Alter''), (''ADD'', KW ''Add''),
      (''RENAME'', KW ''Rename''), (''COLUMN'', KW ''Column''), (''UNION'', KW ''Union''), (''ALL'', KW ''All''), (''TABLE'', KW ''Table''),
      (''INDEX'', KW ''Index''), (''ON'', KW ''On''), (''PRIMARY'', KW ''Primary''), (''KEY'', KW ''Key''), (''NOT'', KW ''Not''),
      (''NULL'', NullLit), (''UNIQUE'', KW ''Unique''), (''IF'', KW ''If''), (''EXISTS'', KW ''Exists''), (''AND'', KW ''And''),
      (''OR'', KW ''Or''), (''ORDER'', KW ''Order''), (''BY'', KW ''By''), (''ASC'', KW ''Asc''), (''DESC'', KW ''Desc''),
      (''LIMIT'', KW ''Limit''), (''OFFSET'', KW ''Offset''), (''JOIN'', KW ''Join''), (''INNER'', KW ''Inner''), (''LEFT'', KW ''Left''),
      (''RIGHT'', KW ''Right''), (''GROUP'', KW ''Group''), (''HAVING'', KW ''Having''), (''AS'', KW ''As''), (''IN'', KW ''In''),
      (''LIKE'', KW ''Like''), (''BETWEEN'', KW ''Between''), (''IS'', KW ''Is''), (''BEGIN'', KW ''Begin''), (''COMMIT'', KW ''Commit''),
      (''ROLLBACK'', KW ''Rollback''), (''SERIALIZABLE'', KW ''Serializable''), (''CASE'', KW ''Case''), (''WHEN'', KW ''When''),
      (''THEN'', KW ''Then''), (''ELSE'', KW ''Else''), (''END'', KW ''End''), (''CAST'', KW ''Cast''), (''RETURNING'', KW ''Returning''),
      (''CONFLICT'', KW ''Conflict''), (''DO'', KW ''Do''), (''NOTHING'', KW ''Nothing''), (''ILIKE'', KW ''Ilike''), (''WITH'', KW ''With''),
      (''RECURSIVE'', KW ''Recursive''), (''OVER'', KW ''Over''), (''PARTITION'', KW ''Partition''), (''ROWS'', KW ''Rows''),
      (''RANGE'', KW ''Range''), (''UNBOUNDED'', KW ''Unbounded''), (''PRECEDING'', KW ''Preceding''), (''FOLLOWING'', KW ''Following''),
      (''CURRENT'', KW ''Current''), (''ROW'', KW ''Row''), (''EXPLAIN'', KW ''Explain''), (''ANALYZE'', KW ''Analyze''),
      (''NULLS'', KW ''Nulls''), (''FIRST'', KW ''First''), (''LAST'', KW ''Last''), (''INTERSECT'', KW ''Intersect''),
      (''EXCEPT'', KW ''Except''), (''SHOW'', KW ''Show''), (''COLUMNS'', KW ''Columns''), (''TABLES'', KW ''Tables''),
      (''TRUNCATE'', KW ''Truncate''), (''DEFAULT'', KW ''Default''), (''DATABASE'', KW ''Database''), (''SCHEMA'', KW ''Database''),
      (''USE'', KW ''Use''), (''CASCADE'', KW ''Cascade''), (''RESTRICT'', KW ''Restrict''), (''BACKUP'', KW ''Backup''),
      (''RESTORE'', KW ''Restore''), (''MIGRATE'', KW ''Migrate''), (''TO'', KW ''To''), (''LSN'', KW ''Lsn''), (''KV'', KW ''Kv''),
      (''GET'', KW ''Get''), (''SCAN'', KW ''Scan''), (''DOC'', KW ''Doc''), (''FIND'', KW ''Find''), (''INT'', KW ''Int''),
      (''FLOAT'', KW ''Float''), (''TEXT'', KW ''Text''), (''BOOL'', KW ''Bool''), (''BYTES'', KW ''Bytes''), (''JSON'', KW ''Json''),
      (''TIMESTAMP'', KW ''Timestamp''), (''VARCHAR'', KW ''Varchar''), (''INTEGER'', KW ''Integer''), (''BIGINT'', KW ''Bigint''),
      (''SMALLINT'', KW ''Smallint''), (''REAL'', KW ''Real''), (''DOUBLE'', KW ''DoublePrecision''), (''NUMERIC'', KW ''Numeric''),
      (''DECIMAL'', KW ''Numeric''), (''SERIAL'', KW ''Serial''), (''UUID'', KW ''Uuid''), (''DATE'', KW ''Date''),
      (''INTERVAL'', KW ''Interval''), (''BLOB'', KW ''Blob''), (''TRUE'', BoolLit True), (''FALSE'', BoolLit False)]"

definition is_keyword :: "string \<Rightarrow> token option" where
  "is_keyword s = map_of keyword_table (to_uppercase s)"

section \<open>Numbers\<close>

definition digit_val :: "char \<Rightarrow> nat" where
  "digit_val c = of_char c - 48"

definition digits_val :: "string \<Rightarrow> nat" where
  "digits_val s = foldl (\<lambda>n c. 10 * n + digit_val c) 0 s"

definition parse_i64 :: "string \<Rightarrow> u64 option" where
  "parse_i64 s = (if digits_val s < 2 ^ 63 then Some (of_nat (digits_val s)) else None)"

text \<open>\<open>f64\<close> literals: the double nearest to a ratio, ties to even, as bits.\<close>

fun bit_len :: "nat \<Rightarrow> nat" where
  "bit_len n = (if n = 0 then 0 else Suc (bit_len (n div 2)))"

declare bit_len.simps [simp del]

definition round_div :: "nat \<Rightarrow> nat \<Rightarrow> nat" where
  "round_div n q = (let d = n div q; r = n mod q in if 2 * r > q \<or> 2 * r = q \<and> odd d then d + 1 else d)"

definition f64_of_ratio :: "nat \<Rightarrow> nat \<Rightarrow> u64" where
  "f64_of_ratio p q =
     (if p = 0 then 0
      else
        let e = int (bit_len p) - int (bit_len q);
            fits = (if 0 \<le> e then q * 2 ^ nat e \<le> p else q \<le> p * 2 ^ nat (- e));
            k = max (if fits then e - 52 else e - 53) (- 1074);
            n = (if 0 \<le> k then round_div p (q * 2 ^ nat k) else round_div (p * 2 ^ nat (- k)) q)
        in of_nat (min (nat (k + 1074) * 2 ^ 52 + n) (2047 * 2 ^ 52)))"

definition parse_f64 :: "string \<Rightarrow> u64" where
  "parse_f64 s =
     (let ip = takeWhile is_ascii_digit s; r1 = dropWhile is_ascii_digit s;
          (fp, r2) = (if at_char CHR ''.'' r1 then (takeWhile is_ascii_digit (tl r1), dropWhile is_ascii_digit (tl r1)) else ([], r1));
          t = tl r2;
          ex = (if r2 = [] then 0
                else if at_char CHR ''-'' t then - int (digits_val (tl t))
                else if at_char CHR ''+'' t then int (digits_val (tl t))
                else int (digits_val t));
          m = digits_val (ip @ fp); e10 = ex - int (length fp)
      in if 0 \<le> e10 then f64_of_ratio (m * 10 ^ nat e10) 1 else f64_of_ratio m (10 ^ nat (- e10)))"

section \<open>Hexadecimal blobs\<close>

definition hex_char_to_nibble :: "char \<Rightarrow> u8" where
  "hex_char_to_nibble c =
     (if is_ascii_digit c then of_char c - 48
      else if (97 :: nat) \<le> of_char c \<and> (of_char c :: nat) \<le> 102 then of_char c - 97 + 10
      else if (65 :: nat) \<le> of_char c \<and> (of_char c :: nat) \<le> 70 then of_char c - 65 + 10
      else 0)"

fun decode_hex :: "string \<Rightarrow> bytes" where
  "decode_hex [] = []"
| "decode_hex [h] = [push_bit 4 (hex_char_to_nibble (to_ascii_lowercase h)) OR hex_char_to_nibble (CHR ''0'')]"
| "decode_hex (h # l # cs) =
     (push_bit 4 (hex_char_to_nibble (to_ascii_lowercase h)) OR hex_char_to_nibble (to_ascii_lowercase l)) # decode_hex cs"

text \<open>The digits up to the closing quote.\<close>

fun hex_body :: "string \<Rightarrow> parse_error + string \<times> string" where
  "hex_body [] = Inl (Parse ''Unterminated blob literal'')"
| "hex_body (c # cs) =
     (if c = CHR 0x27 then Inr ([], cs)
      else if is_ascii_hexdigit c then rbind (hex_body cs) (\<lambda>(h, r). Inr (c # h, r))
      else if \<not> is_whitespace c then Inl (InvalidHexChar c)
      else hex_body cs)"

definition read_hex_blob :: "string \<Rightarrow> parse_error + token \<times> string" where
  "read_hex_blob inp =
     (if \<not> at_char CHR 0x27 (tl inp) then Inl (Parse (''Expected '' @ replicate 3 CHR 0x27 @ '' after x''))
      else rbind (hex_body (tl (tl inp))) (\<lambda>(hex, r).
        if odd (length hex) then Inl (Parse ''Blob literal must have even number of hex digits'')
        else Inr (HexBlob (decode_hex hex), r)))"

section \<open>Strings and numbers\<close>

definition escaped :: "char \<Rightarrow> string" where
  "escaped c =
     (if c = CHR ''n'' then [CHR 0x0A] else if c = CHR ''t'' then [CHR 0x09]
      else if c = CHR 0x5C then [CHR 0x5C] else [CHR 0x5C, c])"

fun string_body :: "char \<Rightarrow> string \<Rightarrow> (string \<times> string) option" where
  "string_body quote [] = None"
| "string_body quote [c] = (if c = quote then Some ([], []) else None)"
| "string_body quote (c # d # cs) =
     (if c = quote then Some ([], d # cs)
      else if c = CHR 0x5C then map_option (\<lambda>(s, r). (escaped d @ s, r)) (string_body quote cs)
      else map_option (\<lambda>(s, r). (c # s, r)) (string_body quote (d # cs)))"

definition read_string :: "char \<Rightarrow> string \<Rightarrow> parse_error + token \<times> string" where
  "read_string quote inp =
     (case string_body quote (tl inp) of
        None \<Rightarrow> Inl (Parse ''Unterminated string'')
      | Some (s, r) \<Rightarrow> Inr (StringLit s, r))"

text \<open>Digits with at most one dot: the text, whether it has a dot, the rest.\<close>

fun number_span :: "bool \<Rightarrow> string \<Rightarrow> string \<times> bool \<times> string" where
  "number_span is_float [] = ([], is_float, [])"
| "number_span is_float (c # cs) =
     (if c = CHR ''.''
      then if is_float then ([], is_float, c # cs)
           else (case number_span True cs of (t, f, r) \<Rightarrow> (c # t, f, r))
      else if is_ascii_digit c then (case number_span is_float cs of (t, f, r) \<Rightarrow> (c # t, f, r))
      else ([], is_float, c # cs))"

text \<open>An exponent, if a digit follows.\<close>

definition exponent_span :: "string \<Rightarrow> (string \<times> string) option" where
  "exponent_span inp =
     (case inp of
        e # r \<Rightarrow>
          if e = CHR ''e'' \<or> e = CHR ''E''
          then let sign = (case r of c # _ \<Rightarrow> if c = CHR ''+'' \<or> c = CHR ''-'' then [c] else [] | [] \<Rightarrow> []);
                   t = drop (length sign) r
               in (case t of
                     d # _ \<Rightarrow> if is_ascii_digit d then Some (e # sign @ takeWhile is_ascii_digit t, dropWhile is_ascii_digit t) else None
                   | [] \<Rightarrow> None)
          else None
      | [] \<Rightarrow> None)"

definition peek_next :: "string \<Rightarrow> char option" where
  "peek_next inp = (case inp of _ # c # _ \<Rightarrow> Some c | _ \<Rightarrow> None)"

definition read_number :: "string \<Rightarrow> parse_error + token \<times> string" where
  "read_number inp =
     (case number_span False inp of (t, is_float, r) \<Rightarrow>
        if t = ''0'' \<and> peek_next r = Some (CHR 0x27) then read_hex_blob r
        else
          let (num_str, is_float', r') =
            (case exponent_span r of Some (e, r2) \<Rightarrow> (t @ e, True, r2) | None \<Rightarrow> (t, is_float, r))
          in if is_float' then Inr (FloatLit (parse_f64 num_str), r')
             else (case parse_i64 num_str of
                     Some n \<Rightarrow> Inr (IntLit n, r')
                   | None \<Rightarrow> Inl (InvalidInteger num_str)))"

definition read_word :: "string \<Rightarrow> parse_error + token \<times> string" where
  "read_word inp =
     (if (hd inp = CHR ''x'' \<or> hd inp = CHR ''X'') \<and> peek_next inp = Some (CHR 0x27) then read_hex_blob inp
      else
        let ident = takeWhile is_ident_char inp
        in Inr (case is_keyword ident of Some k \<Rightarrow> k | None \<Rightarrow> Ident ident, dropWhile is_ident_char inp))"

section \<open>The lexer\<close>

definition skip_whitespace :: "string \<Rightarrow> string" where
  "skip_whitespace inp = dropWhile is_whitespace inp"

definition skip_line_comment :: "string \<Rightarrow> string" where
  "skip_line_comment inp = dropWhile (\<lambda>c. c \<noteq> CHR 0x0A) inp"

text \<open>The symbols of one character.\<close>

definition single_symbol :: "char \<Rightarrow> symbol option" where
  "single_symbol c = map_of
     [(CHR ''('', SLParen), (CHR '')'', SRParen), (CHR ''{'', SLBrace), (CHR ''}'', SRBrace), (CHR ''['', SLBracket), (CHR '']'', SRBracket),
      (CHR '','', SComma), (CHR '';'', SSemicolon), (CHR ''+'', SPlus), (CHR ''-'', SMinus), (CHR ''*'', SStar), (CHR ''/'', SSlash),
      (CHR ''%'', SPercent), (CHR ''.'', SDot)] c"

text \<open>The symbol at the start of the input \<open>c # cs\<close>, for the characters that start longer ones.\<close>

definition long_symbol :: "char \<Rightarrow> string \<Rightarrow> (parse_error + token \<times> string) option" where
  "long_symbol c cs =
     (let follows = (\<lambda>d. at_char d cs) in
      if c = CHR '':'' then Some (Inr (if follows CHR '':'' then (Sym SDoubleColon, tl cs) else (Sym SColon, cs)))
      else if c = CHR ''$'' then
        Some (if follows CHR ''.'' then Inr (Sym SDollarDot, tl cs) else Inl (Parse (''Expected '.' after '$'' @ [CHR 0x27])))
      else if c = CHR ''='' then Some (Inr (Sym SEq, if follows CHR ''='' then tl cs else cs))
      else if c = CHR ''!'' then
        Some (if follows CHR ''='' then Inr (Sym SNeq, tl cs) else Inl (Parse (''Expected '=' after '!'' @ [CHR 0x27])))
      else if c = CHR ''<'' then
        Some (Inr (if follows CHR ''='' then (Sym SLte, tl cs) else if follows CHR ''>'' then (Sym SNeq, tl cs) else (Sym SLt, cs)))
      else if c = CHR ''>'' then Some (Inr (if follows CHR ''='' then (Sym SGte, tl cs) else (Sym SGt, cs)))
      else None)"

definition scan_token :: "char \<Rightarrow> string \<Rightarrow> parse_error + token \<times> string" where
  "scan_token c cs =
     (case single_symbol c of
        Some s \<Rightarrow> Inr (Sym s, cs)
      | None \<Rightarrow>
          (case long_symbol c cs of
             Some r \<Rightarrow> r
           | None \<Rightarrow>
               if c = CHR 0x22 \<or> c = CHR 0x27 then read_string c (c # cs)
               else if is_ascii_digit c then read_number (c # cs)
               else if is_ident_start c then read_word (c # cs)
               else Inl (UnexpectedChar c)))"

definition is_comment :: "string \<Rightarrow> bool" where
  "is_comment inp \<longleftrightarrow> (case inp of c # _ \<Rightarrow> c = CHR ''-'' | [] \<Rightarrow> False) \<and> peek_next inp = Some (CHR ''-'')"

lemma length_skip_whitespace: "length (skip_whitespace inp) \<le> length inp"
  by (simp add: skip_whitespace_def length_dropWhile_le)

lemma length_skip_comment: "is_comment inp \<Longrightarrow> length (skip_line_comment inp) < length inp"
proof (cases inp)
  case (Cons c cs)
  assume "is_comment inp"
  then have "skip_line_comment inp = dropWhile (\<lambda>c. c \<noteq> CHR 0x0A) cs" using Cons by (simp add: is_comment_def skip_line_comment_def)
  then show ?thesis using Cons length_dropWhile_le [of "\<lambda>c. c \<noteq> CHR 0x0A" cs] by simp
qed (simp add: is_comment_def)

function next_token :: "string \<Rightarrow> parse_error + token \<times> string" where
  "next_token inp =
     (let rest = skip_whitespace inp
      in if is_comment rest then next_token (skip_line_comment rest)
         else (case rest of [] \<Rightarrow> Inr (Eof, []) | c # cs \<Rightarrow> scan_token c cs))"
  by pat_completeness auto
termination
  by (relation "measure length") (auto intro: less_le_trans [OF length_skip_comment length_skip_whitespace])

declare next_token.simps [simp del]

section \<open>Every token is shorter than the input\<close>

lemma hex_body_length: "hex_body cs = Inr (h, r) \<Longrightarrow> length r < length cs"
  by (induction cs arbitrary: h r) (force split: if_splits)+

lemma read_hex_blob_length: "read_hex_blob inp = Inr (t, r) \<Longrightarrow> length r < length inp \<and> t \<noteq> Eof"
  by (cases inp) (auto simp: read_hex_blob_def at_char_def split: if_splits dest!: hex_body_length)

lemma string_body_length: "string_body q cs = Some (s, r) \<Longrightarrow> length r < length cs"
  by (induction q cs arbitrary: s r rule: string_body.induct) (force split: if_splits)+

lemma number_span_append: "number_span f cs = (t, f', r) \<Longrightarrow> cs = t @ r"
  by (induction f cs arbitrary: t f' r rule: number_span.induct) (auto split: if_splits prod.splits)

lemma number_span_digit: "is_ascii_digit c \<Longrightarrow> number_span f (c # cs) = (t, f', r) \<Longrightarrow> t \<noteq> []"
  by (auto simp: is_ascii_digit_def split: if_splits prod.splits)

lemma exponent_span_length: "exponent_span inp = Some (e, r) \<Longrightarrow> length r \<le> length inp"
  by (auto simp: exponent_span_def Let_def split: list.splits if_splits intro: le_trans [OF length_dropWhile_le])

lemma read_number_length:
  assumes "is_ascii_digit c" and "read_number (c # cs) = Inr (t, r)"
  shows "length r < length (c # cs) \<and> t \<noteq> Eof"
proof -
  obtain num f r1 where s: "number_span False (c # cs) = (num, f, r1)" by (metis prod_cases3)
  have "length r1 < length (c # cs)" using number_span_append [OF s] number_span_digit [OF assms(1) s] by (metis length_append length_greater_0_conv less_add_same_cancel2)
  then show ?thesis
    using assms(2) s read_hex_blob_length [of r1 t r] exponent_span_length [of r1]
    by (auto simp: read_number_def Let_def split: if_splits option.splits prod.splits)
qed

lemma at_char_tl: "at_char c cs \<Longrightarrow> length (tl cs) < length cs"
  by (cases cs) (simp_all add: at_char_def)

lemma long_symbol_length: "long_symbol c cs = Some (Inr (t, r)) \<Longrightarrow> length r \<le> length cs \<and> t \<noteq> Eof"
  by (auto simp: long_symbol_def Let_def split: if_splits)

lemma keyword_table_tokens: "(s, t) \<in> set keyword_table \<Longrightarrow> t \<noteq> Eof \<and> (\<forall>i. t \<noteq> Ident i)"
  by (auto simp: keyword_table_def)

lemma is_keyword_token: "is_keyword s = Some t \<Longrightarrow> t \<noteq> Eof \<and> (\<forall>i. t \<noteq> Ident i)"
  unfolding is_keyword_def by (drule map_of_SomeD) (rule keyword_table_tokens)

lemma read_word_length:
  assumes "is_ident_start c" and "read_word (c # cs) = Inr (t, r)"
  shows "length r < length (c # cs) \<and> t \<noteq> Eof"
proof -
  have "is_ident_char c" using assms(1) by (auto simp: is_ident_char_def is_ident_start_def)
  then have "length (dropWhile is_ident_char (c # cs)) < length (c # cs)" by (simp add: length_dropWhile_le le_imp_less_Suc)
  then show ?thesis
    using assms(2) read_hex_blob_length [of "c # cs" t r] is_keyword_token
    by (auto simp: read_word_def Let_def split: if_splits option.splits)
qed

lemma scan_token_length: "scan_token c cs = Inr (t, r) \<Longrightarrow> length r < Suc (length cs) \<and> t \<noteq> Eof"
  using long_symbol_length [of c cs t r] string_body_length [of c cs] read_number_length [of c cs t r] read_word_length [of c cs t r]
  by (auto simp: scan_token_def read_string_def split: option.splits if_splits)

lemma next_token_length: "next_token inp = Inr (t, r) \<Longrightarrow> t \<noteq> Eof \<Longrightarrow> length r < length inp"
proof (induction inp rule: next_token.induct)
  case (1 inp)
  let ?rest = "skip_whitespace inp"
  show ?case
  proof (cases "is_comment ?rest")
    case True
    then have "next_token (skip_line_comment ?rest) = Inr (t, r)" using "1.prems"(1) by (subst (asm) next_token.simps) simp
    then have "length r < length (skip_line_comment ?rest)" using "1.IH" [OF refl True] "1.prems"(2) by simp
    then show ?thesis using length_skip_comment [OF True] length_skip_whitespace [of inp] by simp
  next
    case False
    then show ?thesis
      using "1.prems" length_skip_whitespace [of inp]
      by (subst (asm) next_token.simps) (auto split: list.splits dest: scan_token_length)
  qed
qed

function tokenize :: "string \<Rightarrow> parse_error + token list" where
  "tokenize inp =
     rbind (next_token inp) (\<lambda>(t, rest). if t = Eof then Inr [t] else rbind (tokenize rest) (\<lambda>ts. Inr (t # ts)))"
  by pat_completeness auto
termination
  by (relation "measure length") (auto dest: next_token_length)

declare tokenize.simps [simp del]

lemma tokenize_last: "tokenize inp = Inr ts \<Longrightarrow> ts \<noteq> [] \<and> last ts = Eof \<and> Eof \<notin> set (butlast ts)"
proof (induction inp arbitrary: ts rule: tokenize.induct)
  case (1 inp)
  then show ?case by (subst (asm) (2) tokenize.simps) (auto split: if_splits)
qed

end
