(* ===== verification/Ast.thy ===== *)
theory Ast
  imports Values Transactions Lexer
begin

text \<open>
  The syntax trees of \<open>bytedb-query/src/parser/ast.rs\<close>, and the printer of expressions with which \<open>CHECK\<close> constraints are stored in the catalogue. The printer of
  floats, \<open>format!("{:?}", f)\<close>, is the parameter \<open>fl\<close>.
\<close>

section \<open>Expressions and queries\<close>

datatype literal_value =
    LInteger u64
  | LFloat u64
  | LString string
  | LBool bool
  | LNull
  | LHexBlob bytes

datatype bin_op = BEq | BNeq | BLt | BGt | BLte | BGte | BAnd | BOr | BPlus | BMinus | BMul | BDiv | BMod | BLike | BIlike

datatype unary_op = UNot | UNeg

datatype join_type = JInner | JLeft | JRight

datatype (plugins only: size code) expr =
    Literal literal_value
  | Column string
  | QualifiedColumn string string
  | BinaryOp expr bin_op expr
  | UnaryOp unary_op expr
  | Function string "expr list"
  | JsonPath string
  | IsNull expr
  | IsNotNull expr
  | InList expr "expr list"
  | Between expr expr expr
  | Case "expr option" "(expr \<times> expr) list" "expr option"
  | Cast expr data_type
  | Subquery select_stmt
  | InSubquery expr select_stmt
  | Exists select_stmt
  | WindowFunction string "expr list" "expr list" "order_by_expr list"
  | DefaultExpr
  | Interval string
and select_stmt =
    SelectStmt (s_columns: "select_column list") (s_distinct: bool) (s_from: from_clause) (s_from_alias: "string option")
      (s_joins: "join_clause list") (s_where: "expr option") (s_group_by: "expr list") (s_having: "expr option")
      (s_order_by: "order_by_expr list") (s_limit: "nat option") (s_offset: "nat option") (s_ctes: "cte list")
and from_clause = FromTable string | FromSubquery select_stmt | FromNone
and cte = Cte (cte_name: string) (cte_query: select_stmt)
and select_column = StarColumn | ExprColumn expr "string option"
and join_clause = JoinClause (j_type: join_type) (j_table: string) (j_alias: "string option") (j_condition: expr)
and order_by_expr = OrderByExpr (o_expr: expr) (o_ascending: bool) (o_nulls_first: "bool option")

section \<open>Statements\<close>

datatype ast_fk_action = FkRestrict | FkCascade | FkSetNull

record foreign_key_def =
  fk_columns :: "string list"
  fk_ref_table :: string
  fk_ref_columns :: "string list"
  fk_on_delete :: ast_fk_action
  fk_on_update :: ast_fk_action

record column_def =
  cd_name :: string
  cd_data_type :: data_type
  cd_max_length :: "nat option"
  cd_nullable :: bool
  cd_primary_key :: bool
  cd_unique :: bool
  cd_auto_increment :: bool
  cd_default :: "expr option"
  cd_check :: "expr option"
  cd_references :: "(string \<times> string) option"
  cd_on_delete :: ast_fk_action
  cd_on_update :: ast_fk_action

record create_table_stmt =
  ct_name :: string
  ct_columns :: "column_def list"
  ct_if_not_exists :: bool
  ct_check_constraints :: "expr list"
  ct_foreign_keys :: "foreign_key_def list"

datatype alter_table_action = AddColumn column_def | DropColumn string | RenameColumn string string

datatype insert_source = ValuesSource "expr list list" | SelectSource select_stmt

datatype conflict_action = DoNothing | DoUpdate "(string \<times> expr) list"

record on_conflict =
  oc_columns :: "string list"
  oc_action :: conflict_action

record insert_stmt =
  i_table :: string
  i_columns :: "string list option"
  i_source :: insert_source
  i_on_conflict :: "on_conflict option"
  i_returning :: "select_column list option"

record update_stmt =
  u_table :: string
  u_assignments :: "(string \<times> expr) list"
  u_where :: "expr option"
  u_returning :: "select_column list option"

record delete_stmt =
  d_table :: string
  d_where :: "expr option"
  d_returning :: "select_column list option"

datatype (plugins only: size code) statement =
    CreateTable create_table_stmt
  | DropTable string bool
  | CreateIndex string string "string list" bool
  | DropIndex string
  | AlterTable string alter_table_action
  | UnionStmt statement statement bool
  | IntersectStmt statement statement bool
  | ExceptStmt statement statement bool
  | Select select_stmt
  | Insert insert_stmt
  | Update update_stmt
  | Delete delete_stmt
  | KvGet string
  | KvSet string string
  | KvDelete string
  | KvScan string string
  | DocInsert string string
  | DocFind string "expr option"
  | DocUpdate string "expr option" "(string \<times> expr) list"
  | DocDelete string "expr option"
  | Begin "isolation_level option"
  | Commit
  | Rollback
  | ShowTables
  | ShowColumns string
  | ShowCreateTable string
  | Describe string
  | Explain statement bool
  | Truncate string
  | CreateDatabase string bool
  | DropDatabase string bool
  | UseDatabase string
  | ShowDatabases
  | Analyze "string option"
  | ShowStats "string option"
  | Backup string
  | Restore string "u64 option"
  | Migrate

section \<open>Printing expressions\<close>

fun dec_digits :: "nat \<Rightarrow> string" where
  "dec_digits n = (if n < 10 then [char_of (48 + n)] else dec_digits (n div 10) @ [char_of (48 + n mod 10)])"

declare dec_digits.simps [simp del]

definition int_to_string :: "u64 \<Rightarrow> string" where
  "int_to_string n = (if sint n < 0 then CHR ''-'' # dec_digits (nat (- sint n)) else dec_digits (nat (sint n)))"

definition upper_hex :: "nat \<Rightarrow> char" where
  "upper_hex n = ''0123456789ABCDEF'' ! n"

definition hex_byte :: "u8 \<Rightarrow> string" where
  "hex_byte b = [upper_hex (unat b div 16), upper_hex (unat b mod 16)]"

definition type_to_string :: "data_type \<Rightarrow> string" where
  "type_to_string t = (case t of
     TBool \<Rightarrow> ''BOOL'' | TInt64 \<Rightarrow> ''INT'' | TFloat64 \<Rightarrow> ''FLOAT'' | TText \<Rightarrow> ''TEXT'' | TBytes \<Rightarrow> ''BYTES'' | TJson \<Rightarrow> ''JSON''
   | TTimestamp \<Rightarrow> ''TIMESTAMP'' | TDate \<Rightarrow> ''DATE'' | TDecimal \<Rightarrow> ''DECIMAL'' | TUuid \<Rightarrow> ''UUID'' | TInterval \<Rightarrow> ''INTERVAL'')"

fun binop_sql :: "bin_op \<Rightarrow> string" where
  "binop_sql BEq = ''=''"
| "binop_sql BNeq = ''<>''"
| "binop_sql BLt = ''<''"
| "binop_sql BGt = ''>''"
| "binop_sql BLte = ''<=''"
| "binop_sql BGte = ''>=''"
| "binop_sql BAnd = ''AND''"
| "binop_sql BOr = ''OR''"
| "binop_sql BPlus = ''+''"
| "binop_sql BMinus = ''-''"
| "binop_sql BMul = ''*''"
| "binop_sql BDiv = ''/''"
| "binop_sql BMod = ''%''"
| "binop_sql BLike = ''LIKE''"
| "binop_sql BIlike = ''ILIKE''"

definition quote_string :: "string \<Rightarrow> string" where
  "quote_string s = [CHR 0x27] @ concat (map (\<lambda>c. if c = CHR 0x27 then [CHR 0x27, CHR 0x27] else [c]) s) @ [CHR 0x27]"

fun write_literal :: "(u64 \<Rightarrow> string) \<Rightarrow> literal_value \<Rightarrow> string" where
  "write_literal fl (LInteger n) = int_to_string n"
| "write_literal fl (LFloat f) = fl f"
| "write_literal fl (LString s) = quote_string s"
| "write_literal fl (LBool b) = (if b then ''TRUE'' else ''FALSE'')"
| "write_literal fl LNull = ''NULL''"
| "write_literal fl (LHexBlob bs) = [CHR ''X'', CHR 0x27] @ concat (map hex_byte bs) @ [CHR 0x27]"

fun comma_join :: "string list \<Rightarrow> string" where
  "comma_join [] = []"
| "comma_join [s] = s"
| "comma_join (s # t # ss) = s @ '', '' @ comma_join (t # ss)"

function (sequential) write_expr :: "(u64 \<Rightarrow> string) \<Rightarrow> expr \<Rightarrow> string" where
  "write_expr fl (Literal l) = write_literal fl l"
| "write_expr fl (Column name) = name"
| "write_expr fl (QualifiedColumn t c) = t @ ''.'' @ c"
| "write_expr fl (BinaryOp l op r) = ''('' @ write_expr fl l @ '' '' @ binop_sql op @ '' '' @ write_expr fl r @ '')''"
| "write_expr fl (UnaryOp op e) = (case op of UNot \<Rightarrow> ''(NOT '' | UNeg \<Rightarrow> ''(-'') @ write_expr fl e @ '')''"
| "write_expr fl (Function name args) = name @ ''('' @ comma_join (map (write_expr fl) args) @ '')''"
| "write_expr fl (IsNull e) = ''('' @ write_expr fl e @ '' IS NULL)''"
| "write_expr fl (IsNotNull e) = ''('' @ write_expr fl e @ '' IS NOT NULL)''"
| "write_expr fl (InList e es) = ''('' @ write_expr fl e @ '' IN ('' @ comma_join (map (write_expr fl) es) @ ''))''"
| "write_expr fl (Between e low high) =
     ''('' @ write_expr fl e @ '' BETWEEN '' @ write_expr fl low @ '' AND '' @ write_expr fl high @ '')''"
| "write_expr fl (Case operand whens els) =
     ''CASE'' @ (case operand of None \<Rightarrow> [] | Some e \<Rightarrow> '' '' @ write_expr fl e) @
     concat (map (\<lambda>(w, t). '' WHEN '' @ write_expr fl w @ '' THEN '' @ write_expr fl t) whens) @
     (case els of None \<Rightarrow> [] | Some e \<Rightarrow> '' ELSE '' @ write_expr fl e) @ '' END''"
| "write_expr fl (Cast e t) = ''CAST('' @ write_expr fl e @ '' AS '' @ type_to_string t @ '')''"
| "write_expr fl (Interval s) = ''INTERVAL '' @ quote_string s"
| "write_expr fl (JsonPath path) = path"
| "write_expr fl e = ''NULL''"
  by pat_completeness auto

lemma size_whens:
  fixes ws :: "(expr \<times> expr) list"
  assumes "(w, t) \<in> set ws"
  shows "size w \<le> size_list (size_prod size size) ws" and "size t \<le> size_list (size_prod size size) ws"
  using size_list_estimation' [OF assms, of "size w" "size_prod size size"] size_list_estimation' [OF assms, of "size t" "size_prod size size"]
  by simp_all

termination write_expr
proof (relation "measure (\<lambda>(fl, e). size e)")
  fix fl :: "u64 \<Rightarrow> string" and operand els :: "expr option" and whens :: "(expr \<times> expr) list" and x and w t :: expr
  assume "x \<in> set whens" and "(w, t) = x"
  then have "(w, t) \<in> set whens" by simp
  from size_whens [OF this] show "((fl, w), fl, Case operand whens els) \<in> measure (\<lambda>(fl, e). size e)"
    and "((fl, t), fl, Case operand whens els) \<in> measure (\<lambda>(fl, e). size e)" by simp_all
qed (auto simp: less_Suc_eq_le intro: size_list_estimation' trans_le_add1 trans_le_add2)

definition expr_to_sql :: "(u64 \<Rightarrow> string) \<Rightarrow> expr \<Rightarrow> string" where
  "expr_to_sql fl e = write_expr fl e"

end
