(* ===== verification/Parser.thy ===== *)
theory Parser
  imports Ast
begin

text \<open>
  The SQL parser, \<open>bytedb-query/src/parser/parser.rs\<close>: recursive descent over the token list. A function that may fail returns its value and the parser after it; a
  failed parser is not used again. The functions that call each other in a cycle, \<open>parse_expr\<close>, \<open>parse_unary\<close> and
  \<open>parse_select_body\<close>, are tied by a bound on the depth of the calls (\<open>expr_n\<close>, \<open>unary_n\<close>, \<open>select_n\<close>); the others
  take them as the argument \<open>k\<close>. Loops carry a bound as well, the number of tokens left. \<open>parse_terminates\<close> shows that no
  bound is ever reached.
\<close>

section \<open>The state of the parser\<close>

record parser =
  tokens :: "token list"
  pos :: nat
  last_data_type_serial :: bool

definition parser_new :: "string \<Rightarrow> parse_error + parser" where
  "parser_new inp = rbind (tokenize inp) (\<lambda>ts. Inr \<lparr>tokens = ts, pos = 0, last_data_type_serial = False\<rparr>)"

definition current :: "parser \<Rightarrow> token" where
  "current p = (if pos p < length (tokens p) then tokens p ! pos p else Eof)"

definition advance :: "parser \<Rightarrow> parser" where
  "advance p = p\<lparr>pos := pos p + 1\<rparr>"

definition remaining :: "parser \<Rightarrow> nat" where
  "remaining p = length (tokens p) - pos p"

definition expect :: "token \<Rightarrow> parser \<Rightarrow> parse_error + parser" where
  "expect t p = (if current p = t then Inr (advance p) else Inl (ExpectedToken t (current p)))"

abbreviation expect_kw :: "keyword \<Rightarrow> parser \<Rightarrow> parse_error + parser" where
  "expect_kw k \<equiv> expect (KW k)"

abbreviation expect_sym :: "symbol \<Rightarrow> parser \<Rightarrow> parse_error + parser" where
  "expect_sym s \<equiv> expect (Sym s)"

abbreviation at_kw :: "keyword \<Rightarrow> parser \<Rightarrow> bool" where
  "at_kw k p \<equiv> current p = KW k"

abbreviation at_sym :: "symbol \<Rightarrow> parser \<Rightarrow> bool" where
  "at_sym s p \<equiv> current p = Sym s"

text \<open>Keywords that are accepted as names.\<close>

definition ident_keyword :: "keyword \<Rightarrow> string option" where
  "ident_keyword k = map_of
     [(''Tables'', ''tables''), (''Columns'', ''columns''), (''Show'', ''show''), (''Index'', ''index''), (''Key'', ''key''), (''Column'', ''column''),
      (''Rows'', ''rows''), (''Row'', ''row''), (''Date'', ''date''), (''Timestamp'', ''timestamp''), (''Text'', ''text''), (''Int'', ''int''),
      (''Float'', ''float''), (''Bool'', ''bool''), (''Uuid'', ''uuid''), (''Json'', ''json''), (''First'', ''first''), (''Last'', ''last''),
      (''Partition'', ''partition''), (''Over'', ''over'')] k"

definition expect_ident :: "parser \<Rightarrow> parse_error + string \<times> parser" where
  "expect_ident p =
     (case current p of
        Ident s \<Rightarrow> Inr (s, advance p)
      | KW k \<Rightarrow> (case ident_keyword k of
                  Some s \<Rightarrow> Inr (s, advance p)
                | None \<Rightarrow> Inl (ExpectedKind ''identifier'' (current p)))
      | _ \<Rightarrow> Inl (ExpectedKind ''identifier'' (current p)))"

definition expect_string :: "parser \<Rightarrow> parse_error + string \<times> parser" where
  "expect_string p =
     (case current p of StringLit s \<Rightarrow> Inr (s, advance p) | _ \<Rightarrow> Inl (ExpectedKind ''string'' (current p)))"

definition expect_integer :: "parser \<Rightarrow> parse_error + u64 \<times> parser" where
  "expect_integer p =
     (case current p of IntLit n \<Rightarrow> Inr (n, advance p) | _ \<Rightarrow> Inl (ExpectedKind ''integer'' (current p)))"

definition at_word :: "string \<Rightarrow> parser \<Rightarrow> bool" where
  "at_word w p \<longleftrightarrow> (case current p of Ident s \<Rightarrow> eq_ignore_ascii_case s w | _ \<Rightarrow> False)"

text \<open>\<open>if self.current() == tok { self.advance(); }\<close>\<close>

definition skip_if :: "token \<Rightarrow> parser \<Rightarrow> parser" where
  "skip_if t p = (if current p = t then advance p else p)"

definition try_parse_alias :: "parser \<Rightarrow> string option \<times> parser" where
  "try_parse_alias p =
     (if at_kw ''As'' p
      then (case expect_ident (advance p) of Inr (s, p1) \<Rightarrow> (Some s, p1) | Inl _ \<Rightarrow> (None, advance p))
      else (case current p of Ident s \<Rightarrow> (Some s, advance p) | _ \<Rightarrow> (None, p)))"

section \<open>Loops\<close>

text \<open>Items separated by commas.\<close>

fun comma_list :: "nat \<Rightarrow> (parser \<Rightarrow> parse_error + 'a \<times> parser) \<Rightarrow> parser \<Rightarrow> parse_error + 'a list \<times> parser" where
  "comma_list 0 item p = Inl NoFuel"
| "comma_list (Suc n) item p =
     rbind (item p) (\<lambda>(x, p1).
       if at_sym SComma p1 then rbind (comma_list n item (advance p1)) (\<lambda>(xs, p2). Inr (x # xs, p2))
       else Inr ([x], p1))"

text \<open>A chain of binary operators of one precedence, grouped to the left.\<close>

fun chain :: "nat \<Rightarrow> (token \<Rightarrow> bin_op option) \<Rightarrow> (parser \<Rightarrow> parse_error + expr \<times> parser) \<Rightarrow> expr \<Rightarrow> parser \<Rightarrow> parse_error + expr \<times> parser" where
  "chain 0 op sub left p = Inl NoFuel"
| "chain (Suc n) op sub left p =
     (case op (current p) of
        None \<Rightarrow> Inr (left, p)
      | Some b \<Rightarrow> rbind (sub (advance p)) (\<lambda>(right, p1). chain n op sub (BinaryOp left b right) p1))"

text \<open>An optional clause introduced by a keyword.\<close>

definition opt_clause :: "keyword \<Rightarrow> (parser \<Rightarrow> parse_error + 'a \<times> parser) \<Rightarrow> parser \<Rightarrow> parse_error + 'a option \<times> parser" where
  "opt_clause kw f p =
     (if at_kw kw p then rbind (f (advance p)) (\<lambda>(x, p1). Inr (Some x, p1)) else Inr (None, p))"

definition parse_ident_list :: "parser \<Rightarrow> parse_error + string list \<times> parser" where
  "parse_ident_list p = comma_list (Suc (remaining p)) expect_ident p"

text \<open>A list of names in parentheses.\<close>

definition paren_idents :: "parser \<Rightarrow> parse_error + string list \<times> parser" where
  "paren_idents p =
     rbind (expect_sym SLParen p) (\<lambda>p1. rbind (parse_ident_list p1) (\<lambda>(cols, p2).
       rbind (expect_sym SRParen p2) (\<lambda>p3. Inr (cols, p3))))"

section \<open>Data types\<close>

definition type_of_keyword :: "keyword \<Rightarrow> data_type option" where
  "type_of_keyword k = map_of
     [(''Int'', TInt64), (''Integer'', TInt64), (''Bigint'', TInt64), (''Smallint'', TInt64), (''Serial'', TInt64), (''Float'', TFloat64), (''Real'', TFloat64),
      (''DoublePrecision'', TFloat64), (''Numeric'', TDecimal), (''Text'', TText), (''Varchar'', TText), (''Bool'', TBool), (''Bytes'', TBytes),
      (''Blob'', TBytes), (''Json'', TJson), (''Timestamp'', TTimestamp), (''Date'', TDate), (''Uuid'', TUuid), (''Interval'', TInterval)] k"

definition type_of_token :: "token \<Rightarrow> data_type option" where
  "type_of_token t = (case t of KW k \<Rightarrow> type_of_keyword k | _ \<Rightarrow> None)"

definition skip_precision :: "data_type \<Rightarrow> parser \<Rightarrow> parser" where
  "skip_precision dt p =
     (if (dt = TFloat64 \<or> dt = TDecimal) \<and> (case current p of Ident s \<Rightarrow> to_uppercase s = ''PRECISION'' | _ \<Rightarrow> False)
      then advance p else p)"

definition parse_data_type :: "parser \<Rightarrow> parse_error + (data_type \<times> nat option) \<times> parser" where
  "parse_data_type p0 =
     (let p = p0\<lparr>last_data_type_serial := at_kw ''Serial'' p0\<rparr>
      in case type_of_token (current p) of
           None \<Rightarrow> Inl (ExpectedKind ''data type'' (current p))
         | Some dt \<Rightarrow>
             let p1 = skip_precision dt (advance p)
             in if at_sym SLParen p1
                then rbind (expect_integer (advance p1)) (\<lambda>(n, p2).
                  rbind (if at_sym SComma p2 then rbind (expect_integer (advance p2)) (\<lambda>(_, p3). Inr p3) else Inr p2) (\<lambda>p4.
                  rbind (expect_sym SRParen p4) (\<lambda>p5.
                    Inr ((dt, if dt = TText \<or> dt = TBytes then Some (unat n) else None), p5))))
                else Inr ((dt, None), p1))"

section \<open>Expressions\<close>

record calls =
  c_expr :: "parser \<Rightarrow> parse_error + expr \<times> parser"
  c_unary :: "parser \<Rightarrow> parse_error + expr \<times> parser"
  c_select :: "parser \<Rightarrow> parse_error + select_stmt \<times> parser"

definition parse_expr_list :: "calls \<Rightarrow> parser \<Rightarrow> parse_error + expr list \<times> parser" where
  "parse_expr_list k p = comma_list (Suc (remaining p)) (c_expr k) p"

definition order_item :: "calls \<Rightarrow> parser \<Rightarrow> parse_error + order_by_expr \<times> parser" where
  "order_item k p =
     rbind (c_expr k p) (\<lambda>(e, p1).
       let asc = \<not> at_kw ''Desc'' p1;
           p2 = (if at_kw ''Desc'' p1 \<or> at_kw ''Asc'' p1 then advance p1 else p1)
       in if at_kw ''Nulls'' p2
          then let p3 = advance p2
               in if at_kw ''First'' p3 then Inr (OrderByExpr e asc (Some True), advance p3)
                  else rbind (expect_kw ''Last'' p3) (\<lambda>p4. Inr (OrderByExpr e asc (Some False), p4))
          else Inr (OrderByExpr e asc None, p2))"

definition parse_order_by :: "calls \<Rightarrow> parser \<Rightarrow> parse_error + order_by_expr list \<times> parser" where
  "parse_order_by k p = comma_list (Suc (remaining p)) (order_item k) p"

text \<open>A query after the keyword \<open>SELECT\<close>, up to the closing parenthesis.\<close>

definition sub_select :: "calls \<Rightarrow> parser \<Rightarrow> parse_error + select_stmt \<times> parser" where
  "sub_select k p =
     rbind (expect_kw ''Select'' p) (\<lambda>p1. rbind (c_select k p1) (\<lambda>(s, p2).
       rbind (expect_sym SRParen p2) (\<lambda>p3. Inr (s, p3))))"

fun when_loop :: "nat \<Rightarrow> calls \<Rightarrow> parser \<Rightarrow> parse_error + (expr \<times> expr) list \<times> parser" where
  "when_loop 0 k p = Inl NoFuel"
| "when_loop (Suc n) k p =
     (if at_kw ''When'' p
      then rbind (c_expr k (advance p)) (\<lambda>(condition, p1). rbind (expect_kw ''Then'' p1) (\<lambda>p2. rbind (c_expr k p2) (\<lambda>(res, p3).
             rbind (when_loop n k p3) (\<lambda>(ws, p4). Inr ((condition, res) # ws, p4)))))
      else Inr ([], p))"

definition parse_case :: "calls \<Rightarrow> parser \<Rightarrow> parse_error + expr \<times> parser" where
  "parse_case k p =
     rbind (if at_kw ''When'' p then Inr (None, p) else rbind (c_expr k p) (\<lambda>(e, p1). Inr (Some e, p1))) (\<lambda>(operand, p1).
     rbind (when_loop (Suc (remaining p1)) k p1) (\<lambda>(whens, p2).
     rbind (opt_clause ''Else'' (c_expr k) p2) (\<lambda>(els, p3).
     rbind (expect_kw ''End'' p3) (\<lambda>p4. Inr (Case operand whens els, p4)))))"

definition parse_cast :: "calls \<Rightarrow> parser \<Rightarrow> parse_error + expr \<times> parser" where
  "parse_cast k p =
     rbind (expect_sym SLParen p) (\<lambda>p1. rbind (c_expr k p1) (\<lambda>(e, p2). rbind (expect_kw ''As'' p2) (\<lambda>p3.
     rbind (parse_data_type p3) (\<lambda>((dt, _), p4). rbind (expect_sym SRParen p4) (\<lambda>p5. Inr (Cast e dt, p5))))))"

definition parse_exists :: "calls \<Rightarrow> parser \<Rightarrow> parse_error + expr \<times> parser" where
  "parse_exists k p = rbind (expect_sym SLParen p) (\<lambda>p1. rbind (sub_select k p1) (\<lambda>(s, p2). Inr (Exists s, p2)))"

definition call_args :: "calls \<Rightarrow> string \<Rightarrow> parser \<Rightarrow> parse_error + (string \<times> expr list) \<times> parser" where
  "call_args k name p =
     (if at_sym SRParen p then Inr ((name, []), p)
      else if at_sym SStar p then Inr ((name, [Column ''*'']), advance p)
      else if at_kw ''Distinct'' p
      then rbind (parse_expr_list k (advance p)) (\<lambda>(args, p1). Inr ((to_uppercase name @ ''_DISTINCT'', args), p1))
      else rbind (parse_expr_list k p) (\<lambda>(args, p1). Inr ((name, args), p1)))"

text \<open>\<open>BY\<close> and a list, after \<open>PARTITION\<close>, \<open>ORDER\<close> or \<open>GROUP\<close>.\<close>

definition by_list :: "keyword \<Rightarrow> (parser \<Rightarrow> parse_error + 'a list \<times> parser) \<Rightarrow> parser \<Rightarrow> parse_error + 'a list \<times> parser" where
  "by_list kw f p =
     (if at_kw kw p then rbind (expect_kw ''By'' (advance p)) f else Inr ([], p))"

definition parse_over :: "calls \<Rightarrow> string \<Rightarrow> expr list \<Rightarrow> parser \<Rightarrow> parse_error + expr \<times> parser" where
  "parse_over k name args p =
     rbind (expect_sym SLParen p) (\<lambda>p1. rbind (by_list ''Partition'' (parse_expr_list k) p1) (\<lambda>(pb, p2).
     rbind (by_list ''Order'' (parse_order_by k) p2) (\<lambda>(ob, p3). rbind (expect_sym SRParen p3) (\<lambda>p4.
       Inr (WindowFunction name args pb ob, p4)))))"

definition parse_name :: "calls \<Rightarrow> string \<Rightarrow> parser \<Rightarrow> parse_error + expr \<times> parser" where
  "parse_name k name p =
     (if at_sym SLParen p
      then rbind (call_args k name (advance p)) (\<lambda>((func_name, args), p1). rbind (expect_sym SRParen p1) (\<lambda>p2.
             if at_kw ''Over'' p2 then parse_over k func_name args (advance p2)
             else Inr (Function func_name args, p2)))
      else if at_sym SDot p
      then rbind (expect_ident (advance p)) (\<lambda>(col, p1). Inr (QualifiedColumn name col, p1))
      else Inr (Column name, p))"

definition parse_paren :: "calls \<Rightarrow> parser \<Rightarrow> parse_error + expr \<times> parser" where
  "parse_paren k p =
     (if at_kw ''Select'' p then rbind (sub_select k p) (\<lambda>(s, p1). Inr (Subquery s, p1))
      else rbind (c_expr k p) (\<lambda>(e, p1). rbind (expect_sym SRParen p1) (\<lambda>p2. Inr (e, p2))))"

text \<open>The expression at the current token, before the casts behind it.\<close>

definition primary_head :: "calls \<Rightarrow> parser \<Rightarrow> parse_error + expr \<times> parser" where
  "primary_head k p =
     (let p1 = advance p
      in case current p of
           IntLit n \<Rightarrow> Inr (Literal (LInteger n), p1)
         | FloatLit f \<Rightarrow> Inr (Literal (LFloat f), p1)
         | StringLit s \<Rightarrow> Inr (Literal (LString s), p1)
         | BoolLit b \<Rightarrow> Inr (Literal (LBool b), p1)
         | NullLit \<Rightarrow> Inr (Literal LNull, p1)
         | HexBlob bs \<Rightarrow> Inr (Literal (LHexBlob bs), p1)
         | Ident name \<Rightarrow> parse_name k name p1
         | Sym s \<Rightarrow>
             if s = SDollarDot then rbind (expect_ident p1) (\<lambda>(path, p2). Inr (JsonPath path, p2))
             else if s = SLParen then parse_paren k p1
             else Inl (UnexpectedToken (current p))
         | KW kw \<Rightarrow>
             if kw = ''Interval''
             then (case current p1 of
                     StringLit s \<Rightarrow> Inr (Interval s, advance p1)
                   | _ \<Rightarrow> Inl (Parse ''Expected string literal after INTERVAL''))
             else if kw = ''Case'' then parse_case k p1
             else if kw = ''Cast'' then parse_cast k p1
             else if kw = ''Exists'' then parse_exists k p1
             else if kw = ''Not''
             then if at_kw ''Exists'' p1 then rbind (parse_exists k (advance p1)) (\<lambda>(e, p2). Inr (UnaryOp UNot e, p2))
                  else rbind (c_unary k p1) (\<lambda>(e, p2). Inr (UnaryOp UNot e, p2))
             else if kw = ''Default'' then Inr (DefaultExpr, p1)
             else Inl (UnexpectedToken (current p))
         | Eof \<Rightarrow> Inl (UnexpectedToken (current p)))"

fun cast_loop :: "nat \<Rightarrow> expr \<Rightarrow> parser \<Rightarrow> parse_error + expr \<times> parser" where
  "cast_loop 0 e p = Inl NoFuel"
| "cast_loop (Suc n) e p =
     (if at_sym SDoubleColon p
      then rbind (parse_data_type (advance p)) (\<lambda>((dt, _), p1). cast_loop n (Cast e dt) p1)
      else Inr (e, p))"

definition parse_primary :: "calls \<Rightarrow> parser \<Rightarrow> parse_error + expr \<times> parser" where
  "parse_primary k p = rbind (primary_head k p) (\<lambda>(e, p1). cast_loop (Suc (remaining p1)) e p1)"

definition negate_expr :: "expr \<Rightarrow> expr" where
  "negate_expr e =
     (case e of
        Literal (LInteger n) \<Rightarrow> Literal (LInteger (- n))
      | Literal (LFloat f) \<Rightarrow> Literal (LFloat (f XOR push_bit 63 1))
      | _ \<Rightarrow> UnaryOp UNeg e)"

definition parse_unary :: "calls \<Rightarrow> parser \<Rightarrow> parse_error + expr \<times> parser" where
  "parse_unary k p =
     (if at_kw ''Not'' p then rbind (c_unary k (advance p)) (\<lambda>(e, p1). Inr (UnaryOp UNot e, p1))
      else if at_sym SMinus p then rbind (c_unary k (advance p)) (\<lambda>(e, p1). Inr (negate_expr e, p1))
      else parse_primary k p)"

definition mul_op :: "token \<Rightarrow> bin_op option" where
  "mul_op t = map_of [(Sym SStar, BMul), (Sym SSlash, BDiv), (Sym SPercent, BMod)] t"

definition parse_multiplication :: "calls \<Rightarrow> parser \<Rightarrow> parse_error + expr \<times> parser" where
  "parse_multiplication k p =
     rbind (parse_unary k p) (\<lambda>(left, p1). chain (Suc (remaining p1)) mul_op (parse_unary k) left p1)"

definition add_op :: "token \<Rightarrow> bin_op option" where
  "add_op t = map_of [(Sym SPlus, BPlus), (Sym SMinus, BMinus)] t"

definition parse_addition :: "calls \<Rightarrow> parser \<Rightarrow> parse_error + expr \<times> parser" where
  "parse_addition k p =
     rbind (parse_multiplication k p) (\<lambda>(left, p1). chain (Suc (remaining p1)) add_op (parse_multiplication k) left p1)"

definition cmp_op :: "token \<Rightarrow> bin_op option" where
  "cmp_op t = map_of [(Sym SEq, BEq), (Sym SNeq, BNeq), (Sym SLt, BLt), (Sym SGt, BGt), (Sym SLte, BLte), (Sym SGte, BGte),
     (KW ''Like'', BLike), (KW ''Ilike'', BIlike)] t"

text \<open>The part after \<open>IN\<close>, applied to the expression before it.\<close>

definition parse_in :: "calls \<Rightarrow> expr \<Rightarrow> parser \<Rightarrow> parse_error + expr \<times> parser" where
  "parse_in k left p =
     rbind (expect_sym SLParen p) (\<lambda>p1.
       if at_kw ''Select'' p1 then rbind (sub_select k p1) (\<lambda>(s, p2). Inr (InSubquery left s, p2))
       else rbind (parse_expr_list k p1) (\<lambda>(es, p2). rbind (expect_sym SRParen p2) (\<lambda>p3. Inr (InList left es, p3))))"

definition parse_between :: "calls \<Rightarrow> expr \<Rightarrow> parser \<Rightarrow> parse_error + expr \<times> parser" where
  "parse_between k left p =
     rbind (parse_addition k p) (\<lambda>(low, p1). rbind (expect_kw ''And'' p1) (\<lambda>p2. rbind (parse_addition k p2) (\<lambda>(high, p3).
       Inr (Between left low high, p3))))"

definition parse_is :: "expr \<Rightarrow> parser \<Rightarrow> parse_error + expr \<times> parser" where
  "parse_is left p =
     (if at_kw ''Not'' p then rbind (expect NullLit (advance p)) (\<lambda>p1. Inr (IsNotNull left, p1))
      else rbind (expect NullLit p) (\<lambda>p1. Inr (IsNull left, p1)))"

definition parse_not :: "calls \<Rightarrow> expr \<Rightarrow> parser \<Rightarrow> parse_error + expr \<times> parser" where
  "parse_not k left p =
     rbind
       (if at_kw ''In'' p then parse_in k left (advance p)
        else if at_kw ''Between'' p then parse_between k left (advance p)
        else if at_kw ''Like'' p \<or> at_kw ''Ilike'' p
        then rbind (parse_addition k (advance p)) (\<lambda>(right, p1).
               Inr (BinaryOp left (if at_kw ''Ilike'' p then BIlike else BLike) right, p1))
        else Inl (Parse ''Expected IN, BETWEEN, or LIKE after NOT''))
       (\<lambda>(e, p1). Inr (UnaryOp UNot e, p1))"

text \<open>One round of the comparison loop; \<open>None\<close> when the loop ends.\<close>

definition comparison_step :: "calls \<Rightarrow> expr \<Rightarrow> parser \<Rightarrow> (parse_error + expr \<times> parser) option" where
  "comparison_step k left p =
     (case cmp_op (current p) of
        Some op \<Rightarrow> Some (rbind (parse_addition k (advance p)) (\<lambda>(right, p1). Inr (BinaryOp left op right, p1)))
      | None \<Rightarrow>
          if at_kw ''Is'' p then Some (parse_is left (advance p))
          else if at_kw ''Not'' p then Some (parse_not k left (advance p))
          else if at_kw ''In'' p then Some (parse_in k left (advance p))
          else if at_kw ''Between'' p then Some (parse_between k left (advance p))
          else None)"

fun comparison_loop :: "nat \<Rightarrow> calls \<Rightarrow> expr \<Rightarrow> parser \<Rightarrow> parse_error + expr \<times> parser" where
  "comparison_loop 0 k left p = Inl NoFuel"
| "comparison_loop (Suc n) k left p =
     (case comparison_step k left p of
        None \<Rightarrow> Inr (left, p)
      | Some r \<Rightarrow> rbind r (\<lambda>(e, p1). comparison_loop n k e p1))"

definition parse_comparison :: "calls \<Rightarrow> parser \<Rightarrow> parse_error + expr \<times> parser" where
  "parse_comparison k p = rbind (parse_addition k p) (\<lambda>(left, p1). comparison_loop (Suc (remaining p1)) k left p1)"

definition and_op :: "token \<Rightarrow> bin_op option" where
  "and_op t = (if t = KW ''And'' then Some BAnd else None)"

definition parse_and_expr :: "calls \<Rightarrow> parser \<Rightarrow> parse_error + expr \<times> parser" where
  "parse_and_expr k p =
     rbind (parse_comparison k p) (\<lambda>(left, p1). chain (Suc (remaining p1)) and_op (parse_comparison k) left p1)"

definition or_op :: "token \<Rightarrow> bin_op option" where
  "or_op t = (if t = KW ''Or'' then Some BOr else None)"

definition parse_or_expr :: "calls \<Rightarrow> parser \<Rightarrow> parse_error + expr \<times> parser" where
  "parse_or_expr k p =
     rbind (parse_and_expr k p) (\<lambda>(left, p1). chain (Suc (remaining p1)) or_op (parse_and_expr k) left p1)"

section \<open>Queries\<close>

definition select_item :: "calls \<Rightarrow> parser \<Rightarrow> parse_error + select_column \<times> parser" where
  "select_item k p =
     rbind (c_expr k p) (\<lambda>(e, p1). rbind (opt_clause ''As'' expect_ident p1) (\<lambda>(alias, p2). Inr (ExprColumn e alias, p2)))"

definition parse_select_columns :: "calls \<Rightarrow> parser \<Rightarrow> parse_error + select_column list \<times> parser" where
  "parse_select_columns k p =
     (if at_sym SStar p then Inr ([StarColumn], advance p) else comma_list (Suc (remaining p)) (select_item k) p)"

definition parse_from_clause :: "calls \<Rightarrow> parser \<Rightarrow> parse_error + (from_clause \<times> string option) \<times> parser" where
  "parse_from_clause k p =
     (if at_sym SLParen p
      then rbind (sub_select k (advance p)) (\<lambda>(s, p1).
             case try_parse_alias p1 of (alias, p2) \<Rightarrow> Inr ((FromSubquery s, alias), p2))
      else rbind (expect_ident p) (\<lambda>(table, p1).
           rbind (if at_sym SDot p1
                  then rbind (expect_ident (advance p1)) (\<lambda>(sub, p2). Inr (table @ ''.'' @ sub, p2))
                  else Inr (table, p1)) (\<lambda>(name, p3).
             case try_parse_alias p3 of (alias, p4) \<Rightarrow> Inr ((FromTable name, alias), p4))))"

definition join_kind :: "parser \<Rightarrow> parse_error + join_type \<times> parser" where
  "join_kind p =
     (let word = (\<lambda>t. rbind (expect_kw ''Join'' (advance p)) (\<lambda>p1. Inr (t, p1)))
      in if at_kw ''Inner'' p then word JInner
         else if at_kw ''Left'' p then word JLeft
         else if at_kw ''Right'' p then word JRight
         else if at_kw ''Join'' p then Inr (JInner, advance p)
         else Inl (Parse ''Expected JOIN''))"

definition parse_join :: "calls \<Rightarrow> parser \<Rightarrow> parse_error + join_clause \<times> parser" where
  "parse_join k p =
     rbind (join_kind p) (\<lambda>(jt, p1). rbind (expect_ident p1) (\<lambda>(table, p2).
       case (if at_kw ''On'' p2 then (None, p2) else try_parse_alias p2) of (alias, p3) \<Rightarrow>
         rbind (expect_kw ''On'' p3) (\<lambda>p4. rbind (c_expr k p4) (\<lambda>(condition, p5).
           Inr (JoinClause jt table alias condition, p5)))))"

fun join_loop :: "nat \<Rightarrow> calls \<Rightarrow> parser \<Rightarrow> parse_error + join_clause list \<times> parser" where
  "join_loop 0 k p = Inl NoFuel"
| "join_loop (Suc n) k p =
     (if at_kw ''Join'' p \<or> at_kw ''Inner'' p \<or> at_kw ''Left'' p \<or> at_kw ''Right'' p
      then rbind (parse_join k p) (\<lambda>(j, p1). rbind (join_loop n k p1) (\<lambda>(js, p2). Inr (j # js, p2)))
      else Inr ([], p))"

definition count_clause :: "parser \<Rightarrow> parse_error + nat \<times> parser" where
  "count_clause p = rbind (expect_integer p) (\<lambda>(n, p1). Inr (unat n, p1))"

definition parse_select_body :: "calls \<Rightarrow> parser \<Rightarrow> parse_error + select_stmt \<times> parser" where
  "parse_select_body k p =
     rbind (parse_select_columns k (skip_if (KW ''Distinct'') p)) (\<lambda>(columns, p1).
     rbind (if at_kw ''From'' p1 then parse_from_clause k (advance p1) else Inr ((FromNone, None), p1)) (\<lambda>((from, alias), p2).
     rbind (join_loop (Suc (remaining p2)) k p2) (\<lambda>(joins, p3).
     rbind (opt_clause ''Where'' (c_expr k) p3) (\<lambda>(wh, p4).
     rbind (by_list ''Group'' (parse_expr_list k) p4) (\<lambda>(group_by, p5).
     rbind (opt_clause ''Having'' (c_expr k) p5) (\<lambda>(having, p6).
     rbind (by_list ''Order'' (parse_order_by k) p6) (\<lambda>(order_by, p7).
     rbind (opt_clause ''Limit'' count_clause p7) (\<lambda>(limit, p8).
     rbind (opt_clause ''Offset'' count_clause p8) (\<lambda>(offset, p9).
       Inr (SelectStmt columns (at_kw ''Distinct'' p) from alias joins wh group_by having order_by limit offset [], p9))))))))))"

text \<open>The functions that call each other, by the depth of the calls.\<close>

fun expr_n :: "nat \<Rightarrow> parser \<Rightarrow> parse_error + expr \<times> parser"
  and unary_n :: "nat \<Rightarrow> parser \<Rightarrow> parse_error + expr \<times> parser"
  and select_n :: "nat \<Rightarrow> parser \<Rightarrow> parse_error + select_stmt \<times> parser" where
  "expr_n 0 p = Inl NoFuel"
| "expr_n (Suc n) p = parse_or_expr \<lparr>c_expr = expr_n n, c_unary = unary_n n, c_select = select_n n\<rparr> p"
| "unary_n 0 p = Inl NoFuel"
| "unary_n (Suc n) p = parse_unary \<lparr>c_expr = expr_n n, c_unary = unary_n n, c_select = select_n n\<rparr> p"
| "select_n 0 p = Inl NoFuel"
| "select_n (Suc n) p = parse_select_body \<lparr>c_expr = expr_n n, c_unary = unary_n n, c_select = select_n n\<rparr> p"

definition calls_n :: "nat \<Rightarrow> calls" where
  "calls_n m = \<lparr>c_expr = expr_n m, c_unary = unary_n m, c_select = select_n m\<rparr>"

text \<open>The bound: every second call at least consumes a token.\<close>

definition depth :: "parser \<Rightarrow> nat" where
  "depth p = 2 * remaining p + 2"

definition parse_expr :: "parser \<Rightarrow> parse_error + expr \<times> parser" where
  "parse_expr p = expr_n (depth p) p"

definition select_body :: "parser \<Rightarrow> parse_error + select_stmt \<times> parser" where
  "select_body p = select_n (depth p) p"

definition calls_at :: "parser \<Rightarrow> calls" where
  "calls_at p = \<lparr>c_expr = expr_n (depth p), c_unary = unary_n (depth p), c_select = select_n (depth p)\<rparr>"

definition parse_expression :: "string \<Rightarrow> parse_error + expr" where
  "parse_expression inp = rbind (parser_new inp) (\<lambda>p. rbind (parse_expr p) (\<lambda>(e, _). Inr e))"

section \<open>Statements\<close>

definition parse_select :: "parser \<Rightarrow> parse_error + statement \<times> parser" where
  "parse_select p = rbind (expect_kw ''Select'' p) (\<lambda>p1. rbind (select_body p1) (\<lambda>(s, p2). Inr (Select s, p2)))"

definition parse_cte :: "parser \<Rightarrow> parse_error + cte \<times> parser" where
  "parse_cte p =
     rbind (expect_ident p) (\<lambda>(name, p1). rbind (expect_kw ''As'' p1) (\<lambda>p2. rbind (expect_sym SLParen p2) (\<lambda>p3.
     rbind (sub_select (calls_at p3) p3) (\<lambda>(query, p4). Inr (Cte name query, p4)))))"

definition with_ctes :: "cte list \<Rightarrow> select_stmt \<Rightarrow> select_stmt" where
  "with_ctes cs s =
     SelectStmt (s_columns s) (s_distinct s) (s_from s) (s_from_alias s) (s_joins s) (s_where s) (s_group_by s) (s_having s)
       (s_order_by s) (s_limit s) (s_offset s) cs"

definition parse_with :: "parser \<Rightarrow> parse_error + statement \<times> parser" where
  "parse_with p =
     rbind (expect_kw ''With'' p) (\<lambda>p1. let p2 = skip_if (KW ''Recursive'') p1 in
     rbind (comma_list (Suc (remaining p2)) parse_cte p2) (\<lambda>(ctes, p3). rbind (expect_kw ''Select'' p3) (\<lambda>p4.
     rbind (select_body p4) (\<lambda>(s, p5). Inr (Select (with_ctes ctes s), p5)))))"

definition parse_returning :: "parser \<Rightarrow> parse_error + select_column list option \<times> parser" where
  "parse_returning p = opt_clause ''Returning'' (\<lambda>p1. parse_select_columns (calls_at p1) p1) p"

definition assignment :: "parser \<Rightarrow> parse_error + (string \<times> expr) \<times> parser" where
  "assignment p =
     rbind (expect_ident p) (\<lambda>(col, p1). rbind (expect_sym SEq p1) (\<lambda>p2. rbind (parse_expr p2) (\<lambda>(e, p3). Inr ((col, e), p3))))"

definition assignments :: "parser \<Rightarrow> parse_error + (string \<times> expr) list \<times> parser" where
  "assignments p = comma_list (Suc (remaining p)) assignment p"

definition value_row :: "parser \<Rightarrow> parse_error + expr list \<times> parser" where
  "value_row p =
     rbind (expect_sym SLParen p) (\<lambda>p1. rbind (parse_expr_list (calls_at p1) p1) (\<lambda>(row, p2).
     rbind (expect_sym SRParen p2) (\<lambda>p3. Inr (row, p3))))"

definition parse_insert_source :: "parser \<Rightarrow> parse_error + insert_source \<times> parser" where
  "parse_insert_source p =
     (if at_kw ''Select'' p then rbind (select_body (advance p)) (\<lambda>(s, p1). Inr (SelectSource s, p1))
      else rbind (expect_kw ''Values'' p) (\<lambda>p1. rbind (comma_list (Suc (remaining p1)) value_row p1) (\<lambda>(rows, p2).
        Inr (ValuesSource rows, p2))))"

definition parse_on_conflict :: "parser \<Rightarrow> parse_error + on_conflict \<times> parser" where
  "parse_on_conflict p =
     rbind (expect_kw ''Conflict'' p) (\<lambda>p1. rbind (paren_idents p1) (\<lambda>(cols, p2). rbind (expect_kw ''Do'' p2) (\<lambda>p3.
       rbind (if at_kw ''Nothing'' p3 then Inr (DoNothing, advance p3)
              else rbind (expect_kw ''Update'' p3) (\<lambda>p4. rbind (expect_kw ''Set'' p4) (\<lambda>p5.
                     rbind (assignments p5) (\<lambda>(as, p6). Inr (DoUpdate as, p6))))) (\<lambda>(action, p7).
         Inr (\<lparr>oc_columns = cols, oc_action = action\<rparr>, p7)))))"

definition parse_insert :: "parser \<Rightarrow> parse_error + statement \<times> parser" where
  "parse_insert p =
     rbind (expect_kw ''Insert'' p) (\<lambda>p1. rbind (expect_kw ''Into'' p1) (\<lambda>p2. rbind (expect_ident p2) (\<lambda>(table, p3).
     rbind (if at_sym SLParen p3 then rbind (paren_idents p3) (\<lambda>(cols, p4). Inr (Some cols, p4)) else Inr (None, p3)) (\<lambda>(columns, p5).
     rbind (parse_insert_source p5) (\<lambda>(source, p6). rbind (opt_clause ''On'' parse_on_conflict p6) (\<lambda>(conflict, p7).
     rbind (parse_returning p7) (\<lambda>(returning, p8).
       Inr (Insert \<lparr>i_table = table, i_columns = columns, i_source = source, i_on_conflict = conflict, i_returning = returning\<rparr>, p8))))))))"

definition parse_update :: "parser \<Rightarrow> parse_error + statement \<times> parser" where
  "parse_update p =
     rbind (expect_kw ''Update'' p) (\<lambda>p1. rbind (expect_ident p1) (\<lambda>(table, p2). rbind (expect_kw ''Set'' p2) (\<lambda>p3.
     rbind (assignments p3) (\<lambda>(as, p4). rbind (opt_clause ''Where'' parse_expr p4) (\<lambda>(wh, p5). rbind (parse_returning p5) (\<lambda>(returning, p6).
       Inr (Update \<lparr>u_table = table, u_assignments = as, u_where = wh, u_returning = returning\<rparr>, p6)))))))"

definition parse_delete :: "parser \<Rightarrow> parse_error + statement \<times> parser" where
  "parse_delete p =
     rbind (expect_kw ''Delete'' p) (\<lambda>p1. rbind (expect_kw ''From'' p1) (\<lambda>p2. rbind (expect_ident p2) (\<lambda>(table, p3).
     rbind (opt_clause ''Where'' parse_expr p3) (\<lambda>(wh, p4). rbind (parse_returning p4) (\<lambda>(returning, p5).
       Inr (Delete \<lparr>d_table = table, d_where = wh, d_returning = returning\<rparr>, p5))))))"

subsection \<open>Definitions of tables\<close>

definition parse_fk_action :: "parser \<Rightarrow> parse_error + ast_fk_action \<times> parser" where
  "parse_fk_action p =
     (if at_kw ''Cascade'' p then Inr (FkCascade, advance p)
      else if at_kw ''Restrict'' p then Inr (FkRestrict, advance p)
      else if at_kw ''Set'' p
      then if current (advance p) = NullLit then Inr (FkSetNull, advance (advance p)) else Inl (Parse ''Expected NULL after SET'')
      else if at_word ''NO'' p
      then if at_word ''ACTION'' (advance p) then Inr (FkRestrict, advance (advance p)) else Inl (Parse ''Expected ACTION after NO'')
      else Inl (ExpectedKind ''CASCADE/RESTRICT/SET NULL'' (current p)))"

fun fk_actions_loop :: "nat \<Rightarrow> ast_fk_action \<Rightarrow> ast_fk_action \<Rightarrow> parser \<Rightarrow> parse_error + (ast_fk_action \<times> ast_fk_action) \<times> parser" where
  "fk_actions_loop 0 on_delete on_update p = Inl NoFuel"
| "fk_actions_loop (Suc n) on_delete on_update p =
     (if \<not> at_kw ''On'' p then Inr ((on_delete, on_update), p)
      else
        let p1 = advance p
        in if at_kw ''Delete'' p1 then rbind (parse_fk_action (advance p1)) (\<lambda>(a, p2). fk_actions_loop n a on_update p2)
           else if at_kw ''Update'' p1 then rbind (parse_fk_action (advance p1)) (\<lambda>(a, p2). fk_actions_loop n on_delete a p2)
           else Inl (Parse ''Expected DELETE or UPDATE after ON''))"

definition parse_fk_actions :: "parser \<Rightarrow> parse_error + (ast_fk_action \<times> ast_fk_action) \<times> parser" where
  "parse_fk_actions p = fk_actions_loop (Suc (remaining p)) FkRestrict FkRestrict p"

definition parse_if_not_exists :: "parser \<Rightarrow> parse_error + bool \<times> parser" where
  "parse_if_not_exists p =
     (if at_kw ''If'' p
      then rbind (expect_kw ''Not'' (advance p)) (\<lambda>p1. rbind (expect_kw ''Exists'' p1) (\<lambda>p2. Inr (True, p2)))
      else Inr (False, p))"

definition parse_if_exists :: "parser \<Rightarrow> parse_error + bool \<times> parser" where
  "parse_if_exists p =
     (if at_kw ''If'' p then rbind (expect_kw ''Exists'' (advance p)) (\<lambda>p1. Inr (True, p1)) else Inr (False, p))"

text \<open>The local variables of \<open>parse_create_table\<close>.\<close>

record table_items =
  ti_columns :: "column_def list"
  ti_checks :: "expr list"
  ti_fks :: "foreign_key_def list"
  ti_pk :: "string list"
  ti_unique :: "string list"

definition parse_check :: "parser \<Rightarrow> parse_error + expr \<times> parser" where
  "parse_check p =
     rbind (expect_sym SLParen p) (\<lambda>p1. rbind (parse_expr p1) (\<lambda>(e, p2). rbind (expect_sym SRParen p2) (\<lambda>p3. Inr (e, p3))))"

definition parse_foreign_key :: "parser \<Rightarrow> parse_error + foreign_key_def \<times> parser" where
  "parse_foreign_key p =
     rbind (expect_kw ''Key'' p) (\<lambda>p1. rbind (paren_idents p1) (\<lambda>(cols, p2).
       if \<not> at_word ''REFERENCES'' p2 then Inl (Parse ''Expected REFERENCES'')
       else rbind (expect_ident (advance p2)) (\<lambda>(ref_table, p3). rbind (paren_idents p3) (\<lambda>(ref_cols, p4).
            rbind (parse_fk_actions p4) (\<lambda>((od, ou), p5).
              Inr (\<lparr>fk_columns = cols, fk_ref_table = ref_table, fk_ref_columns = ref_cols, fk_on_delete = od, fk_on_update = ou\<rparr>, p5))))))"

definition at_constraint :: "parser \<Rightarrow> bool" where
  "at_constraint p \<longleftrightarrow> at_kw ''Unique'' p \<or> at_kw ''Primary'' p \<or> at_word ''CHECK'' p \<or> at_word ''CONSTRAINT'' p \<or> at_word ''FOREIGN'' p"

definition parse_constraint :: "table_items \<Rightarrow> parser \<Rightarrow> parse_error + table_items \<times> parser" where
  "parse_constraint ti p0 =
     rbind (if at_word ''CONSTRAINT'' p0 then rbind (expect_ident (advance p0)) (\<lambda>(_, p1). Inr p1) else Inr p0) (\<lambda>p.
       if at_word ''CHECK'' p then rbind (parse_check (advance p)) (\<lambda>(e, p1). Inr (ti\<lparr>ti_checks := ti_checks ti @ [e]\<rparr>, p1))
       else if at_word ''FOREIGN'' p
       then rbind (parse_foreign_key (advance p)) (\<lambda>(fk, p1). Inr (ti\<lparr>ti_fks := ti_fks ti @ [fk]\<rparr>, p1))
       else if at_kw ''Primary'' p
       then rbind (expect_kw ''Key'' (advance p)) (\<lambda>p1. rbind (paren_idents p1) (\<lambda>(cols, p2). Inr (ti\<lparr>ti_pk := cols\<rparr>, p2)))
       else if at_kw ''Unique'' p
       then rbind (paren_idents (advance p)) (\<lambda>(cols, p1). Inr (ti\<lparr>ti_unique := ti_unique ti @ cols\<rparr>, p1))
       else Inl (UnexpectedToken (current p)))"

definition new_column :: "string \<Rightarrow> data_type \<Rightarrow> nat option \<Rightarrow> column_def" where
  "new_column name dt len =
     \<lparr>cd_name = name, cd_data_type = dt, cd_max_length = len, cd_nullable = True, cd_primary_key = False, cd_unique = False,
      cd_auto_increment = False, cd_default = None, cd_check = None, cd_references = None, cd_on_delete = FkRestrict, cd_on_update = FkRestrict\<rparr>"

definition parse_references :: "column_def \<Rightarrow> parser \<Rightarrow> parse_error + column_def \<times> parser" where
  "parse_references c p =
     rbind (expect_ident p) (\<lambda>(ref_table, p1).
     rbind (if at_sym SLParen p1
            then rbind (expect_ident (advance p1)) (\<lambda>(col, p2). rbind (expect_sym SRParen p2) (\<lambda>p3. Inr (col, p3)))
            else Inr (''id'', p1)) (\<lambda>(ref_col, p4).
     rbind (parse_fk_actions p4) (\<lambda>((od, ou), p5).
       Inr (c\<lparr>cd_references := Some (ref_table, ref_col), cd_on_delete := od, cd_on_update := ou\<rparr>, p5))))"

text \<open>One column constraint; \<open>None\<close> when there is none.\<close>

definition column_option :: "column_def \<Rightarrow> parser \<Rightarrow> (parse_error + column_def \<times> parser) option" where
  "column_option c p =
     (if at_kw ''Not'' p then Some (rbind (expect NullLit (advance p)) (\<lambda>p1. Inr (c\<lparr>cd_nullable := False\<rparr>, p1)))
      else if at_kw ''Primary'' p
      then Some (rbind (expect_kw ''Key'' (advance p)) (\<lambda>p1. Inr (c\<lparr>cd_primary_key := True, cd_nullable := False\<rparr>, p1)))
      else if at_kw ''Unique'' p then Some (Inr (c\<lparr>cd_unique := True\<rparr>, advance p))
      else if at_kw ''Default'' p
      then Some (rbind (parse_primary (calls_at (advance p)) (advance p)) (\<lambda>(e, p1). Inr (c\<lparr>cd_default := Some e\<rparr>, p1)))
      else if at_word ''CHECK'' p then Some (rbind (parse_check (advance p)) (\<lambda>(e, p1). Inr (c\<lparr>cd_check := Some e\<rparr>, p1)))
      else if at_word ''REFERENCES'' p then Some (parse_references c (advance p))
      else None)"

fun column_options :: "nat \<Rightarrow> column_def \<Rightarrow> parser \<Rightarrow> parse_error + column_def \<times> parser" where
  "column_options 0 c p = Inl NoFuel"
| "column_options (Suc n) c p =
     (case column_option c p of None \<Rightarrow> Inr (c, p) | Some r \<Rightarrow> rbind r (\<lambda>(c1, p1). column_options n c1 p1))"

definition parse_column :: "parser \<Rightarrow> parse_error + column_def \<times> parser" where
  "parse_column p =
     rbind (expect_ident p) (\<lambda>(name, p1). rbind (parse_data_type p1) (\<lambda>((dt, len), p2).
     rbind (column_options (Suc (remaining p2)) (new_column name dt len) p2) (\<lambda>(c, p3).
       Inr (if last_data_type_serial p3
            then c\<lparr>cd_auto_increment := True, cd_primary_key := True, cd_nullable := False\<rparr> else c, p3))))"

definition table_item :: "table_items \<Rightarrow> parser \<Rightarrow> parse_error + table_items \<times> parser" where
  "table_item ti p =
     (if at_constraint p then parse_constraint ti p
      else rbind (parse_column p) (\<lambda>(c, p1). Inr (ti\<lparr>ti_columns := ti_columns ti @ [c]\<rparr>, p1)))"

fun table_loop :: "nat \<Rightarrow> table_items \<Rightarrow> parser \<Rightarrow> parse_error + table_items \<times> parser" where
  "table_loop 0 ti p = Inl NoFuel"
| "table_loop (Suc n) ti p =
     rbind (table_item ti p) (\<lambda>(ti1, p1).
       if at_sym SComma p1 then table_loop n ti1 (advance p1) else Inr (ti1, p1))"

text \<open>\<open>iter_mut().find(..)\<close>: the first column of that name is changed.\<close>

fun update_named :: "string \<Rightarrow> (column_def \<Rightarrow> column_def) \<Rightarrow> column_def list \<Rightarrow> column_def list" where
  "update_named name f [] = []"
| "update_named name f (c # cs) = (if cd_name c = name then f c # cs else c # update_named name f cs)"

definition finish_columns :: "table_items \<Rightarrow> column_def list" where
  "finish_columns ti =
     fold (\<lambda>u. update_named u (\<lambda>c. c\<lparr>cd_unique := True\<rparr>)) (ti_unique ti)
       (fold (\<lambda>pk. update_named pk (\<lambda>c. c\<lparr>cd_primary_key := True, cd_nullable := False\<rparr>)) (ti_pk ti) (ti_columns ti))"

definition parse_create_table :: "parser \<Rightarrow> parse_error + statement \<times> parser" where
  "parse_create_table p =
     rbind (expect_kw ''Table'' p) (\<lambda>p1. rbind (parse_if_not_exists p1) (\<lambda>(ine, p2). rbind (expect_ident p2) (\<lambda>(name, p3).
     rbind (expect_sym SLParen p3) (\<lambda>p4.
     rbind (table_loop (Suc (remaining p4)) \<lparr>ti_columns = [], ti_checks = [], ti_fks = [], ti_pk = [], ti_unique = []\<rparr> p4) (\<lambda>(ti, p5).
     rbind (expect_sym SRParen p5) (\<lambda>p6.
       Inr (CreateTable \<lparr>ct_name = name, ct_columns = finish_columns ti, ct_if_not_exists = ine,
              ct_check_constraints = ti_checks ti, ct_foreign_keys = ti_fks ti\<rparr>, p6)))))))"

definition parse_create_index :: "bool \<Rightarrow> parser \<Rightarrow> parse_error + statement \<times> parser" where
  "parse_create_index unique p =
     rbind (expect_ident p) (\<lambda>(name, p1). rbind (expect_kw ''On'' p1) (\<lambda>p2. rbind (expect_ident p2) (\<lambda>(table, p3).
     rbind (paren_idents p3) (\<lambda>(columns, p4). Inr (CreateIndex name table columns unique, p4)))))"

definition parse_create :: "parser \<Rightarrow> parse_error + statement \<times> parser" where
  "parse_create p =
     rbind (expect_kw ''Create'' p) (\<lambda>p1.
       if at_kw ''Unique'' p1 then rbind (expect_kw ''Index'' (advance p1)) (parse_create_index True)
       else if at_kw ''Table'' p1 then parse_create_table p1
       else if at_kw ''Index'' p1 then parse_create_index False (advance p1)
       else if at_kw ''Database'' p1
       then rbind (parse_if_not_exists (advance p1)) (\<lambda>(ine, p2). rbind (expect_ident p2) (\<lambda>(name, p3). Inr (CreateDatabase name ine, p3)))
       else Inl (Parse ''Expected TABLE, INDEX or DATABASE after CREATE''))"

definition parse_drop :: "parser \<Rightarrow> parse_error + statement \<times> parser" where
  "parse_drop p =
     rbind (expect_kw ''Drop'' p) (\<lambda>p1.
       if at_kw ''Table'' p1
       then rbind (parse_if_exists (advance p1)) (\<lambda>(ie, p2). rbind (expect_ident p2) (\<lambda>(name, p3). Inr (DropTable name ie, p3)))
       else if at_kw ''Index'' p1 then rbind (expect_ident (advance p1)) (\<lambda>(name, p2). Inr (DropIndex name, p2))
       else if at_kw ''Database'' p1
       then rbind (parse_if_exists (advance p1)) (\<lambda>(ie, p2). rbind (expect_ident p2) (\<lambda>(name, p3). Inr (DropDatabase name ie, p3)))
       else Inl (Parse ''Expected TABLE, INDEX or DATABASE after DROP''))"

text \<open>The constraints that \<open>ADD COLUMN\<close> reads; \<open>UNIQUE\<close> ends the loop.\<close>

fun add_column_options :: "nat \<Rightarrow> column_def \<Rightarrow> parser \<Rightarrow> parse_error + column_def \<times> parser" where
  "add_column_options 0 c p = Inl NoFuel"
| "add_column_options (Suc n) c p =
     (if at_kw ''Not'' p
      then rbind (expect NullLit (advance p)) (\<lambda>p1. add_column_options n (c\<lparr>cd_nullable := False\<rparr>) p1)
      else if at_kw ''Primary'' p
      then rbind (expect_kw ''Key'' (advance p)) (\<lambda>p1. add_column_options n (c\<lparr>cd_primary_key := True, cd_nullable := False\<rparr>) p1)
      else Inr (c, p))"

definition parse_add_column :: "parser \<Rightarrow> parse_error + alter_table_action \<times> parser" where
  "parse_add_column p =
     rbind (expect_ident (skip_if (KW ''Column'') p)) (\<lambda>(name, p1). rbind (parse_data_type p1) (\<lambda>((dt, len), p2).
     rbind (add_column_options (Suc (remaining p2)) (new_column name dt len) p2) (\<lambda>(c, p3). Inr (AddColumn c, p3))))"

definition parse_rename :: "parser \<Rightarrow> parse_error + alter_table_action \<times> parser" where
  "parse_rename p =
     rbind (expect_ident (skip_if (KW ''Column'') p)) (\<lambda>(old_name, p1).
       if at_kw ''To'' p1 \<or> (case current p1 of Ident s \<Rightarrow> to_uppercase s = ''TO'' | _ \<Rightarrow> False)
       then rbind (expect_ident (advance p1)) (\<lambda>(new_name, p2). Inr (RenameColumn old_name new_name, p2))
       else Inl (Parse ''Expected TO after column name in RENAME''))"

definition parse_alter :: "parser \<Rightarrow> parse_error + statement \<times> parser" where
  "parse_alter p =
     rbind (expect_kw ''Alter'' p) (\<lambda>p1. rbind (expect_kw ''Table'' p1) (\<lambda>p2. rbind (expect_ident p2) (\<lambda>(table, p3).
     rbind
       (if at_kw ''Add'' p3 then parse_add_column (advance p3)
        else if at_kw ''Drop'' p3
        then rbind (expect_ident (skip_if (KW ''Column'') (advance p3))) (\<lambda>(col, p4). Inr (DropColumn col, p4))
        else if at_kw ''Rename'' p3 then parse_rename (advance p3)
        else Inl (Parse ''Expected ADD, DROP, or RENAME after ALTER TABLE <name>''))
       (\<lambda>(action, p5). Inr (AlterTable table action, p5)))))"

subsection \<open>The other statements\<close>

definition parse_begin :: "parser \<Rightarrow> parse_error + statement \<times> parser" where
  "parse_begin p =
     rbind (expect_kw ''Begin'' p) (\<lambda>p1.
       if at_kw ''Serializable'' p1 then Inr (Begin (Some Serializable), advance p1) else Inr (Begin None, p1))"

definition parse_backup :: "parser \<Rightarrow> parse_error + statement \<times> parser" where
  "parse_backup p =
     rbind (expect_kw ''Backup'' p) (\<lambda>p1. rbind (expect_kw ''To'' p1) (\<lambda>p2. rbind (expect_string p2) (\<lambda>(path, p3). Inr (Backup path, p3))))"

definition parse_restore :: "parser \<Rightarrow> parse_error + statement \<times> parser" where
  "parse_restore p =
     rbind (expect_kw ''Restore'' p) (\<lambda>p1. rbind (expect_kw ''From'' p1) (\<lambda>p2. rbind (expect_string p2) (\<lambda>(path, p3).
       if at_kw ''To'' p3
       then rbind (expect_kw ''Lsn'' (advance p3)) (\<lambda>p4.
              case current p4 of
                IntLit n \<Rightarrow> Inr (Restore path (Some n), advance p4)
              | t \<Rightarrow> Inl (ExpectedKind ''LSN integer'' t))
       else Inr (Restore path None, p3))))"

definition parse_show :: "parser \<Rightarrow> parse_error + statement \<times> parser" where
  "parse_show p0 =
     rbind (expect_kw ''Show'' p0) (\<lambda>p.
       if at_kw ''Tables'' p then Inr (ShowTables, advance p)
       else if at_kw ''Columns'' p
       then rbind (expect_kw ''From'' (advance p)) (\<lambda>p1. rbind (expect_ident p1) (\<lambda>(t, p2). Inr (ShowColumns t, p2)))
       else if at_kw ''Create'' p
       then rbind (expect_kw ''Table'' (advance p)) (\<lambda>p1. rbind (expect_ident p1) (\<lambda>(t, p2). Inr (ShowCreateTable t, p2)))
       else if at_word ''DATABASES'' p then Inr (ShowDatabases, advance p)
       else if at_word ''STATS'' p
       then if at_word ''FOR'' (advance p)
            then rbind (expect_ident (advance (advance p))) (\<lambda>(t, p1). Inr (ShowStats (Some t), p1))
            else Inr (ShowStats None, advance p)
       else Inl (Parse ''Expected TABLES, COLUMNS, CREATE, DATABASES, or STATS after SHOW''))"

definition parse_truncate :: "parser \<Rightarrow> parse_error + statement \<times> parser" where
  "parse_truncate p =
     rbind (expect_kw ''Truncate'' p) (\<lambda>p1. rbind (expect_ident (skip_if (KW ''Table'') p1)) (\<lambda>(t, p2). Inr (Truncate t, p2)))"

definition parse_kv :: "parser \<Rightarrow> parse_error + statement \<times> parser" where
  "parse_kv p0 =
     rbind (expect_kw ''Kv'' p0) (\<lambda>p.
       if at_kw ''Get'' p then rbind (expect_string (advance p)) (\<lambda>(key, p1). Inr (KvGet key, p1))
       else if at_kw ''Set'' p
       then rbind (expect_string (advance p)) (\<lambda>(key, p1). rbind (expect_string p1) (\<lambda>(v, p2). Inr (KvSet key v, p2)))
       else if at_kw ''Delete'' p then rbind (expect_string (advance p)) (\<lambda>(key, p1). Inr (KvDelete key, p1))
       else if at_kw ''Scan'' p
       then rbind (expect_string (advance p)) (\<lambda>(a, p1). rbind (expect_string p1) (\<lambda>(b, p2). Inr (KvScan a b, p2)))
       else Inl (Parse ''Expected GET, SET, DELETE, or SCAN after KV''))"

text \<open>The text of a JSON object; \<open>depth_left\<close> counts the open braces. \<open>f.to_string()\<close> of a float is the parameter \<open>fl\<close>.\<close>

definition json_piece :: "(u64 \<Rightarrow> string) \<Rightarrow> token \<Rightarrow> string" where
  "json_piece fl t =
     (case t of
        Sym s \<Rightarrow> (case map_of [(SLBrace, ''{''), (SRBrace, ''}''), (SColon, '':''), (SComma, '',''), (SLBracket, ''[''), (SRBracket, '']'')] s of
                   Some c \<Rightarrow> c | None \<Rightarrow> [])
      | StringLit s \<Rightarrow> [CHR 0x22] @ s @ [CHR 0x22]
      | IntLit n \<Rightarrow> int_to_string n
      | FloatLit f \<Rightarrow> fl f
      | BoolLit b \<Rightarrow> if b then ''true'' else ''false''
      | NullLit \<Rightarrow> ''null''
      | _ \<Rightarrow> [])"

fun json_loop :: "nat \<Rightarrow> (u64 \<Rightarrow> string) \<Rightarrow> int \<Rightarrow> string \<Rightarrow> parser \<Rightarrow> parse_error + string \<times> parser" where
  "json_loop 0 fl d res p = Inl NoFuel"
| "json_loop (Suc n) fl d res p =
     (if current p = Eof then Inl (Parse ''Unterminated JSON object'')
      else
        let d' = (if at_sym SLBrace p then d + 1 else if at_sym SRBrace p then d - 1 else d);
            res' = res @ json_piece fl (current p)
        in if at_sym SRBrace p \<and> d' = 0 then Inr (res', advance p) else json_loop n fl d' res' (advance p))"

definition parse_json_object :: "(u64 \<Rightarrow> string) \<Rightarrow> parser \<Rightarrow> parse_error + string \<times> parser" where
  "parse_json_object fl p =
     (if \<not> at_sym SLBrace p then Inl (Parse (CHR ''E'' # ''xpected '{'' @ [CHR 0x27])) else json_loop (Suc (remaining p)) fl 0 [] p)"

definition doc_update_item :: "parser \<Rightarrow> parse_error + (string \<times> expr) \<times> parser" where
  "doc_update_item p = assignment (skip_if (Sym SDollarDot) p)"

definition parse_doc :: "(u64 \<Rightarrow> string) \<Rightarrow> parser \<Rightarrow> parse_error + statement \<times> parser" where
  "parse_doc fl p0 =
     rbind (expect_kw ''Doc'' p0) (\<lambda>p.
       if at_kw ''Insert'' p
       then rbind (expect_kw ''Into'' (advance p)) (\<lambda>p1. rbind (expect_ident p1) (\<lambda>(coll, p2). rbind (parse_json_object fl p2) (\<lambda>(doc, p3).
              Inr (DocInsert coll doc, p3))))
       else if at_kw ''Find'' p
       then rbind (expect_kw ''In'' (advance p)) (\<lambda>p1. rbind (expect_ident p1) (\<lambda>(coll, p2). rbind (opt_clause ''Where'' parse_expr p2) (\<lambda>(f, p3).
              Inr (DocFind coll f, p3))))
       else if at_kw ''Update'' p
       then rbind (expect_kw ''In'' (advance p)) (\<lambda>p1. rbind (expect_ident p1) (\<lambda>(coll, p2). rbind (opt_clause ''Where'' parse_expr p2) (\<lambda>(f, p3).
            rbind (expect_kw ''Set'' p3) (\<lambda>p4. rbind (comma_list (Suc (remaining p4)) doc_update_item p4) (\<lambda>(us, p5).
              Inr (DocUpdate coll f us, p5))))))
       else if at_kw ''Delete'' p
       then rbind (expect_kw ''From'' (advance p)) (\<lambda>p1. rbind (expect_ident p1) (\<lambda>(coll, p2). rbind (opt_clause ''Where'' parse_expr p2) (\<lambda>(f, p3).
              Inr (DocDelete coll f, p3))))
       else Inl (Parse ''Expected INSERT, FIND, UPDATE, or DELETE after DOC''))"

definition parse_use :: "parser \<Rightarrow> parse_error + statement \<times> parser" where
  "parse_use p = rbind (expect_ident (skip_if (KW ''Database'') (advance p))) (\<lambda>(name, p1). Inr (UseDatabase name, p1))"

definition parse_analyze :: "parser \<Rightarrow> parse_error + statement \<times> parser" where
  "parse_analyze p =
     (let p1 = (if at_word ''TABLE'' (advance p) then advance (advance p) else advance p)
      in case current p1 of Ident s \<Rightarrow> Inr (Analyze (Some s), advance p1) | _ \<Rightarrow> Inr (Analyze None, p1))"

fun parse_statement :: "nat \<Rightarrow> (u64 \<Rightarrow> string) \<Rightarrow> parser \<Rightarrow> parse_error + statement \<times> parser" where
  "parse_statement 0 fl p = Inl NoFuel"
| "parse_statement (Suc n) fl p =
     (if at_kw ''Explain'' p
      then let p1 = skip_if (KW ''Analyze'') (advance p)
           in rbind (parse_statement n fl p1) (\<lambda>(s, p2). Inr (Explain s (at_kw ''Analyze'' (advance p)), p2))
      else if at_kw ''With'' p then parse_with p
      else if at_kw ''Select'' p then parse_select p
      else if at_kw ''Insert'' p then parse_insert p
      else if at_kw ''Update'' p then parse_update p
      else if at_kw ''Delete'' p then parse_delete p
      else if at_kw ''Create'' p then parse_create p
      else if at_kw ''Drop'' p then parse_drop p
      else if at_kw ''Alter'' p then parse_alter p
      else if at_kw ''Begin'' p then parse_begin p
      else if at_kw ''Commit'' p then Inr (Commit, advance p)
      else if at_kw ''Rollback'' p then Inr (Rollback, advance p)
      else if at_kw ''Kv'' p then parse_kv p
      else if at_kw ''Doc'' p then parse_doc fl p
      else if at_kw ''Show'' p then parse_show p
      else if at_kw ''Truncate'' p then parse_truncate p
      else if at_kw ''Use'' p then parse_use p
      else if at_kw ''Analyze'' p then parse_analyze p
      else if at_kw ''Backup'' p then parse_backup p
      else if at_kw ''Restore'' p then parse_restore p
      else if at_kw ''Migrate'' p then Inr (Migrate, advance p)
      else Inl (UnexpectedToken (current p)))"

definition set_op :: "token \<Rightarrow> (statement \<Rightarrow> statement \<Rightarrow> bool \<Rightarrow> statement) option" where
  "set_op t =
     (if t = KW ''Union'' then Some UnionStmt else if t = KW ''Intersect'' then Some IntersectStmt
      else if t = KW ''Except'' then Some ExceptStmt else None)"

fun maybe_parse_union :: "nat \<Rightarrow> (u64 \<Rightarrow> string) \<Rightarrow> statement \<Rightarrow> parser \<Rightarrow> parse_error + statement \<times> parser" where
  "maybe_parse_union 0 fl left p = Inl NoFuel"
| "maybe_parse_union (Suc n) fl left p =
     (case set_op (current p) of
        None \<Rightarrow> Inr (left, p)
      | Some f \<Rightarrow>
          let p1 = advance p; p2 = skip_if (KW ''All'') p1
          in rbind (parse_statement (Suc (remaining p2)) fl p2) (\<lambda>(right, p3). rbind (maybe_parse_union n fl right p3) (\<lambda>(right', p4).
               Inr (f left right' (at_kw ''All'' p1), p4))))"

definition parse_tokens :: "(u64 \<Rightarrow> string) \<Rightarrow> parser \<Rightarrow> parse_error + statement \<times> parser" where
  "parse_tokens fl p =
     rbind (parse_statement (Suc (remaining p)) fl p) (\<lambda>(s, p1). rbind (maybe_parse_union (Suc (remaining p1)) fl s p1) (\<lambda>(s', p2).
       Inr (s', skip_if (Sym SSemicolon) p2)))"

definition parse_sql :: "(u64 \<Rightarrow> string) \<Rightarrow> string \<Rightarrow> parse_error + statement" where
  "parse_sql fl inp = rbind (parser_new inp) (\<lambda>p. rbind (parse_tokens fl p) (\<lambda>(s, _). Inr s))"

end
