(* ===== verification/ParserTotal.thy ===== *)
theory ParserTotal
  imports Parser
begin

text \<open>
  The parser returns on every input: no loop and no recursion of \<open>Parser\<close> reaches its bound. The predicate
  \<open>below n r\<close> says that \<open>r\<close> is an error of the source or leaves fewer than \<open>n\<close> tokens. Every parsing function has a lemma
  \<open>below (remaining p) (f p)\<close> when it consumes a token, and \<open>below (Suc (remaining p)) (f p)\<close> when it may consume none.
\<close>

section \<open>Progress\<close>

definition below :: "nat \<Rightarrow> parse_error + 'a \<times> parser \<Rightarrow> bool" where
  "below n r \<longleftrightarrow> (case r of Inl e \<Rightarrow> e \<noteq> NoFuel | Inr (_, q) \<Rightarrow> remaining q < n)"

lemma below_simps [simp]:
  "below n (Inl e) \<longleftrightarrow> e \<noteq> NoFuel"
  "below n (Inr (x, q)) \<longleftrightarrow> remaining q < n"
  by (simp_all add: below_def)

lemma below_bind:
  assumes "below m r" and "\<And>x q. remaining q < m \<Longrightarrow> below n (f (x, q))"
  shows "below n (rbind r f)"
  using assms by (cases r) (auto simp: below_def)

lemma rbind_flat:
  "rbind (rbind m f) g = rbind m (\<lambda>x. rbind (f x) g)"
  "rbind (if b then r else r') h = (if b then rbind r h else rbind r' h)"
  by (cases m) simp_all

lemma below_weaken: "below m r \<Longrightarrow> m \<le> n \<Longrightarrow> below n r"
  by (auto simp: below_def split: sum.splits)

lemma remaining_advance [simp]: "remaining (advance p) = remaining p - Suc 0"
  by (simp add: remaining_def advance_def)

lemma remaining_pos: "current p \<noteq> Eof \<Longrightarrow> 0 < remaining p"
  by (auto simp: remaining_def current_def split: if_splits)

lemma remaining_serial [simp]: "remaining (p\<lparr>last_data_type_serial := b\<rparr>) = remaining p"
  by (simp add: remaining_def)

lemma current_serial [simp]: "current (p\<lparr>last_data_type_serial := b\<rparr>) = current p"
  by (simp add: current_def)

lemma at_pos:
  "current p = KW k \<Longrightarrow> 0 < remaining p" "current p = Sym s \<Longrightarrow> 0 < remaining p" "current p = NullLit \<Longrightarrow> 0 < remaining p"
  "current p = StringLit str \<Longrightarrow> 0 < remaining p" "current p = IntLit i \<Longrightarrow> 0 < remaining p" "current p = Ident str \<Longrightarrow> 0 < remaining p"
  "at_word w p \<Longrightarrow> 0 < remaining p"
  by (auto simp: at_word_def intro!: remaining_pos)

lemma expect_bind:
  assumes "t \<noteq> Eof" and "0 < remaining p \<Longrightarrow> below n (f (advance p))"
  shows "below n (rbind (expect t p) f)"
  using assms remaining_pos [of p] by (cases "current p = t") (simp_all add: expect_def)

lemma skip_if_le: "remaining (skip_if t p) \<le> remaining p"
  by (simp add: skip_if_def)

section \<open>Names, types and lists\<close>

lemma expect_ident_below: "below (remaining p) (expect_ident p)"
  by (cases "current p") (auto simp: expect_ident_def remaining_pos split: option.split)

lemma expect_string_below: "below (remaining p) (expect_string p)"
  by (cases "current p") (auto simp: expect_string_def remaining_pos)

lemma expect_integer_below: "below (remaining p) (expect_integer p)"
  by (cases "current p") (auto simp: expect_integer_def remaining_pos)

lemmas name_binds = below_bind [OF expect_ident_below] below_bind [OF expect_string_below] below_bind [OF expect_integer_below]

lemma try_parse_alias_le: "remaining (snd (try_parse_alias p)) \<le> remaining p"
proof -
  have "below (remaining (advance p)) (expect_ident (advance p))" by (rule expect_ident_below)
  then show ?thesis by (auto simp: try_parse_alias_def below_def split: token.split sum.split prod.splits)
qed

lemma comma_list_below:
  assumes "\<And>q. remaining q \<le> remaining p \<Longrightarrow> below (remaining q) (item q)"
  shows "remaining p < n \<Longrightarrow> below (remaining p) (comma_list n item p)"
  using assms
proof (induction n arbitrary: p)
  case (Suc n)
  have rest: "below (remaining q - Suc 0) (comma_list n item (advance q))" if "current q = Sym SComma" "remaining q < remaining p" for q
    using Suc.IH [of "advance q"] Suc.prems that by simp
  show ?case
    unfolding comma_list.simps
  proof (rule below_bind)
    show "below (remaining p) (item p)" using Suc.prems(2) by simp
    fix x q assume q: "remaining q < remaining p"
    show "below (remaining p) (case (x, q) of (x, p1) \<Rightarrow>
        if current p1 = Sym SComma then rbind (comma_list n item (advance p1)) (\<lambda>(xs, p2). Inr (x # xs, p2)) else Inr ([x], p1))"
      using q by (auto intro!: below_bind [OF rest])
  qed
qed simp

lemma chain_below:
  assumes "op Eof = None" and "\<And>q. remaining q < remaining p \<Longrightarrow> below (remaining q) (sub q)"
  shows "remaining p < n \<Longrightarrow> below (Suc (remaining p)) (chain n op sub left p)"
  using assms(2)
proof (induction n arbitrary: left p)
  case (Suc n)
  show ?case
  proof (cases "op (current p)")
    case (Some b)
    then have pos: "0 < remaining p" using assms(1) by (metis option.distinct(1) remaining_pos)
    have "below (remaining p - Suc 0) (sub (advance p))" using Suc.prems(2) [of "advance p"] pos by simp
    then show ?thesis
      using Some Suc.IH Suc.prems pos by (auto intro!: below_bind below_weaken [OF Suc.IH])
  qed simp
qed simp

lemma opt_clause_below:
  assumes "current p = KW kw \<Longrightarrow> below (remaining p) (f (advance p))"
  shows "below (Suc (remaining p)) (opt_clause kw f p)"
  using assms by (auto simp: opt_clause_def intro!: below_bind)

lemma by_list_below:
  assumes "\<And>q. remaining q < remaining p \<Longrightarrow> below (remaining q) (f q)"
  shows "below (Suc (remaining p)) (by_list kw f p)"
  using assms by (auto simp: by_list_def intro!: expect_bind below_weaken [OF assms] dest!: at_pos)

lemma parse_ident_list_below: "below (remaining p) (parse_ident_list p)"
  unfolding parse_ident_list_def by (rule comma_list_below) (simp_all add: expect_ident_below)

lemma paren_idents_below: "below (remaining p) (paren_idents p)"
  by (auto simp: paren_idents_def intro!: expect_bind below_bind [OF parse_ident_list_below])

lemma type_of_token_Eof: "type_of_token t = Some dt \<Longrightarrow> t \<noteq> Eof"
  by (auto simp: type_of_token_def)

lemma skip_precision_le: "remaining (skip_precision dt p) \<le> remaining p"
  by (simp add: skip_precision_def)

lemma parse_data_type_below: "below (remaining p) (parse_data_type p)"
proof (cases "type_of_token (current p)")
  case (Some dt)
  have pos: "0 < remaining p" using type_of_token_Eof [OF Some] by (rule remaining_pos)
  let ?p1 = "skip_precision dt (advance (p\<lparr>last_data_type_serial := current p = KW ''Serial''\<rparr>))"
  have p1: "remaining ?p1 < remaining p" using skip_precision_le [of dt "advance (p\<lparr>last_data_type_serial := current p = KW ''Serial''\<rparr>)"] pos by simp
  show ?thesis
    using Some p1 by (auto simp: parse_data_type_def Let_def rbind_flat intro!: name_binds expect_bind dest!: at_pos; linarith)
qed (simp add: parse_data_type_def Let_def)

section \<open>Expressions\<close>

text \<open>The callbacks make progress on fewer than \<open>n\<close> tokens.\<close>

definition good :: "nat \<Rightarrow> calls \<Rightarrow> bool" where
  "good n k \<longleftrightarrow> (\<forall>p. remaining p < n \<longrightarrow>
     below (remaining p) (c_expr k p) \<and> below (remaining p) (c_unary k p) \<and> below (remaining p) (c_select k p))"

lemma goodD:
  assumes "good n k" and "remaining p < n"
  shows "below (remaining p) (c_expr k p)" and "below (remaining p) (c_unary k p)" and "below (remaining p) (c_select k p)"
  using assms by (simp_all add: good_def)

lemma good_mono: "good n k \<Longrightarrow> m \<le> n \<Longrightarrow> good m k"
  by (simp add: good_def)

definition good_expr :: "nat \<Rightarrow> calls \<Rightarrow> bool" where
  "good_expr n k \<longleftrightarrow> (\<forall>p. remaining p < n \<longrightarrow> below (remaining p) (c_expr k p))"

lemma good_good_expr: "good n k \<Longrightarrow> good_expr n k"
  by (simp add: good_def good_expr_def)

lemma good_exprD: "good_expr n k \<Longrightarrow> remaining p < n \<Longrightarrow> below (remaining p) (c_expr k p)"
  by (simp add: good_expr_def)

lemma expr_bindE:
  "good_expr n k \<Longrightarrow> remaining p < n \<Longrightarrow> (\<And>x q. remaining q < remaining p \<Longrightarrow> below m (f (x, q))) \<Longrightarrow> below m (rbind (c_expr k p) f)"
  by (rule below_bind [OF good_exprD])

lemma parse_expr_list_belowE: "good_expr n k \<Longrightarrow> remaining p < n \<Longrightarrow> below (remaining p) (parse_expr_list k p)"
  unfolding parse_expr_list_def by (rule comma_list_below) (auto intro: good_exprD)

lemma order_item_belowE: "good_expr n k \<Longrightarrow> remaining p < n \<Longrightarrow> below (remaining p) (order_item k p)"
  by (auto simp: order_item_def Let_def intro!: expr_bindE expect_bind dest!: at_pos; linarith)

lemma parse_order_by_belowE: "good_expr n k \<Longrightarrow> remaining p < n \<Longrightarrow> below (remaining p) (parse_order_by k p)"
  unfolding parse_order_by_def by (rule comma_list_below) (auto intro: order_item_belowE)

lemmas expr_bind = expr_bindE [OF good_good_expr]
lemmas parse_expr_list_below = parse_expr_list_belowE [OF good_good_expr]
lemmas parse_order_by_below = parse_order_by_belowE [OF good_good_expr]

lemma sub_select_below:
  assumes "good n k" and "remaining p \<le> n"
  shows "below (remaining p) (sub_select k p)"
  using assms by (auto simp: sub_select_def intro!: expect_bind below_bind [OF goodD(3) [OF assms(1)]] dest!: at_pos; linarith)

lemma when_loop_below:
  assumes "good n k"
  shows "remaining p < m \<Longrightarrow> remaining p \<le> n \<Longrightarrow> below (Suc (remaining p)) (when_loop m k p)"
proof (induction m arbitrary: p)
  case (Suc m)
  have IH: "below (Suc (remaining q)) (when_loop m k q)" if "remaining q < remaining p" for q
    using Suc.IH [of q] Suc.prems that by simp
  show ?case
    using assms Suc.prems by (auto intro!: expr_bind expect_bind below_bind [OF IH] dest!: at_pos; linarith)
qed simp

lemma parse_case_below:
  assumes "good n k" and "remaining p < n"
  shows "below (remaining p) (parse_case k p)"
proof -
  have w: "below (Suc (remaining q)) (when_loop (Suc (remaining q)) k q)" if "remaining q \<le> remaining p" for q
    using that assms(2) by (intro when_loop_below [OF assms(1)]) simp_all
  have e: "below (Suc (remaining q)) (opt_clause ''Else'' (c_expr k) q)" if "remaining q \<le> remaining p" for q
    using that assms(2) below_weaken [OF goodD(1) [OF assms(1)]] by (intro opt_clause_below) auto
  show ?thesis
    using assms by (auto simp: parse_case_def rbind_flat simp del: when_loop.simps intro!: expr_bind expect_bind below_bind [OF w] below_bind [OF e] dest!: at_pos; linarith)
qed

lemma parse_cast_below:
  assumes "good n k" and "remaining p \<le> n"
  shows "below (remaining p) (parse_cast k p)"
  using assms by (auto simp: parse_cast_def intro!: expr_bind expect_bind below_bind [OF parse_data_type_below] dest!: at_pos; linarith)

lemma parse_exists_below:
  assumes "good n k" and "remaining p \<le> n"
  shows "below (remaining p) (parse_exists k p)"
  using assms by (auto simp: parse_exists_def intro!: expect_bind below_bind [OF sub_select_below [OF assms(1)]] dest!: at_pos; linarith)

lemma call_args_below:
  assumes "good n k" and "remaining p < n"
  shows "below (Suc (remaining p)) (call_args k name p)"
  using assms by (auto simp: call_args_def intro!: below_bind [OF parse_expr_list_below [OF assms(1)]] dest!: at_pos; linarith)

lemma parse_over_below:
  assumes "good n k" and "remaining p \<le> n"
  shows "below (remaining p) (parse_over k name args p)"
proof -
  have e: "below (Suc (remaining q)) (by_list kw (parse_expr_list k) q)" if "remaining q < remaining p" for q kw
    using that assms by (intro by_list_below parse_expr_list_below [OF assms(1)]) simp
  have ob: "below (Suc (remaining q)) (by_list kw (parse_order_by k) q)" if "remaining q < remaining p" for q kw
    using that assms by (intro by_list_below parse_order_by_below [OF assms(1)]) simp
  show ?thesis by (auto simp: parse_over_def intro!: expect_bind below_bind [OF e] below_bind [OF ob]; linarith)
qed

lemma parse_name_below:
  assumes "good n k" and "remaining p \<le> n"
  shows "below (Suc (remaining p)) (parse_name k name p)"
proof -
  have o: "below (Suc (remaining p)) (parse_over k f args q)" if "remaining q \<le> remaining p" for f args q
    using that assms(2) by (intro below_weaken [OF parse_over_below [OF assms(1)]]) simp_all
  show ?thesis
    using assms by (auto simp: parse_name_def intro!: name_binds expect_bind below_bind [OF call_args_below [OF assms(1)]] o dest!: at_pos; linarith)
qed

lemma parse_paren_below:
  assumes "good n k" and "remaining p < n"
  shows "below (remaining p) (parse_paren k p)"
  using assms
  by (auto simp: parse_paren_def intro!: expr_bind expect_bind below_bind [OF sub_select_below [OF assms(1)]] dest!: at_pos; linarith)

lemma primary_head_below:
  assumes g: "good (remaining p) k"
  shows "below (remaining p) (primary_head k p)"
proof (cases "current p = Eof")
  case False
  then have pos: "0 < remaining p" by (rule remaining_pos)
  let ?q = "advance p"
  have q: "remaining ?q < remaining p" using pos by simp
  have sub: "below (remaining p) (parse_case k ?q)" "below (remaining p) (parse_cast k ?q)" "below (remaining p) (parse_exists k ?q)"
    "below (remaining p) (parse_paren k ?q)" "below (remaining p) (parse_name k name ?q)" for name
    using q parse_case_below [OF g q] parse_cast_below [OF g, of ?q] parse_exists_below [OF g, of ?q] parse_paren_below [OF g q]
      parse_name_below [OF g, of ?q name] by (auto elim!: below_weaken)
  have ne: "below (remaining p) (rbind (parse_exists k (advance ?q)) (\<lambda>(e, p2). Inr (UnaryOp UNot e, p2)))"
    using g q by (auto intro!: below_bind [OF parse_exists_below])
  have nu: "below (remaining p) (rbind (c_unary k ?q) (\<lambda>(e, p2). Inr (UnaryOp UNot e, p2)))"
    using g q by (auto intro!: below_bind [OF goodD(2)])
  have dd: "below (remaining p) (rbind (expect_ident ?q) (\<lambda>(path, p2). Inr (JsonPath path, p2)))"
    using q by (auto intro!: name_binds)
  show ?thesis
    using pos sub ne nu dd by (cases "current p") (auto simp: primary_head_def Let_def split: token.split)
qed (simp add: primary_head_def)

lemma cast_loop_below: "remaining p < m \<Longrightarrow> below (Suc (remaining p)) (cast_loop m e p)"
proof (induction m arbitrary: e p)
  case (Suc m)
  have IH: "below (Suc (remaining p)) (cast_loop m e' q)" if "remaining q < remaining p" for e' q
    using Suc.IH [of q e'] Suc.prems that by (auto elim!: below_weaken)
  show ?case
    by (auto intro!: below_bind [OF parse_data_type_below] IH dest!: at_pos)
qed simp

lemma parse_primary_below:
  assumes "good (remaining p) k"
  shows "below (remaining p) (parse_primary k p)"
  unfolding parse_primary_def
  by (rule below_bind [OF primary_head_below [OF assms]], simp only: prod.case, rule below_weaken [OF cast_loop_below]) simp_all

lemma parse_unary_below:
  assumes "good (remaining p) k"
  shows "below (remaining p) (parse_unary k p)"
  using assms parse_primary_below [OF assms] by (auto simp: parse_unary_def intro!: below_bind [OF goodD(2)] dest!: at_pos; linarith)

text \<open>A level of binary operators on top of the level below it.\<close>

lemma level_below:
  assumes f: "\<And>q. remaining q \<le> remaining p \<Longrightarrow> below (remaining q) (sub q)" and "op Eof = None"
  shows "below (remaining p) (rbind (sub p) (\<lambda>(left, p1). chain (Suc (remaining p1)) op sub left p1))"
proof (rule below_bind)
  show "below (remaining p) (sub p)" using f by simp
  fix left q assume q: "remaining q < remaining p"
  have "below (Suc (remaining q)) (chain (Suc (remaining q)) op sub left q)"
    using q f assms(2) by (intro chain_below) simp_all
  then show "below (remaining p) (case (left, q) of (left, p1) \<Rightarrow> chain (Suc (remaining p1)) op sub left p1)"
    using q by (auto elim!: below_weaken)
qed

lemma parse_multiplication_below: "good (remaining p) k \<Longrightarrow> below (remaining p) (parse_multiplication k p)"
  unfolding parse_multiplication_def
  by (rule level_below) (auto simp: mul_op_def intro!: parse_unary_below elim!: good_mono)

lemma parse_addition_below: "good (remaining p) k \<Longrightarrow> below (remaining p) (parse_addition k p)"
  unfolding parse_addition_def
  by (rule level_below) (auto simp: add_op_def intro!: parse_multiplication_below elim!: good_mono)

lemma addition_bind:
  "good n k \<Longrightarrow> remaining p \<le> n \<Longrightarrow> (\<And>x q. remaining q < remaining p \<Longrightarrow> below m (f (x, q))) \<Longrightarrow> below m (rbind (parse_addition k p) f)"
  by (rule below_bind [OF parse_addition_below [OF good_mono]])

lemma parse_in_below:
  assumes "good n k" and "remaining p \<le> n"
  shows "below (remaining p) (parse_in k left p)"
  using assms
  by (auto simp: parse_in_def intro!: expect_bind below_bind [OF sub_select_below [OF assms(1)]] below_bind [OF parse_expr_list_below [OF assms(1)]]
      dest!: at_pos; linarith)

lemma parse_between_below:
  assumes "good n k" and "remaining p \<le> n"
  shows "below (remaining p) (parse_between k left p)"
  using assms by (auto simp: parse_between_def intro!: addition_bind expect_bind dest!: at_pos; linarith)

lemma parse_is_below: "below (remaining p) (parse_is left p)"
  by (auto simp: parse_is_def intro!: expect_bind dest!: at_pos; linarith)

lemma parse_not_below:
  assumes "good n k" and "remaining p \<le> n"
  shows "below (remaining p) (parse_not k left p)"
  using assms
  by (auto simp: parse_not_def rbind_flat intro!: addition_bind below_bind [OF parse_in_below [OF assms(1)]] below_bind [OF parse_between_below [OF assms(1)]]
      dest!: at_pos; linarith)

lemma cmp_op_pos: "cmp_op (current p) = Some b \<Longrightarrow> 0 < remaining p"
  by (auto simp: cmp_op_def intro!: remaining_pos)

lemma comparison_step_below:
  assumes g: "good n k" and n: "remaining p \<le> n" and s: "comparison_step k left p = Some r"
  shows "below (remaining p) r"
proof (cases "cmp_op (current p)")
  case (Some b)
  from cmp_op_pos [OF this] show ?thesis using Some g n s by (auto simp: comparison_step_def intro!: addition_bind)
next
  case None
  have q: "remaining (advance p) \<le> n" using n by simp
  show ?thesis
    using None s parse_is_below [of "advance p" left] parse_not_below [OF g q, of left] parse_in_below [OF g q, of left] parse_between_below [OF g q, of left]
    by (auto simp: comparison_step_def split: if_splits elim!: below_weaken)
qed

lemma comparison_loop_below:
  assumes g: "good n k"
  shows "remaining p < m \<Longrightarrow> remaining p \<le> n \<Longrightarrow> below (Suc (remaining p)) (comparison_loop m k left p)"
proof (induction m arbitrary: left p)
  case (Suc m)
  have IH: "below (Suc (remaining p)) (comparison_loop m k e q)" if "remaining q < remaining p" for e q
    using Suc.IH [of q e] Suc.prems that by (auto elim!: below_weaken)
  show ?case
    using comparison_step_below [OF g Suc.prems(2)] IH by (auto split: option.split intro!: below_bind)
qed simp

lemma parse_comparison_below:
  assumes "good (remaining p) k"
  shows "below (remaining p) (parse_comparison k p)"
  unfolding parse_comparison_def
  by (rule below_bind [OF parse_addition_below [OF assms]], simp only: prod.case, rule below_weaken [OF comparison_loop_below [OF assms]]) simp_all

lemma parse_and_expr_below: "good (remaining p) k \<Longrightarrow> below (remaining p) (parse_and_expr k p)"
  unfolding parse_and_expr_def
  by (rule level_below) (auto simp: and_op_def intro!: parse_comparison_below elim!: good_mono)

lemma parse_or_expr_below: "good (remaining p) k \<Longrightarrow> below (remaining p) (parse_or_expr k p)"
  unfolding parse_or_expr_def
  by (rule level_below) (auto simp: or_op_def intro!: parse_and_expr_below elim!: good_mono)

section \<open>Queries\<close>

lemma select_item_below:
  assumes "good_expr n k" and "remaining p < n"
  shows "below (remaining p) (select_item k p)"
proof -
  have a: "below (Suc (remaining q)) (opt_clause ''As'' expect_ident q)" for q
    using below_weaken [OF expect_ident_below [of "advance q"], of "remaining q"] by (intro opt_clause_below) simp
  show ?thesis using assms by (auto simp: select_item_def intro!: expr_bindE below_bind [OF a])
qed

lemma parse_select_columns_below:
  assumes "good_expr n k" and "remaining p < n"
  shows "below (remaining p) (parse_select_columns k p)"
proof -
  have "below (remaining p) (comma_list (Suc (remaining p)) (select_item k) p)"
    using assms(2) by (intro comma_list_below select_item_below [OF assms(1)]) simp_all
  then show ?thesis by (auto simp: parse_select_columns_def simp del: comma_list.simps dest!: at_pos)
qed

lemma alias_bind:
  "(\<And>a q. remaining q \<le> remaining p \<Longrightarrow> below n (f (a, q))) \<Longrightarrow> below n (case try_parse_alias p of (a, q) \<Rightarrow> f (a, q))"
  using try_parse_alias_le [of p] by (cases "try_parse_alias p") auto

lemma parse_from_clause_below:
  assumes "good n k" and "remaining p \<le> n"
  shows "below (remaining p) (parse_from_clause k p)"
proof -
  have fin: "below (remaining p) (case try_parse_alias q of (alias, r) \<Rightarrow> Inr ((x, alias), r))" if "remaining q < remaining p" for q x
    using that try_parse_alias_le [of q] by (auto split: prod.split)
  show ?thesis
    using assms
    by (auto simp: parse_from_clause_def rbind_flat intro!: name_binds fin below_bind [OF sub_select_below [OF assms(1)]] dest!: at_pos; linarith)
qed

lemma join_kind_below: "below (remaining p) (join_kind p)"
  by (auto simp: join_kind_def Let_def intro!: expect_bind dest!: at_pos; linarith)

lemma parse_join_below:
  assumes "good n k" and "remaining p \<le> n"
  shows "below (remaining p) (parse_join k p)"
proof -
  have fin: "below (remaining p) (rbind (expect_kw ''On'' q) (\<lambda>p4. rbind (c_expr k p4) (\<lambda>(c, p5). Inr (JoinClause jt t a c, p5))))"
    if "remaining q < remaining p" for q jt t a
    using that assms by (auto intro!: expect_bind expr_bind; linarith)
  have al: "remaining (snd (if at_kw ''On'' q then (None, q) else try_parse_alias q)) \<le> remaining q" for q
    using try_parse_alias_le [of q] by simp
  show ?thesis
    unfolding parse_join_def
  proof (rule below_bind [OF join_kind_below], simp only: prod.case, rule below_bind [OF expect_ident_below], simp only: prod.case)
    fix jt q t q' assume "remaining q < remaining p" "remaining q' < remaining q"
    then show "below (remaining p) (case if at_kw ''On'' q' then (None, q') else try_parse_alias q' of (alias, p3) \<Rightarrow>
        rbind (expect_kw ''On'' p3) (\<lambda>p4. rbind (c_expr k p4) (\<lambda>(c, p5). Inr (JoinClause jt t alias c, p5))))"
      using al [of q'] by (cases "if at_kw ''On'' q' then (None, q') else try_parse_alias q'") (auto intro!: fin)
  qed
qed

lemma join_loop_below:
  assumes g: "good n k"
  shows "remaining p < m \<Longrightarrow> remaining p \<le> n \<Longrightarrow> below (Suc (remaining p)) (join_loop m k p)"
proof (induction m arbitrary: p)
  case (Suc m)
  have IH: "below (Suc (remaining q)) (join_loop m k q)" if "remaining q < remaining p" for q
    using Suc.IH [of q] Suc.prems that by simp
  show ?case
    using Suc.prems by (auto intro!: below_bind [OF parse_join_below [OF g]] below_bind [OF IH]; linarith)
qed simp

lemma count_clause_below: "below (remaining p) (count_clause p)"
  by (auto simp: count_clause_def intro!: name_binds)

lemma opt_mono:
  assumes "\<And>q. remaining q < remaining p \<Longrightarrow> below (remaining q) (f q)"
  shows "below (Suc (remaining p)) (opt_clause kw f p)"
  using assms [of "advance p"] by (intro opt_clause_below) (auto dest!: at_pos elim!: below_weaken)

lemma parse_select_body_below:
  assumes g: "good (remaining p) k" and e: "good_expr (Suc (remaining p)) k"
  shows "below (remaining p) (parse_select_body k p)"
proof -
  let ?r = "remaining p"
  have c: "below ?r (parse_select_columns k (skip_if (KW ''Distinct'') p))"
    using skip_if_le [of "KW ''Distinct''" p] by (intro below_weaken [OF parse_select_columns_below [OF e]]) simp_all
  have f: "below (Suc (remaining q)) (if at_kw ''From'' q then parse_from_clause k (advance q) else Inr ((FromNone, None), q))" if "remaining q < ?r" for q
    using that below_weaken [OF parse_from_clause_below [OF g, of "advance q"]] by auto
  have j: "below (Suc (remaining q)) (join_loop (Suc (remaining q)) k q)" if "remaining q < ?r" for q
    using that by (intro join_loop_below [OF g]) simp_all
  have w: "below (Suc (remaining q)) (opt_clause kw (c_expr k) q)" if "remaining q < ?r" for q kw
    using that by (intro opt_mono goodD(1) [OF g]) simp
  have gb: "below (Suc (remaining q)) (by_list kw (parse_expr_list k) q)" if "remaining q < ?r" for q kw
    using that by (intro by_list_below parse_expr_list_below [OF g]) simp
  have ob: "below (Suc (remaining q)) (by_list kw (parse_order_by k) q)" if "remaining q < ?r" for q kw
    using that by (intro by_list_below parse_order_by_below [OF g]) simp
  have l: "below (Suc (remaining q)) (opt_clause kw count_clause q)" for q kw
    by (intro opt_mono count_clause_below)
  show ?thesis
    unfolding parse_select_body_def
    by (auto simp del: join_loop.simps intro!: below_bind [OF c] below_bind [OF f] below_bind [OF j] below_bind [OF w] below_bind [OF gb] below_bind [OF ob]
        below_bind [OF l])
qed

section \<open>Tying the knot\<close>

lemma calls_n_good: "2 * n \<le> m \<Longrightarrow> good n (calls_n m)"
proof (induction n arbitrary: m)
  case (Suc n)
  then obtain m' where m: "m = Suc (Suc m')" "2 * n \<le> m'" by (cases m; cases "m - 1") auto
  have g1: "good n (calls_n (Suc m'))" and g0: "good n (calls_n m')" using Suc.IH m(2) by simp_all
  have e: "below (remaining p) (expr_n (Suc m') p)" if "remaining p \<le> n" for p
    using parse_or_expr_below [OF good_mono [OF g0 that]] by (simp add: calls_n_def)
  have ge: "good_expr (Suc n) (calls_n (Suc m'))" using e by (simp add: good_expr_def calls_n_def)
  show ?case
    unfolding good_def
  proof (intro allI impI conjI)
    fix p assume p: "remaining p < Suc n"
    then have le: "remaining p \<le> n" by simp
    have gp: "good (remaining p) (calls_n (Suc m'))" using good_mono [OF g1 le] .
    show "below (remaining p) (c_expr (calls_n m) p)" using parse_or_expr_below [OF gp] by (simp add: calls_n_def m)
    show "below (remaining p) (c_unary (calls_n m) p)" using parse_unary_below [OF gp] by (simp add: calls_n_def m)
    have "good_expr (Suc (remaining p)) (calls_n (Suc m'))" using ge le by (simp add: good_expr_def)
    from parse_select_body_below [OF gp this] show "below (remaining p) (c_select (calls_n m) p)" by (simp add: calls_n_def m)
  qed
qed (simp add: good_def)

lemma calls_at_good: "good (Suc (remaining p)) (calls_at p)"
  using calls_n_good [of "Suc (remaining p)" "depth p"] by (simp add: calls_at_def calls_n_def depth_def)

lemma parse_expr_below: "below (remaining p) (parse_expr p)"
  using goodD(1) [OF calls_at_good, of p p] by (simp add: parse_expr_def calls_at_def)

lemma select_body_below: "below (remaining p) (select_body p)"
  using goodD(3) [OF calls_at_good, of p p] by (simp add: select_body_def calls_at_def)

section \<open>Statements\<close>

lemmas expr_binds = below_bind [OF parse_expr_below] below_bind [OF select_body_below] below_bind [OF paren_idents_below] name_binds expect_bind
  below_bind [OF parse_data_type_below]

lemma opt_expr_below: "below (Suc (remaining p)) (opt_clause kw parse_expr p)"
  by (intro opt_mono parse_expr_below)

lemma parse_select_below: "below (remaining p) (parse_select p)"
  by (auto simp: parse_select_def intro!: expr_binds; linarith)

lemma sub_select_at_below: "below (remaining p) (sub_select (calls_at p) p)"
  by (rule sub_select_below [OF calls_at_good]) simp

lemma parse_cte_below: "below (remaining p) (parse_cte p)"
  by (auto simp: parse_cte_def intro!: expr_binds below_bind [OF sub_select_at_below]; linarith)

lemma parse_with_below: "below (remaining p) (parse_with p)"
proof -
  have c: "below (remaining q) (comma_list (Suc (remaining q)) parse_cte q)" for q
    by (intro comma_list_below parse_cte_below) simp
  have s: "remaining (skip_if (KW ''Recursive'') q) \<le> remaining q" for q by (rule skip_if_le)
  show ?thesis
    unfolding parse_with_def Let_def
  proof (rule expect_bind)
    assume "0 < remaining p"
    then show "below (remaining p) (rbind (comma_list (Suc (remaining (skip_if (KW ''Recursive'') (advance p)))) parse_cte
        (skip_if (KW ''Recursive'') (advance p))) (\<lambda>(ctes, p3). rbind (expect_kw ''Select'' p3)
          (\<lambda>p4. rbind (select_body p4) (\<lambda>(s, p5). Inr (Select (with_ctes ctes s), p5)))))"
      using s [of "advance p"] by (auto simp del: comma_list.simps intro!: below_bind [OF c] expr_binds; linarith)
  qed simp
qed

lemma parse_returning_below: "below (Suc (remaining p)) (parse_returning p)"
proof -
  have "below (remaining q) (parse_select_columns (calls_at q) q)" for q
    by (rule parse_select_columns_below [OF good_good_expr [OF calls_at_good]]) simp
  then show ?thesis unfolding parse_returning_def by (intro opt_mono)
qed

lemma assignment_below: "below (remaining p) (assignment p)"
  by (auto simp: assignment_def intro!: expr_binds; linarith)

lemma assignments_below: "below (remaining p) (assignments p)"
  unfolding assignments_def by (intro comma_list_below assignment_below) simp

lemma value_row_below: "below (remaining p) (value_row p)"
proof -
  have l: "below (remaining q) (parse_expr_list (calls_at q) q)" for q
    by (rule parse_expr_list_below [OF calls_at_good]) simp
  show ?thesis by (auto simp: value_row_def intro!: expr_binds below_bind [OF l]; linarith)
qed

lemma parse_insert_source_below: "below (remaining p) (parse_insert_source p)"
proof -
  have c: "below (remaining q) (comma_list (Suc (remaining q)) value_row q)" for q
    by (intro comma_list_below value_row_below) simp
  show ?thesis
    by (auto simp: parse_insert_source_def simp del: comma_list.simps intro!: expr_binds below_bind [OF c] dest!: at_pos; linarith)
qed

lemma parse_on_conflict_below: "below (remaining p) (parse_on_conflict p)"
  by (auto simp: parse_on_conflict_def rbind_flat intro!: expr_binds below_bind [OF assignments_below] dest!: at_pos; linarith)

lemma opt_conflict_below: "below (Suc (remaining p)) (opt_clause kw parse_on_conflict p)"
  by (intro opt_mono parse_on_conflict_below)

lemma parse_insert_below: "below (remaining p) (parse_insert p)"
  by (auto simp: parse_insert_def rbind_flat
      intro!: expr_binds below_bind [OF parse_insert_source_below] below_bind [OF opt_conflict_below] below_bind [OF parse_returning_below] dest!: at_pos; linarith)

lemma parse_update_below: "below (remaining p) (parse_update p)"
  by (auto simp: parse_update_def
      intro!: expr_binds below_bind [OF assignments_below] below_bind [OF opt_expr_below] below_bind [OF parse_returning_below]; linarith)

lemma parse_delete_below: "below (remaining p) (parse_delete p)"
  by (auto simp: parse_delete_def intro!: expr_binds below_bind [OF opt_expr_below] below_bind [OF parse_returning_below]; linarith)

subsection \<open>Tables\<close>

lemma parse_fk_action_below: "below (remaining p) (parse_fk_action p)"
  by (auto simp: parse_fk_action_def dest!: at_pos)

lemma fk_actions_loop_below: "remaining p < m \<Longrightarrow> below (Suc (remaining p)) (fk_actions_loop m a b p)"
proof (induction m arbitrary: a b p)
  case (Suc m)
  have IH: "below (Suc (remaining p)) (fk_actions_loop m a' b' q)" if "remaining q < remaining p" for a' b' q
    using Suc.IH [of q a' b'] Suc.prems that by (auto elim!: below_weaken)
  show ?case by (auto simp: Let_def intro!: below_bind [OF parse_fk_action_below] IH dest!: at_pos; linarith)
qed simp

lemma parse_fk_actions_below: "below (Suc (remaining p)) (parse_fk_actions p)"
  unfolding parse_fk_actions_def by (rule fk_actions_loop_below) simp

lemma parse_if_not_exists_below: "below (Suc (remaining p)) (parse_if_not_exists p)"
  by (auto simp: parse_if_not_exists_def intro!: expect_bind dest!: at_pos; linarith)

lemma parse_if_exists_below: "below (Suc (remaining p)) (parse_if_exists p)"
  by (auto simp: parse_if_exists_def intro!: expect_bind dest!: at_pos; linarith)

lemma parse_check_below: "below (remaining p) (parse_check p)"
  by (auto simp: parse_check_def intro!: expr_binds; linarith)

lemma parse_foreign_key_below: "below (remaining p) (parse_foreign_key p)"
  by (auto simp: parse_foreign_key_def intro!: expr_binds below_bind [OF parse_fk_actions_below] dest!: at_pos; linarith)

lemma parse_constraint_below: "below (remaining p) (parse_constraint ti p)"
  by (auto simp: parse_constraint_def rbind_flat
      intro!: expr_binds below_bind [OF parse_check_below] below_bind [OF parse_foreign_key_below] dest!: at_pos; linarith)

lemma parse_references_below: "below (remaining p) (parse_references c p)"
  by (auto simp: parse_references_def rbind_flat intro!: expr_binds below_bind [OF parse_fk_actions_below] dest!: at_pos; linarith)

lemma parse_primary_at_below: "below (remaining p) (parse_primary (calls_at p) p)"
  by (rule parse_primary_below [OF good_mono [OF calls_at_good]]) simp

lemma column_option_below: "column_option c p = Some r \<Longrightarrow> below (remaining p) r"
  using parse_references_below [of "advance p" c]
  by (auto simp: column_option_def split: if_splits dest!: at_pos
      intro!: expr_binds below_bind [OF parse_primary_at_below] below_bind [OF parse_check_below] elim!: below_weaken; linarith)

lemma column_options_below: "remaining p < m \<Longrightarrow> below (Suc (remaining p)) (column_options m c p)"
proof (induction m arbitrary: c p)
  case (Suc m)
  have IH: "below (Suc (remaining p)) (column_options m c' q)" if "remaining q < remaining p" for c' q
    using Suc.IH [of q c'] Suc.prems that by (auto elim!: below_weaken)
  show ?case using column_option_below [of c p] IH by (auto split: option.split intro!: below_bind)
qed simp

lemma parse_column_below: "below (remaining p) (parse_column p)"
proof -
  have o: "below (Suc (remaining q)) (column_options (Suc (remaining q)) c q)" for c q by (rule column_options_below) simp
  show ?thesis by (auto simp: parse_column_def simp del: column_options.simps intro!: expr_binds below_bind [OF o]; linarith)
qed

lemma table_item_below: "below (remaining p) (table_item ti p)"
  using parse_constraint_below [of p ti] by (auto simp: table_item_def intro!: below_bind [OF parse_column_below])

lemma table_loop_below: "remaining p < m \<Longrightarrow> below (remaining p) (table_loop m ti p)"
proof (induction m arbitrary: ti p)
  case (Suc m)
  have IH: "below (remaining p) (table_loop m ti' (advance q))" if "remaining q < remaining p" for ti' q
  proof (rule below_weaken [OF Suc.IH])
    show "remaining (advance q) < m" "remaining (advance q) \<le> remaining p" unfolding remaining_advance using Suc.prems that by linarith+
  qed
  show ?case by (auto intro!: below_bind [OF table_item_below] IH)
qed simp

lemma parse_create_table_below: "below (remaining p) (parse_create_table p)"
proof -
  have t: "below (remaining q) (table_loop (Suc (remaining q)) ti q)" for ti q by (rule table_loop_below) simp
  show ?thesis
    by (auto simp: parse_create_table_def simp del: table_loop.simps intro!: expr_binds below_bind [OF t] below_bind [OF parse_if_not_exists_below]; linarith)
qed

lemma parse_create_index_below: "below (remaining p) (parse_create_index u p)"
  by (auto simp: parse_create_index_def intro!: expr_binds; linarith)

lemma parse_create_below: "below (remaining p) (parse_create p)"
  using parse_create_index_below [THEN below_weaken] parse_create_table_below [THEN below_weaken]
  by (auto simp: parse_create_def intro!: expr_binds below_bind [OF parse_if_not_exists_below] dest!: at_pos; linarith)

lemma parse_drop_below: "below (remaining p) (parse_drop p)"
  by (auto simp: parse_drop_def intro!: expr_binds below_bind [OF parse_if_exists_below] dest!: at_pos; linarith)

lemma add_column_options_below: "remaining p < m \<Longrightarrow> below (Suc (remaining p)) (add_column_options m c p)"
proof (induction m arbitrary: c p)
  case (Suc m)
  have IH: "below (Suc (remaining p)) (add_column_options m c' q)" if "remaining q < remaining p" for c' q
    using Suc.IH [of q c'] Suc.prems that by (auto elim!: below_weaken)
  show ?case by (auto intro!: expect_bind IH dest!: at_pos; linarith)
qed simp

lemma skip_ident_bind:
  "(\<And>x q. remaining q < remaining p \<Longrightarrow> below n (f (x, q))) \<Longrightarrow> below n (rbind (expect_ident (skip_if t p)) f)"
  using skip_if_le [of t p] by (auto intro!: below_bind [OF expect_ident_below])

lemma parse_add_column_below: "below (remaining p) (parse_add_column p)"
proof -
  have o: "below (Suc (remaining q)) (add_column_options (Suc (remaining q)) c q)" for c q by (rule add_column_options_below) simp
  show ?thesis using skip_if_le [of "KW ''Column''" p] by (auto simp: parse_add_column_def simp del: add_column_options.simps intro!: skip_ident_bind expr_binds below_bind [OF o]; linarith)
qed

lemma parse_rename_below: "below (remaining p) (parse_rename p)"
  using skip_if_le [of "KW ''Column''" p] by (auto simp: parse_rename_def intro!: skip_ident_bind expr_binds; linarith)

lemma parse_alter_below: "below (remaining p) (parse_alter p)"
  by (auto simp: parse_alter_def rbind_flat
      intro!: expr_binds skip_ident_bind below_bind [OF parse_add_column_below] below_bind [OF parse_rename_below] dest!: at_pos; linarith)

subsection \<open>The other statements\<close>

lemma parse_begin_below: "below (remaining p) (parse_begin p)"
  by (auto simp: parse_begin_def intro!: expect_bind; linarith)

lemma parse_backup_below: "below (remaining p) (parse_backup p)"
  by (auto simp: parse_backup_def intro!: expr_binds; linarith)

lemma parse_restore_below: "below (remaining p) (parse_restore p)"
  by (auto simp: parse_restore_def intro!: expr_binds dest!: at_pos split: token.split; linarith)

lemma parse_show_below: "below (remaining p) (parse_show p)"
  by (auto simp: parse_show_def intro!: expr_binds dest!: at_pos; linarith)

lemma parse_truncate_below: "below (remaining p) (parse_truncate p)"
  by (auto simp: parse_truncate_def intro!: expect_bind skip_ident_bind; linarith)

lemma parse_kv_below: "below (remaining p) (parse_kv p)"
  by (auto simp: parse_kv_def intro!: expr_binds dest!: at_pos; linarith)

lemma json_loop_below: "remaining p < m \<Longrightarrow> below (remaining p) (json_loop m fl d res p)"
proof (induction m arbitrary: d res p)
  case (Suc m)
  have IH: "below (remaining p) (json_loop m fl d' res' (advance p))" if "current p \<noteq> Eof" for d' res'
  proof (rule below_weaken [OF Suc.IH])
    show "remaining (advance p) < m" "remaining (advance p) \<le> remaining p"
      unfolding remaining_advance using Suc.prems remaining_pos [OF that] by linarith+
  qed
  show ?case using IH remaining_pos [of p] by (auto simp: Let_def)
qed simp

lemma parse_json_object_below: "below (remaining p) (parse_json_object fl p)"
  using json_loop_below [of p "Suc (remaining p)"] by (simp add: parse_json_object_def del: json_loop.simps)

lemma doc_update_item_below: "below (remaining p) (doc_update_item p)"
  unfolding doc_update_item_def using below_weaken [OF assignment_below skip_if_le] .

lemma parse_doc_below: "below (remaining p) (parse_doc fl p)"
proof -
  have c: "below (remaining q) (comma_list (Suc (remaining q)) doc_update_item q)" for q
    by (intro comma_list_below doc_update_item_below) simp
  show ?thesis
    by (auto simp: parse_doc_def simp del: comma_list.simps
        intro!: expr_binds below_bind [OF c] below_bind [OF parse_json_object_below] below_bind [OF opt_expr_below] dest!: at_pos; linarith)
qed

lemma parse_use_below: "below (remaining p) (parse_use p)"
  by (auto simp: parse_use_def intro!: skip_ident_bind)

lemma parse_analyze_below: "0 < remaining p \<Longrightarrow> below (remaining p) (parse_analyze p)"
  by (auto simp: parse_analyze_def Let_def split: token.split)

lemma parse_statement_below: "remaining p < m \<Longrightarrow> below (remaining p) (parse_statement m fl p)"
proof (induction m arbitrary: p)
  case (Suc m)
  have ex: "below (remaining p) (rbind (parse_statement m fl (skip_if t (advance p))) (\<lambda>(s, p2). Inr (Explain s b, p2)))" if "0 < remaining p" for t b
  proof -
    have r: "remaining (skip_if t (advance p)) < remaining p" using skip_if_le [of t "advance p"] that by simp
    then show ?thesis using Suc.IH [of "skip_if t (advance p)"] Suc.prems by (auto intro!: below_bind)
  qed
  have pos: "0 < remaining p" if "current p = KW k" for k using that by (rule at_pos)
  show ?case
    using parse_with_below [of p] parse_select_below [of p] parse_insert_below [of p] parse_update_below [of p] parse_delete_below [of p]
      parse_create_below [of p] parse_drop_below [of p] parse_alter_below [of p] parse_begin_below [of p] parse_kv_below [of p]
      parse_doc_below [of p fl] parse_show_below [of p] parse_truncate_below [of p] parse_use_below [of p] parse_analyze_below [of p]
      parse_backup_below [of p] parse_restore_below [of p] ex pos
    by (simp add: Let_def)
qed simp

lemma set_op_pos: "set_op (current p) = Some f \<Longrightarrow> 0 < remaining p"
  by (auto simp: set_op_def split: if_splits dest!: at_pos)

lemma maybe_parse_union_below: "remaining p < m \<Longrightarrow> below (Suc (remaining p)) (maybe_parse_union m fl left p)"
proof (induction m arbitrary: left p)
  case (Suc m)
  show ?case
  proof (cases "set_op (current p)")
    case (Some f)
    let ?q = "skip_if (KW ''All'') (advance p)"
    have q: "remaining ?q < remaining p" using skip_if_le [of "KW ''All''" "advance p"] set_op_pos [OF Some] by simp
    have s: "below (remaining ?q) (parse_statement (Suc (remaining ?q)) fl ?q)" by (rule parse_statement_below) simp
    have u: "below (Suc (remaining r)) (maybe_parse_union m fl st r)" if "remaining r < remaining ?q" for st r
      using Suc.IH [of r st] Suc.prems that q by simp
    show ?thesis using Some q by (auto simp: Let_def simp del: parse_statement.simps intro!: below_bind [OF s] below_bind [OF u])
  qed simp
qed simp

lemma parse_tokens_below: "below (remaining p) (parse_tokens fl p)"
proof -
  have s: "below (remaining p) (parse_statement (Suc (remaining p)) fl p)" by (rule parse_statement_below) simp
  have u: "below (Suc (remaining r)) (maybe_parse_union (Suc (remaining r)) fl st r)" for st r by (rule maybe_parse_union_below) simp
  have k: "remaining (skip_if t q) < n" if "remaining q < n" for t q n using skip_if_le [of t q] that by simp
  show ?thesis
    by (auto simp: parse_tokens_def simp del: parse_statement.simps maybe_parse_union.simps intro!: below_bind [OF s] below_bind [OF u] k)
qed

section \<open>The property\<close>

lemma hex_body_not_fuel: "hex_body cs \<noteq> Inl NoFuel"
proof (induction cs)
  case (Cons c cs)
  then show ?case by (cases "hex_body cs") (auto split: if_splits)
qed simp

lemma read_hex_not_fuel: "read_hex_blob inp \<noteq> Inl NoFuel"
  using hex_body_not_fuel [of "tl (tl inp)"] by (cases "hex_body (tl (tl inp))") (auto simp: read_hex_blob_def split: if_splits)

lemma scan_not_fuel: "scan_token c cs \<noteq> Inl NoFuel"
  using read_hex_not_fuel
  by (auto simp: scan_token_def long_symbol_def read_string_def read_number_def read_word_def Let_def split: option.splits if_splits prod.splits)

lemma next_token_not_fuel: "next_token inp \<noteq> Inl NoFuel"
proof (induction inp rule: next_token.induct)
  case (1 inp)
  then show ?case using scan_not_fuel by (subst next_token.simps) (auto simp: Let_def split: list.split)
qed

lemma tokenize_not_fuel: "tokenize inp \<noteq> Inl NoFuel"
proof (induction inp rule: tokenize.induct)
  case (1 inp)
  show ?case
  proof (cases "next_token inp")
    case (Inl e)
    then show ?thesis using next_token_not_fuel [of inp] by (subst tokenize.simps) auto
  next
    case (Inr a)
    obtain t r where a: "a = (t, r)" by (cases a)
    show ?thesis using "1.IH" [OF Inr [unfolded a] refl] Inr a by (subst tokenize.simps) (cases "tokenize r"; auto)
  qed
qed

lemma parser_new_not_fuel: "parser_new inp \<noteq> Inl NoFuel"
  using tokenize_not_fuel [of inp] by (cases "tokenize inp") (auto simp: parser_new_def)

text \<open>C36. Lexing and parsing end on every input: the bounds of the loops and of the depth of the calls, which are given by the number of tokens
  left, are never reached. So every text is a statement or is rejected with one of the errors of the source.\<close>

theorem parse_terminates: "parse_sql fl inp \<noteq> Inl NoFuel \<and> parse_expression inp \<noteq> Inl NoFuel"
proof (cases "parser_new inp")
  case (Inl e)
  then show ?thesis using parser_new_not_fuel [of inp] by (auto simp: parse_sql_def parse_expression_def)
next
  case (Inr p)
  have "rbind (parse_tokens fl p) (\<lambda>(s, _). Inr s) \<noteq> Inl NoFuel"
    using parse_tokens_below [of p fl] by (cases "parse_tokens fl p") auto
  moreover have "rbind (parse_expr p) (\<lambda>(e, _). Inr e) \<noteq> Inl NoFuel"
    using parse_expr_below [of p] by (cases "parse_expr p") auto
  ultimately show ?thesis using Inr by (simp add: parse_sql_def parse_expression_def)
qed

end
