(* ===== verification/SqlText.thy ===== *)
theory SqlText
  imports Parser
begin

text \<open>
  Expressions as text. \<open>expr_to_sql\<close> (\<open>bytedb-query/src/parser/ast.rs\<close>) writes an expression down, and
  \<open>Parser::parse_expression\<close> reads it again; the server stores \<open>CHECK\<close> conditions that way. The first part follows the text
  through the lexer: \<open>lexes s ts\<close> says that \<open>s\<close>, followed by a separator, gives the tokens \<open>ts\<close>. The second part follows
  the tokens through the levels of the grammar: \<open>parses ts e\<close> for an operand, \<open>exprs ts e\<close> for a whole expression. Both meet in
  \<open>expr_text_roundtrip\<close>. The last part shows texts that are not read as they are meant.
\<close>
section \<open>Lexing\<close>

definition separates :: "string \<Rightarrow> bool" where
  "separates rest \<longleftrightarrow> rest = [] \<or> hd rest \<in> {CHR '' '', CHR '')'', CHR '',''} \<and> peek_next rest \<noteq> Some (CHR 0x27)"

definition emits :: "string \<Rightarrow> token list \<Rightarrow> string \<Rightarrow> bool" where
  "emits s ts rest \<longleftrightarrow> tokenize (s @ rest) = rbind (tokenize rest) (\<lambda>r. Inr (ts @ r))"

definition lexes :: "string \<Rightarrow> token list \<Rightarrow> bool" where
  "lexes s ts \<longleftrightarrow> (\<forall>rest. separates rest \<longrightarrow> emits s ts rest)"

lemma emits_nil: "emits [] [] rest"
  by (cases "tokenize rest") (simp_all add: emits_def)

lemma emits_append: "emits s ts (s' @ rest) \<Longrightarrow> emits s' ts' rest \<Longrightarrow> emits (s @ s') (ts @ ts') rest"
  by (cases "tokenize rest") (simp_all add: emits_def)

lemma next_token_space [simp]: "next_token (CHR '' '' # s) = next_token s"
proof -
  have "skip_whitespace (CHR '' '' # s) = skip_whitespace s" by (simp add: skip_whitespace_def is_whitespace_def)
  then show ?thesis by (metis next_token.simps)
qed

lemma tokenize_space [simp]: "tokenize (CHR '' '' # s) = tokenize s"
  by (subst (1 2) tokenize.simps) simp

lemma emits_space: "emits '' '' [] rest"
  by (cases "tokenize rest") (simp_all add: emits_def)

lemma next_token_scan:
  assumes "\<not> is_whitespace c" and "\<not> is_comment (c # cs)"
  shows "next_token (c # cs) = scan_token c cs"
  using assms by (subst next_token.simps) (simp add: skip_whitespace_def)

lemma emits_token:
  assumes "next_token (s @ rest) = Inr (t, rest)" and "t \<noteq> Eof"
  shows "emits s [t] rest"
  unfolding emits_def using assms by (subst tokenize.simps) simp

lemma not_comment: "c \<noteq> CHR ''-'' \<Longrightarrow> \<not> is_comment (c # cs)"
  by (simp add: is_comment_def)

lemma single_symbol_chars: "single_symbol c = Some s \<Longrightarrow> c \<in> set ''(){}[],;+-*/%.''"
  unfolding single_symbol_def by (drule map_of_SomeD) auto

lemma emits_symbol:
  assumes "single_symbol c = Some s" and "\<not> is_comment (c # rest)"
  shows "emits [c] [Sym s] rest"
proof (rule emits_token)
  have "\<not> is_whitespace c" using single_symbol_chars [OF assms(1)] by (auto simp: is_whitespace_def)
  then show "next_token ([c] @ rest) = Inr (Sym s, rest)" using assms by (simp add: next_token_scan scan_token_def)
qed simp

lemma emits_lparen: "emits ''('' [Sym SLParen] rest" by (rule emits_symbol) (simp_all add: single_symbol_def is_comment_def)
lemma emits_rparen: "emits '')'' [Sym SRParen] rest" by (rule emits_symbol) (simp_all add: single_symbol_def is_comment_def)
lemma emits_comma: "emits '','' [Sym SComma] rest" by (rule emits_symbol) (simp_all add: single_symbol_def is_comment_def)
lemma emits_dot: "emits ''.'' [Sym SDot] rest" by (rule emits_symbol) (simp_all add: single_symbol_def is_comment_def)
lemma emits_star: "emits ''*'' [Sym SStar] rest" by (rule emits_symbol) (simp_all add: single_symbol_def is_comment_def)

lemma emits_minus: "\<not> at_char CHR ''-'' rest \<Longrightarrow> emits ''-'' [Sym SMinus] rest"
  by (rule emits_symbol) (cases rest; simp add: single_symbol_def is_comment_def peek_next_def at_char_def)+

subsection \<open>Words\<close>

definition word_token :: "string \<Rightarrow> token" where
  "word_token w = (case is_keyword w of Some k \<Rightarrow> k | None \<Rightarrow> Ident w)"

definition is_word :: "string \<Rightarrow> bool" where
  "is_word w \<longleftrightarrow> w \<noteq> [] \<and> is_ident_start (hd w) \<and> list_all is_ident_char w"

definition ends_word :: "string \<Rightarrow> bool" where
  "ends_word rest \<longleftrightarrow> rest = [] \<or> \<not> is_ident_char (hd rest) \<and> hd rest \<noteq> CHR 0x27"

lemmas char_defs = is_ident_start_def is_ident_char_def is_alphabetic_def is_lower_def is_upper_def is_ascii_digit_def

lemma long_symbol_chars: "long_symbol c cs = Some r \<Longrightarrow> c \<in> set '':$=!<>''"
  by (auto simp: long_symbol_def Let_def split: if_splits)

lemma symbol_chars:
  "list_all (\<lambda>c. \<not> is_ident_start c \<and> \<not> is_ascii_digit c \<and> \<not> is_whitespace c) (''(){}[],;+-*/%.'' @ '':$=!<>'' @ [CHR 0x22, CHR 0x27])"
  by (simp add: char_defs is_whitespace_def)

lemma not_symbol:
  assumes "is_ident_start c \<or> is_ascii_digit c"
  shows "single_symbol c = None" "long_symbol c cs = None" "c \<noteq> CHR 0x22" "c \<noteq> CHR 0x27" "c \<noteq> CHR ''-''"
proof -
  have n: "c \<notin> set (''(){}[],;+-*/%.'' @ '':$=!<>'' @ [CHR 0x22, CHR 0x27])" using symbol_chars assms unfolding list_all_iff by blast
  then show "c \<noteq> CHR 0x22" "c \<noteq> CHR 0x27" "c \<noteq> CHR ''-''" by simp_all
  show "single_symbol c = None"
  proof (cases "single_symbol c")
    case (Some s)
    from single_symbol_chars [OF this] n show ?thesis by simp
  qed
  show "long_symbol c cs = None"
  proof (cases "long_symbol c cs")
    case (Some r)
    from long_symbol_chars [OF this] n show ?thesis by simp
  qed
qed

lemma ident_start_scan:
  assumes "is_ident_start c"
  shows "single_symbol c = None" "long_symbol c cs = None" "c \<noteq> CHR 0x22" "c \<noteq> CHR 0x27" "\<not> is_ascii_digit c" "\<not> is_whitespace c" "c \<noteq> CHR ''-''"
proof -
  show "\<not> is_ascii_digit c" "\<not> is_whitespace c" using assms by (auto simp: char_defs is_whitespace_def)
qed (use not_symbol [of c] assms in simp_all)

lemma word_token_not_Eof: "word_token w \<noteq> Eof"
  using is_keyword_token by (auto simp: word_token_def split: option.split)

lemma emits_word:
  assumes w: "is_word w" and e: "ends_word rest"
  shows "emits w [word_token w] rest"
proof (rule emits_token)
  obtain c cs where c: "w = c # cs" using w by (cases w) (auto simp: is_word_def)
  have start: "is_ident_start c" and all: "\<forall>d \<in> set w. is_ident_char d" using w c by (auto simp: is_word_def list_all_iff)
  note sc = ident_start_scan [OF start]
  have tw: "takeWhile is_ident_char (w @ rest) = w" "dropWhile is_ident_char (w @ rest) = rest"
    using all e by (auto simp: takeWhile_append dropWhile_append ends_word_def takeWhile_eq_Nil_iff dropWhile_eq_self_iff)
  have q: "peek_next (w @ rest) \<noteq> Some (CHR 0x27)"
  proof (cases cs)
    case Nil
    then show ?thesis using e c by (cases rest) (auto simp: peek_next_def ends_word_def)
  next
    case (Cons d ds)
    then have "is_ident_char d" using all c by simp
    then show ?thesis using Cons c by (auto simp: peek_next_def char_defs)
  qed
  have "read_word (w @ rest) = Inr (word_token w, rest)"
    using q tw by (simp add: read_word_def word_token_def Let_def)
  then show "next_token (w @ rest) = Inr (word_token w, rest)"
    using sc start c next_token_scan [OF sc(6) not_comment [OF sc(7)], of "cs @ rest"] by (simp add: scan_token_def)
qed (rule word_token_not_Eof)

lemma separates_ends_word: "separates rest \<Longrightarrow> ends_word rest"
  by (auto simp: separates_def ends_word_def char_defs)

lemma lexes_word: "is_word w \<Longrightarrow> lexes w [word_token w]"
  by (simp add: lexes_def emits_word separates_ends_word)

text \<open>The keywords that the printer writes.\<close>

lemma keyword_tokens:
  "word_token ''TRUE'' = BoolLit True" "word_token ''FALSE'' = BoolLit False" "word_token ''NULL'' = NullLit" "word_token ''NOT'' = KW ''Not''"
  "word_token ''IS'' = KW ''Is''" "word_token ''IN'' = KW ''In''" "word_token ''BETWEEN'' = KW ''Between''" "word_token ''AND'' = KW ''And''"
  "word_token ''OR'' = KW ''Or''" "word_token ''LIKE'' = KW ''Like''" "word_token ''ILIKE'' = KW ''Ilike''" "word_token ''CASE'' = KW ''Case''"
  "word_token ''WHEN'' = KW ''When''" "word_token ''THEN'' = KW ''Then''" "word_token ''ELSE'' = KW ''Else''" "word_token ''END'' = KW ''End''"
  "word_token ''CAST'' = KW ''Cast''" "word_token ''AS'' = KW ''As''" "word_token ''INTERVAL'' = KW ''Interval''"
  by (simp_all add: word_token_def is_keyword_def keyword_table_def to_uppercase_def to_ascii_uppercase_def is_lower_def)

lemma keyword_words:
  "is_word ''TRUE''" "is_word ''FALSE''" "is_word ''NULL''" "is_word ''NOT''" "is_word ''IS''" "is_word ''IN''" "is_word ''BETWEEN''" "is_word ''AND''"
  "is_word ''OR''" "is_word ''LIKE''" "is_word ''ILIKE''" "is_word ''CASE''" "is_word ''WHEN''" "is_word ''THEN''" "is_word ''ELSE''" "is_word ''END''"
  "is_word ''CAST''" "is_word ''AS''" "is_word ''INTERVAL''"
  by (simp_all add: is_word_def char_defs)

subsection \<open>Literals\<close>

lemma dec_digits_ne [simp]: "dec_digits n \<noteq> []"
  by (subst dec_digits.simps) simp

lemma digit_char: "n < 10 \<Longrightarrow> is_ascii_digit (char_of (48 + n)) \<and> digit_val (char_of (48 + n)) = n"
  by (simp add: is_ascii_digit_def digit_val_def)

lemma dec_digits_digits: "list_all is_ascii_digit (dec_digits n)"
proof (induction n rule: dec_digits.induct)
  case (1 n)
  then show ?case using digit_char [of n] digit_char [of "n mod 10"] by (subst dec_digits.simps) simp
qed

lemma digits_val_dec: "digits_val (dec_digits n) = n"
proof (induction n rule: dec_digits.induct)
  case (1 n)
  then show ?case using digit_char [of n] digit_char [of "n mod 10"] by (subst dec_digits.simps) (auto simp: digits_val_def)
qed

lemma number_span_digits:
  "list_all is_ascii_digit d \<Longrightarrow> rest = [] \<or> hd rest \<noteq> CHR ''.'' \<and> \<not> is_ascii_digit (hd rest) \<Longrightarrow> number_span f (d @ rest) = (d, f, rest)"
proof (induction d)
  case Nil
  then show ?case by (cases rest) auto
next
  case (Cons c d)
  then have "c \<noteq> CHR ''.''" by (auto simp: is_ascii_digit_def)
  then show ?case using Cons by simp
qed

lemma separates_number:
  assumes "separates rest"
  shows "rest = [] \<or> hd rest \<noteq> CHR ''.'' \<and> \<not> is_ascii_digit (hd rest)" and "exponent_span rest = None" and "peek_next rest \<noteq> Some (CHR 0x27)"
  using assms by (auto simp: separates_def is_ascii_digit_def exponent_span_def peek_next_def split: list.splits)

lemma digit_scan:
  assumes "is_ascii_digit c"
  shows "next_token (c # cs) = read_number (c # cs)"
proof -
  have "\<not> is_whitespace c" using assms by (auto simp: is_ascii_digit_def is_whitespace_def)
  then show ?thesis using assms not_symbol [of c] by (simp add: next_token_scan not_comment scan_token_def)
qed

lemma lexes_number:
  assumes "n < 2 ^ 63"
  shows "lexes (dec_digits n) [IntLit (of_nat n)]"
  unfolding lexes_def
proof (intro allI impI)
  fix rest assume s: "separates rest"
  obtain c cs where c: "dec_digits n = c # cs" by (cases "dec_digits n") simp_all
  have "is_ascii_digit c" using dec_digits_digits [of n] c by simp
  moreover have "read_number (dec_digits n @ rest) = Inr (IntLit (of_nat n), rest)"
    using separates_number [OF s] number_span_digits [OF dec_digits_digits separates_number(1) [OF s]] assms
    by (simp add: read_number_def parse_i64_def digits_val_dec Let_def)
  ultimately show "emits (dec_digits n) [IntLit (of_nat n)] rest"
    using c by (intro emits_token) (simp_all add: digit_scan)
qed

definition plain_string :: "string \<Rightarrow> bool" where
  "plain_string s \<longleftrightarrow> CHR 0x27 \<notin> set s \<and> CHR 0x5C \<notin> set s"

lemma quote_plain: "plain_string s \<Longrightarrow> quote_string s = [CHR 0x27] @ s @ [CHR 0x27]"
proof -
  assume "plain_string s"
  then have "concat (map (\<lambda>c. if c = CHR 0x27 then [CHR 0x27, CHR 0x27] else [c]) s) = s" unfolding plain_string_def by (induction s) auto
  then show ?thesis by (simp add: quote_string_def)
qed

lemma string_body_plain: "plain_string s \<Longrightarrow> string_body (CHR 0x27) (s @ CHR 0x27 # rest) = Some (s, rest)"
proof (induction s)
  case Nil
  then show ?case by (cases rest) simp_all
next
  case (Cons c s)
  obtain d ds where d: "s @ CHR 0x27 # rest = d # ds" by (cases s) simp_all
  have "string_body (CHR 0x27) (d # ds) = Some (s, rest)" using Cons d by (simp add: plain_string_def)
  then show ?case using Cons.prems d by (auto simp: plain_string_def)
qed

lemma emits_quoted: "plain_string s \<Longrightarrow> emits (quote_string s) [StringLit s] rest"
  by (rule emits_token)
    (simp_all add: quote_plain next_token_scan not_comment is_whitespace_def scan_token_def single_symbol_def long_symbol_def read_string_def string_body_plain)

lemma nibble_digits:
  "list_all (\<lambda>n. is_ascii_hexdigit (upper_hex n) \<and> upper_hex n \<noteq> CHR 0x27 \<and> hex_char_to_nibble (to_ascii_lowercase (upper_hex n)) = of_nat n) [0..<16]"
  by (simp add: upt_rec upper_hex_def is_ascii_hexdigit_def is_ascii_digit_def hex_char_to_nibble_def to_ascii_lowercase_def is_upper_def char_of_def bit_0)

lemma nibble_digit:
  assumes "n < 16"
  shows "is_ascii_hexdigit (upper_hex n)" and "upper_hex n \<noteq> CHR 0x27" and "hex_char_to_nibble (to_ascii_lowercase (upper_hex n)) = of_nat n"
  using nibble_digits assms by (simp_all add: list_all_iff)

lemma hex_byte_body: "hex_body (concat (map hex_byte bs) @ CHR 0x27 # rest) = Inr (concat (map hex_byte bs), rest)"
proof (induction bs)
  case (Cons b bs)
  have "unat b < 256" using unsigned_less [of b] by simp
  then have "unat b div 16 < 16" "unat b mod 16 < 16" by simp_all
  then show ?case using Cons nibble_digit by (simp add: hex_byte_def)
qed simp

lemma nibbles: "push_bit 4 (of_nat (unat b div 16)) OR of_nat (unat b mod 16) = (b :: u8)"
proof -
  have lt: "unat b < 256" using unsigned_less [of b] by simp
  have "(of_nat (unat b mod 16) :: u8) = take_bit 4 b"
    by (simp add: word_unat_eq_iff unsigned_take_bit_eq unat_of_nat take_bit_eq_mod unat_mod)
  moreover have "(of_nat (unat b div 16) :: u8) = drop_bit 4 b"
    using lt by (simp add: word_unat_eq_iff unsigned_drop_bit_eq unat_of_nat drop_bit_eq_div unat_div)
  moreover have "push_bit 4 (drop_bit 4 b) OR take_bit 4 b = b" by (rule bit_word_eqI) (auto simp: bit_simps)
  ultimately show ?thesis by simp
qed

lemma decode_hex_bytes: "decode_hex (concat (map hex_byte bs)) = bs"
proof (induction bs)
  case (Cons b bs)
  have "unat b < 256" using unsigned_less [of b] by simp
  then have "unat b div 16 < 16" "unat b mod 16 < 16" by simp_all
  then show ?case using Cons nibble_digit(3) nibbles [of b] by (simp add: hex_byte_def)
qed simp

lemma length_hex_bytes: "length (concat (map hex_byte bs)) = 2 * length bs"
  by (induction bs) (simp_all add: hex_byte_def)

lemma emits_hex: "emits ([CHR ''X'', CHR 0x27] @ concat (map hex_byte bs) @ [CHR 0x27]) [HexBlob bs] rest"
proof (rule emits_token)
  have start: "is_ident_start (CHR ''X'')" by (simp add: char_defs)
  note sc = ident_start_scan [OF start]
  have "read_word (CHR ''X'' # CHR 0x27 # concat (map hex_byte bs) @ CHR 0x27 # rest) = Inr (HexBlob bs, rest)"
    by (simp add: read_word_def peek_next_def read_hex_blob_def at_char_def hex_byte_body length_hex_bytes decode_hex_bytes)
  then show "next_token (([CHR ''X'', CHR 0x27] @ concat (map hex_byte bs) @ [CHR 0x27]) @ rest) = Inr (HexBlob bs, rest)"
    using sc start next_token_scan [OF sc(6) not_comment [OF sc(7)]] by (simp add: scan_token_def)
qed simp

section \<open>Parsing operands\<close>

definition view :: "parser \<Rightarrow> token list" where
  "view p = drop (pos p) (tokens p)"

lemma current_view: "current p = (case view p of [] \<Rightarrow> Eof | t # _ \<Rightarrow> t)"
  by (auto simp: current_def view_def Cons_nth_drop_Suc [symmetric])

lemma view_advance [simp]: "view (advance p) = tl (view p)"
  by (simp add: view_def advance_def drop_Suc tl_drop)

lemma view_serial [simp]: "view (p\<lparr>last_data_type_serial := b\<rparr>) = view p"
  by (simp add: view_def)

lemma remaining_view: "remaining p = length (view p)"
  by (simp add: remaining_def view_def)

lemma at_view: "view p = t # r \<Longrightarrow> current p = t"
  by (simp add: current_view)

lemma expect_view: "view p = t # r \<Longrightarrow> expect t p = Inr (advance p)"
  by (simp add: expect_def at_view)

lemma calls_n_expr: "c_expr (calls_n (Suc m)) = parse_or_expr (calls_n m)"
  by (rule ext) (simp add: calls_n_def)

lemma calls_n_simps [simp]:
  "c_expr (calls_n (Suc m)) p = parse_or_expr (calls_n m) p"
  "c_unary (calls_n (Suc m)) p = parse_unary (calls_n m) p"
  by (simp_all add: calls_n_def)

text \<open>What may follow an operand, and what ends an expression.\<close>

definition after_operand :: "token \<Rightarrow> bool" where
  "after_operand t \<longleftrightarrow> t \<notin> {Sym SDoubleColon, Sym SLParen, Sym SDot, KW ''Over''}"

definition ends_expr :: "token \<Rightarrow> bool" where
  "ends_expr t \<longleftrightarrow> t \<in> {Sym SRParen, Sym SComma, KW ''Then'', KW ''When'', KW ''Else'', KW ''End'', KW ''As'', Eof}"

definition parses :: "token list \<Rightarrow> expr \<Rightarrow> bool" where
  "parses ts e \<longleftrightarrow> (\<forall>p m rest. view p = ts @ rest \<and> rest \<noteq> [] \<and> after_operand (hd rest) \<and> length (view p) \<le> m \<longrightarrow>
     (\<exists>q. parse_unary (calls_n m) p = Inr (e, q) \<and> view q = rest))"

lemma parsesD:
  assumes "parses ts e" and "view p = ts @ rest" and "rest \<noteq> []" and "after_operand (hd rest)" and "length (view p) \<le> m"
  obtains q where "parse_unary (calls_n m) p = Inr (e, q)" and "view q = rest"
  using assms unfolding parses_def by blast

lemma ends_after: "ends_expr t \<Longrightarrow> after_operand t"
  by (auto simp: ends_expr_def after_operand_def)

subsection \<open>The levels of precedence\<close>

lemma ends_ops:
  assumes "ends_expr t"
  shows "mul_op t = None" "add_op t = None" "cmp_op t = None" "and_op t = None" "or_op t = None" "t \<noteq> KW ''Is''" "t \<noteq> KW ''Not''" "t \<noteq> KW ''In''"
    "t \<noteq> KW ''Between''"
  using assms by (auto simp: ends_expr_def mul_op_def add_op_def cmp_op_def and_op_def or_op_def)

lemma chain_end: "op (current p) = None \<Longrightarrow> chain (Suc n) op sub e p = Inr (e, p)"
  by simp

lemma multiplication_one:
  "parse_unary k p = Inr (e, q) \<Longrightarrow> mul_op (current q) = None \<Longrightarrow> parse_multiplication k p = Inr (e, q)"
  by (simp add: parse_multiplication_def)

lemma addition_one:
  "parse_unary k p = Inr (e, q) \<Longrightarrow> mul_op (current q) = None \<Longrightarrow> add_op (current q) = None \<Longrightarrow> parse_addition k p = Inr (e, q)"
  by (simp add: parse_addition_def multiplication_one)

lemma comparison_end: "ends_expr (current q) \<or> current q = KW ''And'' \<or> current q = KW ''Or'' \<Longrightarrow> comparison_step k e q = None"
  by (auto simp: comparison_step_def ends_expr_def cmp_op_def)

lemma comparison_one:
  assumes "parse_addition k p = Inr (e, q)" and "ends_expr (current q) \<or> current q = KW ''And'' \<or> current q = KW ''Or''"
  shows "parse_comparison k p = Inr (e, q)"
  using assms by (simp add: parse_comparison_def comparison_end)

lemma or_one:
  assumes "parse_comparison k p = Inr (e, q)" and "ends_expr (current q)"
  shows "parse_or_expr k p = Inr (e, q)"
  using assms ends_ops [OF assms(2)] by (simp add: parse_or_expr_def parse_and_expr_def)

lemma and_ops: "mul_op (KW ''And'') = None" "add_op (KW ''And'') = None" "mul_op (KW ''Or'') = None" "add_op (KW ''Or'') = None"
  by (simp_all add: mul_op_def add_op_def)

lemma expr_one:
  assumes "parse_unary k p = Inr (e, q)" and "ends_expr (current q)"
  shows "parse_or_expr k p = Inr (e, q)"
  using assms ends_ops [OF assms(2)] by (intro or_one comparison_one addition_one) simp_all

text \<open>Two operands joined by an operator of each level.\<close>

lemma chain_two:
  assumes "op (current q) = Some b" and "sub (advance q) = Inr (r, q')" and "op (current q') = None" and "op Eof = None"
  shows "chain (Suc (remaining q)) op sub l q = Inr (BinaryOp l b r, q')"
proof -
  have "current q \<noteq> Eof" using assms(1,4) by auto
  then have "view q \<noteq> []" by (auto simp: current_view)
  then obtain n where "remaining q = Suc n" by (cases "view q") (auto simp: remaining_view)
  then show ?thesis using assms by simp
qed

definition op_token :: "bin_op \<Rightarrow> token" where
  "op_token b = (case b of
     BEq \<Rightarrow> Sym SEq | BNeq \<Rightarrow> Sym SNeq | BLt \<Rightarrow> Sym SLt | BGt \<Rightarrow> Sym SGt | BLte \<Rightarrow> Sym SLte | BGte \<Rightarrow> Sym SGte | BAnd \<Rightarrow> KW ''And'' | BOr \<Rightarrow> KW ''Or''
   | BPlus \<Rightarrow> Sym SPlus | BMinus \<Rightarrow> Sym SMinus | BMul \<Rightarrow> Sym SStar | BDiv \<Rightarrow> Sym SSlash | BMod \<Rightarrow> Sym SPercent | BLike \<Rightarrow> KW ''Like'' | BIlike \<Rightarrow> KW ''Ilike'')"

lemma op_tokens:
  "mul_op (op_token b) = (if b \<in> {BMul, BDiv, BMod} then Some b else None)"
  "add_op (op_token b) = (if b \<in> {BPlus, BMinus} then Some b else None)"
  "cmp_op (op_token b) = (if b \<in> {BMul, BDiv, BMod, BPlus, BMinus, BAnd, BOr} then None else Some b)"
  "and_op (op_token b) = (if b = BAnd then Some b else None)"
  "or_op (op_token b) = (if b = BOr then Some b else None)"
  "after_operand (op_token b)"
  by (cases b; simp add: op_token_def mul_op_def add_op_def cmp_op_def and_op_def or_op_def after_operand_def)+

lemma comparison_loop_two:
  assumes "comparison_step k l q = Some (Inr (e, q'))" and "ends_expr (current q') \<or> current q' = KW ''And'' \<or> current q' = KW ''Or''" and "current q \<noteq> Eof"
  shows "comparison_loop (Suc (remaining q)) k l q = Inr (e, q')"
proof -
  have "view q \<noteq> []" using assms(3) by (auto simp: current_view)
  then obtain n where "remaining q = Suc n" by (cases "view q") (auto simp: remaining_view)
  then show ?thesis using assms(1,2) by (simp add: comparison_end)
qed

lemma expr_comparison:
  assumes l: "parse_addition k p = Inr (l, q)" and s: "comparison_step k l q = Some (Inr (e, q'))" and e: "ends_expr (current q')" and "current q \<noteq> Eof"
  shows "parse_or_expr k p = Inr (e, q')"
proof (rule or_one)
  show "parse_comparison k p = Inr (e, q')"
    unfolding parse_comparison_def l using comparison_loop_two [OF s] e assms(4) by (simp del: comparison_loop.simps)
qed (rule e)

lemma expr_two:
  assumes l: "parse_unary k p = Inr (l, q)" and op: "current q = op_token b" and r: "parse_unary k (advance q) = Inr (r, q')" and e: "ends_expr (current q')"
  shows "parse_or_expr k p = Inr (BinaryOp l b r, q')"
proof -
  note ee = ends_ops [OF e]
  have ne: "current q \<noteq> Eof" using op by (cases b) (simp_all add: op_token_def)
  have ops: "mul_op Eof = None" "add_op Eof = None" "and_op Eof = None" "or_op Eof = None" by (simp_all add: mul_op_def add_op_def and_op_def or_op_def)
  have rm: "parse_multiplication k (advance q) = Inr (r, q')" and ra: "parse_addition k (advance q) = Inr (r, q')"
    and rc: "parse_comparison k (advance q) = Inr (r, q')"
    using r ee e by (auto intro: multiplication_one addition_one comparison_one)
  consider (mul) "b \<in> {BMul, BDiv, BMod}" | (add) "b \<in> {BPlus, BMinus}" | (conj) "b = BAnd" | (disj) "b = BOr"
    | (cmp) "b \<notin> {BMul, BDiv, BMod, BPlus, BMinus, BAnd, BOr}" by blast
  then show ?thesis
  proof cases
    case mul
    then have "parse_multiplication k p = Inr (BinaryOp l b r, q')"
      using l r ee ops op op_tokens [of b] chain_two [of mul_op q b "parse_unary k"] by (auto simp: parse_multiplication_def simp del: chain.simps)
    then have "parse_addition k p = Inr (BinaryOp l b r, q')" using ee by (simp add: parse_addition_def)
    then show ?thesis using e by (intro or_one comparison_one) simp_all
  next
    case add
    then have "parse_multiplication k p = Inr (l, q)" using l op op_tokens [of b] by (auto intro: multiplication_one)
    then have "parse_addition k p = Inr (BinaryOp l b r, q')"
      using add rm ee ops op op_tokens [of b] chain_two [of add_op q b "parse_multiplication k"] by (auto simp: parse_addition_def simp del: chain.simps)
    then show ?thesis using e by (intro or_one comparison_one) simp_all
  next
    case conj
    then have c: "parse_comparison k p = Inr (l, q)" using l op by (intro comparison_one addition_one) (simp_all add: op_token_def and_ops)
    have "parse_and_expr k p = Inr (BinaryOp l b r, q')"
      using c conj rc ee ops op op_tokens [of b] chain_two [of and_op q b "parse_comparison k"] by (auto simp: parse_and_expr_def simp del: chain.simps)
    then show ?thesis using ee by (simp add: parse_or_expr_def)
  next
    case disj
    then have c: "parse_comparison k p = Inr (l, q)" using l op by (intro comparison_one addition_one) (simp_all add: op_token_def and_ops)
    have "parse_and_expr k p = Inr (l, q)" using c disj op by (simp add: parse_and_expr_def and_op_def op_token_def)
    moreover have "parse_and_expr k (advance q) = Inr (r, q')" using rc ee by (simp add: parse_and_expr_def)
    ultimately show ?thesis
      using disj ee ops op op_tokens [of b] chain_two [of or_op q b "parse_and_expr k"] by (auto simp: parse_or_expr_def simp del: chain.simps)
  next
    case cmp
    have "parse_addition k p = Inr (l, q)" using l op op_tokens [of b] cmp by (auto intro: addition_one)
    moreover have "comparison_step k l q = Some (Inr (BinaryOp l b r, q'))" using cmp op op_tokens [of b] ra by (simp add: comparison_step_def)
    ultimately show ?thesis by (rule expr_comparison) (use e ne in simp_all)
  qed
qed

subsection \<open>Primary expressions\<close>

definition exprs :: "token list \<Rightarrow> expr \<Rightarrow> bool" where
  "exprs ts e \<longleftrightarrow> (\<forall>p m rest. view p = ts @ rest \<and> rest \<noteq> [] \<and> ends_expr (hd rest) \<and> length (view p) \<le> m \<longrightarrow>
     (\<exists>q. parse_or_expr (calls_n m) p = Inr (e, q) \<and> view q = rest))"

lemma exprsD:
  assumes "exprs ts e" and "view p = ts @ t # rest" and "ends_expr t" and "length (view p) \<le> m"
  obtains q where "parse_or_expr (calls_n m) p = Inr (e, q)" and "view q = t # rest"
  using assms unfolding exprs_def by (metis list.distinct(1) list.sel(1))

lemma current_hd: "view q = rest \<Longrightarrow> rest \<noteq> [] \<Longrightarrow> current q = hd rest"
  by (cases rest) (simp_all add: current_view)

lemma parses_exprs:
  assumes "parses ts e"
  shows "exprs ts e"
  unfolding exprs_def
proof (intro allI impI, elim conjE)
  fix p m rest assume v: "view p = ts @ rest" and r: "rest \<noteq> []" "ends_expr (hd rest)" and m: "length (view p) \<le> m"
  obtain q where q: "parse_unary (calls_n m) p = Inr (e, q)" "view q = rest" using parsesD [OF assms v r(1) ends_after [OF r(2)] m] .
  moreover have "ends_expr (current q)" using current_hd [OF q(2) r(1)] r(2) by simp
  ultimately show "\<exists>q. parse_or_expr (calls_n m) p = Inr (e, q) \<and> view q = rest" using expr_one by blast
qed

lemma parsesI:
  assumes "\<And>p m rest. view p = ts @ rest \<Longrightarrow> rest \<noteq> [] \<Longrightarrow> after_operand (hd rest) \<Longrightarrow> length (view p) \<le> m \<Longrightarrow>
    current p \<notin> {KW ''Not'', Sym SMinus} \<and> (\<exists>q. primary_head (calls_n m) p = Inr (e, q) \<and> view q = rest)"
  shows "parses ts e"
  unfolding parses_def
proof (intro allI impI, elim conjE)
  fix p m rest assume a: "view p = ts @ rest" "rest \<noteq> []" "after_operand (hd rest)" "length (view p) \<le> m"
  obtain q where q: "primary_head (calls_n m) p = Inr (e, q)" "view q = rest" and c: "current p \<notin> {KW ''Not'', Sym SMinus}" using assms [OF a] by blast
  have "current q \<noteq> Sym SDoubleColon" using current_hd [OF q(2) a(2)] a(3) by (simp add: after_operand_def)
  then show "\<exists>q. parse_unary (calls_n m) p = Inr (e, q) \<and> view q = rest" using q c by (simp add: parse_unary_def parse_primary_def)
qed

text \<open>The first token of an operand starts neither a query nor an empty list.\<close>

definition starts :: "token list \<Rightarrow> bool" where
  "starts ts \<longleftrightarrow> ts \<noteq> [] \<and> hd ts \<notin> {Sym SRParen, Sym SStar, KW ''Distinct'', KW ''Select'', KW ''When''}"

lemma parses_starts:
  assumes "parses ts e"
  shows "starts ts"
proof -
  define p where "p = \<lparr>tokens = ts @ [Eof], pos = 0, last_data_type_serial = False\<rparr>"
  have v: "view p = ts @ [Eof]" by (simp add: p_def view_def)
  have "after_operand Eof" by (simp add: after_operand_def)
  then obtain q where q: "parse_unary (calls_n (length (view p))) p = Inr (e, q)" using parsesD [OF assms v] by (metis list.discI list.sel(1) order_refl)
  have c: "current p = hd (ts @ [Eof])" using v by (intro current_hd) simp_all
  have "current p \<notin> {Eof, Sym SRParen, Sym SStar, KW ''Distinct'', KW ''Select'', KW ''When''}"
    using q by (auto simp: parse_unary_def parse_primary_def primary_head_def)
  then show ?thesis using c by (cases ts) (auto simp: starts_def)
qed

lemma starts_append: "starts ts \<Longrightarrow> starts (ts @ us)"
  by (cases ts) (simp_all add: starts_def)

lemma starts_current: "starts ts \<Longrightarrow> view p = ts @ rest \<Longrightarrow> current p \<notin> {Sym SRParen, Sym SStar, KW ''Distinct'', KW ''Select'', KW ''When''}"
  by (cases ts) (auto simp: starts_def current_view)

lemma parses_single:
  assumes "\<And>m p. current p = t \<Longrightarrow> primary_head (calls_n m) p = Inr (e, advance p)" and "t \<notin> {KW ''Not'', Sym SMinus}"
  shows "parses [t] e"
proof (rule parsesI)
  fix p m rest assume v: "view p = [t] @ rest"
  then have "current p = t" by (simp add: current_view)
  then show "current p \<notin> {KW ''Not'', Sym SMinus} \<and> (\<exists>q. primary_head (calls_n m) p = Inr (e, q) \<and> view q = rest)"
    using assms v by simp
qed

lemma parses_literals:
  "parses [IntLit n] (Literal (LInteger n))" "parses [FloatLit f] (Literal (LFloat f))" "parses [StringLit s] (Literal (LString s))"
  "parses [BoolLit b] (Literal (LBool b))" "parses [NullLit] (Literal LNull)" "parses [HexBlob bs] (Literal (LHexBlob bs))"
  by (auto intro!: parses_single simp: primary_head_def)

lemma parses_negated:
  assumes "parses ts e"
  shows "parses (Sym SMinus # ts) (negate_expr e)"
  unfolding parses_def
proof (intro allI impI, elim conjE)
  fix p m rest assume v: "view p = (Sym SMinus # ts) @ rest" and a: "rest \<noteq> []" "after_operand (hd rest)" "length (view p) \<le> m"
  obtain m' where m: "m = Suc m'" using a(3) v by (cases m) auto
  obtain q where "parse_unary (calls_n m') (advance p) = Inr (e, q)" "view q = rest"
    using parsesD [OF assms, of "advance p" rest m'] v a m by auto
  then show "\<exists>q. parse_unary (calls_n m) p = Inr (negate_expr e, q) \<and> view q = rest"
    using v m by (simp add: parse_unary_def current_view)
qed

lemma parses_not:
  assumes "parses ts e"
  shows "parses (KW ''Not'' # ts) (UnaryOp UNot e)"
  unfolding parses_def
proof (intro allI impI, elim conjE)
  fix p m rest assume v: "view p = (KW ''Not'' # ts) @ rest" and a: "rest \<noteq> []" "after_operand (hd rest)" "length (view p) \<le> m"
  obtain m' where m: "m = Suc m'" using a(3) v by (cases m) auto
  obtain q where "parse_unary (calls_n m') (advance p) = Inr (e, q)" "view q = rest"
    using parsesD [OF assms, of "advance p" rest m'] v a m by auto
  then show "\<exists>q. parse_unary (calls_n m) p = Inr (UnaryOp UNot e, q) \<and> view q = rest"
    using v m by (simp add: parse_unary_def current_view)
qed

lemma parses_paren:
  assumes e: "exprs ts e" and s: "starts ts"
  shows "parses (Sym SLParen # ts @ [Sym SRParen]) e"
proof (rule parsesI)
  fix p m rest assume v: "view p = (Sym SLParen # ts @ [Sym SRParen]) @ rest" and m: "length (view p) \<le> m"
  obtain m' where m': "m = Suc m'" using m v by (cases m) auto
  have va: "view (advance p) = ts @ Sym SRParen # rest" using v by simp
  have "ends_expr (Sym SRParen)" by (simp add: ends_expr_def)
  then obtain q where q: "parse_or_expr (calls_n m') (advance p) = Inr (e, q)" "view q = Sym SRParen # rest"
    using exprsD [OF e va] m m' v by auto
  have "current (advance p) \<noteq> KW ''Select''" using starts_current [OF s va] by simp
  then have "primary_head (calls_n m) p = Inr (e, advance q)"
    using v q m' by (simp add: primary_head_def current_view parse_paren_def expect_view)
  then show "current p \<notin> {KW ''Not'', Sym SMinus} \<and> (\<exists>q. primary_head (calls_n m) p = Inr (e, q) \<and> view q = rest)"
    using v q by (auto simp: current_view)
qed

lemma parses_column: "parses [Ident n] (Column n)"
proof (rule parsesI)
  fix p m rest assume v: "view p = [Ident n] @ rest" and r: "rest \<noteq> []" "after_operand (hd rest)"
  have "current (advance p) = hd rest" using v r by (intro current_hd) simp_all
  then show "current p \<notin> {KW ''Not'', Sym SMinus} \<and> (\<exists>q. primary_head (calls_n m) p = Inr (Column n, q) \<and> view q = rest)"
    using v r by (auto simp: primary_head_def current_view [of p] parse_name_def after_operand_def)
qed

definition names_column :: "token \<Rightarrow> string \<Rightarrow> bool" where
  "names_column t c \<longleftrightarrow> t = Ident c \<or> (\<exists>k. t = KW k \<and> ident_keyword k = Some c)"

lemma parses_qualified:
  assumes "names_column t c"
  shows "parses [Ident n, Sym SDot, t] (QualifiedColumn n c)"
proof (rule parsesI)
  fix p m rest assume v: "view p = [Ident n, Sym SDot, t] @ rest"
  have "current p = Ident n" "current (advance p) = Sym SDot" "current (advance (advance p)) = t" using v by (simp_all add: current_view)
  then show "current p \<notin> {KW ''Not'', Sym SMinus} \<and> (\<exists>q. primary_head (calls_n m) p = Inr (QualifiedColumn n c, q) \<and> view q = rest)"
    using v assms by (auto simp: primary_head_def parse_name_def expect_ident_def names_column_def)
qed

lemma parses_interval: "parses [KW ''Interval'', StringLit s] (Interval s)"
proof (rule parsesI)
  fix p m rest assume v: "view p = [KW ''Interval'', StringLit s] @ rest"
  then show "current p \<notin> {KW ''Not'', Sym SMinus} \<and> (\<exists>q. primary_head (calls_n m) p = Inr (Interval s, q) \<and> view q = rest)"
    by (simp add: primary_head_def current_view)
qed

subsection \<open>Operators\<close>

lemma exprs_binary:
  assumes l: "parses ls l" and r: "parses rs r"
  shows "exprs (ls @ op_token b # rs) (BinaryOp l b r)"
  unfolding exprs_def
proof (intro allI impI, elim conjE)
  fix p m rest assume v: "view p = (ls @ op_token b # rs) @ rest" and rest: "rest \<noteq> []" "ends_expr (hd rest)" and m: "length (view p) \<le> m"
  obtain q where q: "parse_unary (calls_n m) p = Inr (l, q)" "view q = op_token b # rs @ rest"
    using parsesD [OF l, of p "op_token b # rs @ rest" m] v m op_tokens(6) [of b] by auto
  obtain q' where q': "parse_unary (calls_n m) (advance q) = Inr (r, q')" "view q' = rest"
    using parsesD [OF r, of "advance q" rest m] q v m rest ends_after by auto
  have "ends_expr (current q')" using current_hd [OF q'(2) rest(1)] rest(2) by simp
  then show "\<exists>q. parse_or_expr (calls_n m) p = Inr (BinaryOp l b r, q) \<and> view q = rest"
    using expr_two [OF q(1) _ q'(1)] q(2) q'(2) by (simp add: current_view [of q])
qed

text \<open>An operand followed by a step of the comparison loop.\<close>

lemma exprs_comparison:
  assumes l: "parses ls l" and t: "t \<in> {KW ''Is'', KW ''In'', KW ''Between''}"
    and s: "\<And>q m rest. view q = t # us @ rest \<Longrightarrow> rest \<noteq> [] \<Longrightarrow> ends_expr (hd rest) \<Longrightarrow> length (view q) \<le> m \<Longrightarrow>
      \<exists>q'. comparison_step (calls_n m) l q = Some (Inr (e, q')) \<and> view q' = rest"
  shows "exprs (ls @ t # us) e"
  unfolding exprs_def
proof (intro allI impI, elim conjE)
  fix p m rest assume v: "view p = (ls @ t # us) @ rest" and rest: "rest \<noteq> []" "ends_expr (hd rest)" and m: "length (view p) \<le> m"
  have ta: "after_operand t" "mul_op t = None" "add_op t = None" "t \<noteq> Eof" using t by (auto simp: after_operand_def mul_op_def add_op_def)
  obtain q where q: "parse_unary (calls_n m) p = Inr (l, q)" "view q = t # us @ rest"
    using parsesD [OF l, of p "t # us @ rest" m] v m ta by auto
  have c: "current q = t" using q(2) by (simp add: current_view)
  obtain q' where q': "comparison_step (calls_n m) l q = Some (Inr (e, q'))" "view q' = rest" using s [OF q(2) rest, of m] q v m by auto
  have "ends_expr (current q')" using current_hd [OF q'(2) rest(1)] rest(2) by simp
  moreover have "parse_addition (calls_n m) p = Inr (l, q)" using q(1) ta c by (intro addition_one) simp_all
  ultimately show "\<exists>q. parse_or_expr (calls_n m) p = Inr (e, q) \<and> view q = rest"
    using expr_comparison q' c ta by blast
qed

lemma cmp_op_words: "cmp_op (KW ''Is'') = None" "cmp_op (KW ''In'') = None" "cmp_op (KW ''Between'') = None" "cmp_op (KW ''Not'') = None"
  by (simp_all add: cmp_op_def)

lemma exprs_is_null: "parses ls l \<Longrightarrow> exprs (ls @ KW ''Is'' # [NullLit]) (IsNull l)"
  by (rule exprs_comparison) (auto simp: comparison_step_def current_view cmp_op_words parse_is_def expect_def)

lemma exprs_is_not_null: "parses ls l \<Longrightarrow> exprs (ls @ KW ''Is'' # [KW ''Not'', NullLit]) (IsNotNull l)"
  by (rule exprs_comparison) (auto simp: comparison_step_def current_view cmp_op_words parse_is_def expect_def)

lemma exprs_between:
  assumes "parses ls l" and low: "parses as a" and high: "parses bs b"
  shows "exprs (ls @ KW ''Between'' # as @ KW ''And'' # bs) (Between l a b)"
proof (rule exprs_comparison [OF assms(1)])
  fix q m rest assume v: "view q = KW ''Between'' # (as @ KW ''And'' # bs) @ rest" and rest: "rest \<noteq> []" "ends_expr (hd rest)" and m: "length (view q) \<le> m"
  have "after_operand (KW ''And'')" by (simp add: after_operand_def)
  then obtain q1 where q1: "parse_unary (calls_n m) (advance q) = Inr (a, q1)" "view q1 = KW ''And'' # bs @ rest"
    using parsesD [OF low, of "advance q" "KW ''And'' # bs @ rest" m] v m by auto
  obtain q2 where q2: "parse_unary (calls_n m) (advance q1) = Inr (b, q2)" "view q2 = rest"
    using parsesD [OF high, of "advance q1" rest m] q1 v m rest ends_after by auto
  have e: "ends_expr (current q2)" using current_hd [OF q2(2) rest(1)] rest(2) by simp
  have "parse_addition (calls_n m) (advance q) = Inr (a, q1)" using q1 by (intro addition_one) (simp_all add: current_view [of q1] and_ops)
  moreover have "parse_addition (calls_n m) (advance q1) = Inr (b, q2)" using q2(1) ends_ops [OF e] by (intro addition_one) simp_all
  ultimately show "\<exists>q'. comparison_step (calls_n m) l q = Some (Inr (Between l a b, q')) \<and> view q' = rest"
    using v q1(2) q2(2) by (simp add: comparison_step_def current_view [of q] cmp_op_words parse_between_def expect_view)
qed simp

subsection \<open>Lists\<close>

fun join_toks :: "token list list \<Rightarrow> token list" where
  "join_toks [] = []"
| "join_toks [ts] = ts"
| "join_toks (ts # us # tss) = ts @ Sym SComma # join_toks (us # tss)"

lemma comma_list_join:
  assumes "list_all2 exprs tss es" and "es \<noteq> []" and "view p = join_toks tss @ Sym SRParen # rest" and "length (view p) \<le> m" and "length es \<le> n"
  shows "\<exists>q. comma_list n (c_expr (calls_n (Suc m))) p = Inr (es, q) \<and> view q = Sym SRParen # rest"
  using assms
proof (induction es arbitrary: tss p n rule: list.induct)
  case (Cons e es)
  obtain ts tss' where t: "tss = ts # tss'" "exprs ts e" "list_all2 exprs tss' es" using Cons.prems(1) by (auto simp: list_all2_Cons2)
  obtain n' where n: "n = Suc n'" using Cons.prems(5) by (cases n) auto
  show ?case
  proof (cases es)
    case Nil
    have "ends_expr (Sym SRParen)" by (simp add: ends_expr_def)
    then obtain q where "parse_or_expr (calls_n m) p = Inr (e, q)" "view q = Sym SRParen # rest"
      using exprsD [OF t(2), of p "Sym SRParen" rest m] Cons.prems(3,4) t Nil by auto
    then show ?thesis using Nil n by (simp add: current_view [of q])
  next
    case (Cons e' es')
    then obtain us tss'' where t': "tss' = us # tss''" using t(3) by (cases tss') auto
    have v: "view p = ts @ Sym SComma # join_toks tss' @ Sym SRParen # rest" using Cons.prems(3) t t' by simp
    have "ends_expr (Sym SComma)" by (simp add: ends_expr_def)
    then obtain q where q: "parse_or_expr (calls_n m) p = Inr (e, q)" "view q = Sym SComma # join_toks tss' @ Sym SRParen # rest"
      using exprsD [OF t(2) v] Cons.prems(4) by auto
    have "\<exists>q'. comma_list n' (c_expr (calls_n (Suc m))) (advance q) = Inr (es, q') \<and> view q' = Sym SRParen # rest"
      using q v Cons.prems(4,5) n Cons by (intro Cons.IH [OF t(3)]) auto
    then show ?thesis using q n by (auto simp: current_view [of q] calls_n_expr)
  qed
qed simp

lemma length_join: "list_all2 exprs tss es \<Longrightarrow> length es \<le> Suc (length (join_toks tss))"
proof (induction tss arbitrary: es rule: join_toks.induct)
  case (3 ts us tss)
  obtain e es' where e: "es = e # es'" "list_all2 exprs (us # tss) es'" using "3.prems" by (auto simp: list_all2_Cons1 [of exprs ts])
  then show ?case using "3.IH" [OF e(2)] by simp
qed (auto simp: list_all2_Cons1)

lemma expr_list_join:
  assumes "list_all2 exprs tss es" and "es \<noteq> []" and "view p = join_toks tss @ Sym SRParen # rest" and "length (view p) < m"
  shows "\<exists>q. parse_expr_list (calls_n m) p = Inr (es, q) \<and> view q = Sym SRParen # rest"
proof -
  obtain m' where m: "m = Suc m'" using assms(4) by (cases m) auto
  show ?thesis
    unfolding parse_expr_list_def m
    by (rule comma_list_join [OF assms(1,2,3)]) (use assms(3,4) m length_join [OF assms(1)] in \<open>auto simp: remaining_view\<close>)
qed

lemma starts_join: "list_all2 exprs tss es \<Longrightarrow> es \<noteq> [] \<Longrightarrow> list_all starts tss \<Longrightarrow> starts (join_toks tss)"
  by (induction tss rule: join_toks.induct) (auto intro: starts_append)

lemma exprs_in_list:
  assumes "parses ls l" and es: "list_all2 exprs tss es" "es \<noteq> []" "list_all starts tss"
  shows "exprs (ls @ KW ''In'' # Sym SLParen # join_toks tss @ [Sym SRParen]) (InList l es)"
proof (rule exprs_comparison [OF assms(1)])
  fix q m rest assume v: "view q = KW ''In'' # (Sym SLParen # join_toks tss @ [Sym SRParen]) @ rest" and m: "length (view q) \<le> m"
  have va: "view (advance (advance q)) = join_toks tss @ Sym SRParen # rest" using v by simp
  obtain q1 where q1: "parse_expr_list (calls_n m) (advance (advance q)) = Inr (es, q1)" "view q1 = Sym SRParen # rest"
    using expr_list_join [OF es(1,2) va, of m] va v m by auto
  have "current (advance (advance q)) \<noteq> KW ''Select''" using starts_current [OF starts_join [OF es] va] by simp
  then show "\<exists>q'. comparison_step (calls_n m) l q = Some (Inr (InList l es, q')) \<and> view q' = rest"
    using v q1 by (simp add: comparison_step_def current_view [of q] cmp_op_words parse_in_def expect_view)
qed simp

lemma parses_call:
  assumes es: "list_all2 exprs tss es" "es \<noteq> []" "list_all starts tss"
  shows "parses (Ident n # Sym SLParen # join_toks tss @ [Sym SRParen]) (Function n es)"
proof (rule parsesI)
  fix p m rest assume v: "view p = (Ident n # Sym SLParen # join_toks tss @ [Sym SRParen]) @ rest" and m: "length (view p) \<le> m"
    and r: "rest \<noteq> []" "after_operand (hd rest)"
  have va: "view (advance (advance p)) = join_toks tss @ Sym SRParen # rest" using v by simp
  obtain q1 where q1: "parse_expr_list (calls_n m) (advance (advance p)) = Inr (es, q1)" "view q1 = Sym SRParen # rest"
    using expr_list_join [OF es(1,2) va, of m] va v m by auto
  have c: "current (advance (advance p)) \<notin> {Sym SRParen, Sym SStar, KW ''Distinct''}" using starts_current [OF starts_join [OF es] va] by auto
  have o: "current (advance q1) \<noteq> KW ''Over''" using q1 r by (cases rest) (auto simp: current_view after_operand_def)
  show "current p \<notin> {KW ''Not'', Sym SMinus} \<and> (\<exists>q. primary_head (calls_n m) p = Inr (Function n es, q) \<and> view q = rest)"
    using v q1 c o by (simp add: primary_head_def current_view [of p] parse_name_def current_view [of "advance p"] call_args_def expect_view)
qed

lemma parses_call_fixed:
  assumes "us = [] \<and> es = [] \<or> us = [Sym SStar] \<and> es = [Column ''*'']"
  shows "parses (Ident n # Sym SLParen # us @ [Sym SRParen]) (Function n es)"
proof (rule parsesI)
  fix p m rest assume v: "view p = (Ident n # Sym SLParen # us @ [Sym SRParen]) @ rest" and r: "rest \<noteq> []" "after_operand (hd rest)"
  obtain t rest' where rest: "rest = t # rest'" using r by (cases rest) auto
  then show "current p \<notin> {KW ''Not'', Sym SMinus} \<and> (\<exists>q. primary_head (calls_n m) p = Inr (Function n es, q) \<and> view q = rest)"
    using v r assms by (auto simp: primary_head_def current_view parse_name_def call_args_def expect_def after_operand_def)
qed

subsection \<open>\<open>CASE\<close> and \<open>CAST\<close>\<close>

fun when_toks :: "(token list \<times> token list) list \<Rightarrow> token list" where
  "when_toks [] = []"
| "when_toks ((ws, ts) # r) = KW ''When'' # ws @ KW ''Then'' # ts @ when_toks r"

definition expr_pair :: "token list \<times> token list \<Rightarrow> expr \<times> expr \<Rightarrow> bool" where
  "expr_pair a b \<longleftrightarrow> exprs (fst a) (fst b) \<and> exprs (snd a) (snd b)"

lemma ends_keywords: "ends_expr (KW ''Then'')" "ends_expr (KW ''When'')" "ends_expr (KW ''Else'')" "ends_expr (KW ''End'')" "ends_expr (KW ''As'')"
  by (simp_all add: ends_expr_def)

lemma when_toks_next: "t \<in> {KW ''Else'', KW ''End''} \<Longrightarrow> \<exists>u r. when_toks wts @ t # rest = u # r \<and> ends_expr u"
  by (cases wts rule: when_toks.cases) (auto simp: ends_keywords)

lemma when_loop_toks:
  assumes "list_all2 expr_pair wts ws" and "view p = when_toks wts @ t # rest" and "t \<in> {KW ''Else'', KW ''End''}" and "length (view p) \<le> m" and "length ws < n"
  shows "\<exists>q. when_loop n (calls_n (Suc m)) p = Inr (ws, q) \<and> view q = t # rest"
  using assms
proof (induction ws arbitrary: wts p n rule: list.induct)
  case Nil
  then show ?case by (cases n) (auto simp: current_view)
next
  case (Cons w ws)
  obtain wt wts' where wt: "wts = wt # wts'" "expr_pair wt w" "list_all2 expr_pair wts' ws" using Cons.prems(1) by (auto simp: list_all2_Cons2)
  obtain cs rs where cr: "wt = (cs, rs)" by (cases wt)
  obtain c r where w: "w = (c, r)" by (cases w)
  have e: "exprs cs c" "exprs rs r" using wt(2) cr w by (simp_all add: expr_pair_def)
  have v: "view p = KW ''When'' # cs @ KW ''Then'' # rs @ when_toks wts' @ t # rest" using Cons.prems(2) wt cr by simp
  obtain n' where n: "n = Suc n'" using Cons.prems(5) by (cases n) auto
  obtain q1 where q1: "parse_or_expr (calls_n m) (advance p) = Inr (c, q1)" "view q1 = KW ''Then'' # rs @ when_toks wts' @ t # rest"
    using exprsD [OF e(1), of "advance p" "KW ''Then''" "rs @ when_toks wts' @ t # rest" m] v Cons.prems(4) ends_keywords by auto
  obtain u us where u: "when_toks wts' @ t # rest = u # us" "ends_expr u" using when_toks_next [OF Cons.prems(3)] by blast
  obtain q2 where q2: "parse_or_expr (calls_n m) (advance q1) = Inr (r, q2)" "view q2 = u # us"
    using exprsD [OF e(2), of "advance q1" u us m] u q1 v Cons.prems(4) by auto
  have "\<exists>q. when_loop n' (calls_n (Suc m)) q2 = Inr (ws, q) \<and> view q = t # rest"
    using q2 u v Cons.prems(3,4,5) n by (intro Cons.IH [OF wt(3)]) auto
  then show ?case using v q1 q2 n w by (auto simp: current_view [of p] expect_view)
qed

definition opt_toks :: "keyword option \<Rightarrow> (token list \<times> expr) option \<Rightarrow> token list" where
  "opt_toks k a = (case a of None \<Rightarrow> [] | Some (ts, _) \<Rightarrow> (case k of None \<Rightarrow> ts | Some w \<Rightarrow> KW w # ts))"

definition opt_ok :: "(token list \<times> expr) option \<Rightarrow> bool" where
  "opt_ok a \<longleftrightarrow> (case a of None \<Rightarrow> True | Some (ts, e) \<Rightarrow> exprs ts e \<and> starts ts)"

lemma else_clause:
  assumes "opt_ok els" and "view p = opt_toks (Some ''Else'') els @ KW ''End'' # rest" and "length (view p) \<le> Suc m"
  shows "\<exists>q. opt_clause ''Else'' (c_expr (calls_n (Suc m))) p = Inr (map_option snd els, q) \<and> view q = KW ''End'' # rest"
proof (cases els)
  case None
  then show ?thesis using assms(2) by (simp add: opt_toks_def opt_clause_def current_view)
next
  case (Some a)
  obtain ts e where a: "els = Some (ts, e)" using Some by (cases a) auto
  obtain q where "parse_or_expr (calls_n m) (advance p) = Inr (e, q)" "view q = KW ''End'' # rest"
    using exprsD [of ts e "advance p" "KW ''End''" rest m] assms a ends_keywords by (auto simp: opt_ok_def opt_toks_def)
  then show ?thesis using assms(2) a by (simp add: opt_toks_def opt_clause_def current_view [of p])
qed

lemma length_when_toks: "list_all2 expr_pair wts ws \<Longrightarrow> length ws \<le> length (when_toks wts)"
proof (induction wts arbitrary: ws rule: when_toks.induct)
  case (2 a b r)
  obtain w ws' where w: "ws = w # ws'" "list_all2 expr_pair r ws'" using "2.prems" by (auto simp: list_all2_Cons1)
  then show ?case using "2.IH" [OF w(2)] by simp
qed simp

lemma parses_case:
  assumes operand: "opt_ok op" and whens: "list_all2 expr_pair wts ws" and els: "opt_ok els" and ne: "op = None \<longrightarrow> ws \<noteq> []"
  shows "parses (KW ''Case'' # opt_toks None op @ when_toks wts @ opt_toks (Some ''Else'') els @ [KW ''End'']) (Case (map_option snd op) ws (map_option snd els))"
proof (rule parsesI)
  let ?tail = "\<lambda>rest. opt_toks (Some ''Else'') els @ KW ''End'' # rest"
  fix p m rest assume v: "view p = (KW ''Case'' # opt_toks None op @ when_toks wts @ opt_toks (Some ''Else'') els @ [KW ''End'']) @ rest"
    and m: "length (view p) \<le> m"
  obtain m' where m': "m = Suc m'" using m v by (cases m) auto
  obtain t tl where t: "?tail rest = t # tl" "t \<in> {KW ''Else'', KW ''End''}"
    by (cases els) (auto simp: opt_toks_def)
  obtain u us where u: "when_toks wts @ t # tl = u # us" "ends_expr u" using when_toks_next [OF t(2)] by blast
  have vp: "view p = KW ''Case'' # opt_toks None op @ when_toks wts @ t # tl" using v t(1) by simp
  then have va: "view (advance p) = opt_toks None op @ when_toks wts @ t # tl" by simp
  have "\<exists>q. (if at_kw ''When'' (advance p) then Inr (None, advance p)
        else rbind (c_expr (calls_n m) (advance p)) (\<lambda>(e, p1). Inr (Some e, p1))) = Inr (map_option snd op, q) \<and> view q = when_toks wts @ t # tl"
  proof (cases op)
    case None
    then obtain w r where "wts = w # r" using ne whens by (cases wts) auto
    then show ?thesis using va None by (cases w) (simp add: opt_toks_def current_view)
  next
    case (Some a)
    obtain ts e where a: "op = Some (ts, e)" using Some by (cases a) auto
    then have e: "exprs ts e" "starts ts" and vb: "view (advance p) = ts @ u # us" using operand va u by (auto simp: opt_ok_def opt_toks_def)
    have "current (advance p) \<noteq> KW ''When''" using starts_current [OF e(2) vb] by simp
    moreover obtain q where "parse_or_expr (calls_n m') (advance p) = Inr (e, q)" "view q = u # us"
      using exprsD [OF e(1) vb u(2), of m'] m m' v by auto
    ultimately show ?thesis using a m' u by simp
  qed
  then obtain q1 where q1: "(if at_kw ''When'' (advance p) then Inr (None, advance p)
        else rbind (c_expr (calls_n m) (advance p)) (\<lambda>(e, p1). Inr (Some e, p1))) = Inr (map_option snd op, q1)" "view q1 = when_toks wts @ t # tl" by blast
  have l1: "length (view q1) \<le> m'" using q1(2) vp m m' by simp
  obtain q2 where q2: "when_loop (Suc (remaining q1)) (calls_n m) q1 = Inr (ws, q2)" "view q2 = ?tail rest"
    using when_loop_toks [OF whens q1(2) t(2) l1, of "Suc (remaining q1)"] q1(2) length_when_toks [OF whens] m' t(1) by (auto simp: remaining_view)
  have l2: "length (view q2) \<le> Suc m'" using q2(2) q1(2) l1 t(1) by simp
  obtain q3 where q3: "opt_clause ''Else'' (c_expr (calls_n m)) q2 = Inr (map_option snd els, q3)" "view q3 = KW ''End'' # rest"
    using else_clause [OF els q2(2) l2] m' by auto
  have "parse_case (calls_n m) (advance p) = Inr (Case (map_option snd op) ws (map_option snd els), advance q3)"
    unfolding parse_case_def q1(1) using q2(1) q3 by (simp add: expect_view del: when_loop.simps)
  then show "current p \<notin> {KW ''Not'', Sym SMinus} \<and>
      (\<exists>q. primary_head (calls_n m) p = Inr (Case (map_option snd op) ws (map_option snd els), q) \<and> view q = rest)"
    using v q3 by (simp add: primary_head_def current_view)
qed

definition type_token :: "data_type \<Rightarrow> token" where
  "type_token t = KW (case t of
     TBool \<Rightarrow> ''Bool'' | TInt64 \<Rightarrow> ''Int'' | TFloat64 \<Rightarrow> ''Float'' | TText \<Rightarrow> ''Text'' | TBytes \<Rightarrow> ''Bytes'' | TJson \<Rightarrow> ''Json''
   | TTimestamp \<Rightarrow> ''Timestamp'' | TDate \<Rightarrow> ''Date'' | TDecimal \<Rightarrow> ''Numeric'' | TUuid \<Rightarrow> ''Uuid'' | TInterval \<Rightarrow> ''Interval'')"

lemma type_token_type: "type_of_token (type_token t) = Some t"
  by (cases t) (simp_all add: type_token_def type_of_token_def type_of_keyword_def)

lemma parse_type_token:
  assumes "view p = type_token t # Sym SRParen # rest"
  shows "\<exists>q. parse_data_type p = Inr ((t, None), q) \<and> view q = Sym SRParen # rest"
proof -
  have "current p = type_token t" "current (advance (p\<lparr>last_data_type_serial := b\<rparr>)) = Sym SRParen" for b using assms by (simp_all add: current_view)
  moreover have "current (p\<lparr>last_data_type_serial := b\<rparr>) = current p" for b by (simp add: current_def)
  ultimately show ?thesis
    using assms by (auto simp: parse_data_type_def Let_def type_token_type skip_precision_def)
qed

lemma parses_cast:
  assumes "exprs ts e"
  shows "parses (KW ''Cast'' # Sym SLParen # ts @ [KW ''As'', type_token t, Sym SRParen]) (Cast e t)"
proof (rule parsesI)
  fix p m rest assume v: "view p = (KW ''Cast'' # Sym SLParen # ts @ [KW ''As'', type_token t, Sym SRParen]) @ rest" and m: "length (view p) \<le> m"
  obtain m' where m': "m = Suc m'" using m v by (cases m) auto
  obtain q where q: "parse_or_expr (calls_n m') (advance (advance p)) = Inr (e, q)" "view q = KW ''As'' # type_token t # Sym SRParen # rest"
    using exprsD [OF assms, of "advance (advance p)" "KW ''As''" "type_token t # Sym SRParen # rest" m'] v m m' ends_keywords by auto
  obtain q1 where q1: "parse_data_type (advance q) = Inr ((t, None), q1)" "view q1 = Sym SRParen # rest"
    using parse_type_token [of "advance q"] q by auto
  show "current p \<notin> {KW ''Not'', Sym SMinus} \<and> (\<exists>q. primary_head (calls_n m) p = Inr (Cast e t, q) \<and> view q = rest)"
    using v q q1 m' by (simp add: primary_head_def current_view [of p] parse_cast_def expect_view)
qed

section \<open>Printed expressions are read back\<close>

subsection \<open>Texts between separators\<close>

lemma lexesD: "lexes s ts \<Longrightarrow> separates rest \<Longrightarrow> emits s ts rest"
  by (simp add: lexes_def)

lemma lexesI: "(\<And>rest. separates rest \<Longrightarrow> emits s ts rest) \<Longrightarrow> lexes s ts"
  by (simp add: lexes_def)

lemma separates_simps [simp]:
  "separates []" "separates (CHR '' '' # c # r) \<longleftrightarrow> c \<noteq> CHR 0x27" "separates (CHR '','' # c # r) \<longleftrightarrow> c \<noteq> CHR 0x27"
  "separates rest \<Longrightarrow> separates (CHR '')'' # rest)"
  by (auto simp: separates_def peek_next_def split: list.split)

lemma ends_word_simps [simp]:
  "ends_word (CHR '' '' # r)" "ends_word (CHR '')'' # r)" "ends_word (CHR ''('' # r)" "ends_word (CHR ''.'' # r)" "ends_word (CHR '','' # r)"
  by (simp_all add: ends_word_def char_defs)

lemma emits_kw: "is_word w \<Longrightarrow> word_token w = t \<Longrightarrow> ends_word rest \<Longrightarrow> emits w [t] rest"
  using emits_word by blast

lemma lexes_nil: "lexes [] []"
  by (simp add: lexes_def emits_nil)

lemma emits_long:
  assumes "\<not> is_ascii_digit c" and "\<not> is_whitespace c" and "c \<noteq> CHR ''-''" and "single_symbol c = None" and "long_symbol c (cs @ rest) = Some (Inr (Sym s, rest))"
  shows "emits (c # cs) [Sym s] rest"
  by (rule emits_token) (use assms in \<open>simp_all add: next_token_scan not_comment scan_token_def\<close>)

lemma emits_op:
  assumes "at_char (CHR '' '') rest"
  shows "emits (binop_sql b) [op_token b] rest"
proof -
  obtain r where r: "rest = CHR '' '' # r" using assms by (cases rest) (auto simp: at_char_def)
  consider "b \<in> {BAnd, BOr, BLike, BIlike}" | "b \<in> {BPlus, BMinus, BMul, BDiv, BMod}" | "b \<in> {BEq, BNeq, BLt, BGt, BLte, BGte}" by (cases b) auto
  then show ?thesis
  proof cases
    case 1
    then show ?thesis by (intro emits_kw) (auto simp: binop_sql.simps op_token_def keyword_words keyword_tokens r)
  next
    case 2
    then obtain c s where "binop_sql b = [c]" "op_token b = Sym s" "single_symbol c = Some s" by (auto simp: binop_sql.simps op_token_def single_symbol_def)
    then show ?thesis by (simp add: emits_symbol is_comment_def peek_next_def r)
  next
    case 3
    then show ?thesis
      by (elim insertE; simp add: binop_sql.simps op_token_def; intro emits_long)
        (simp_all add: is_ascii_digit_def is_whitespace_def single_symbol_def long_symbol_def at_char_def r)
  qed
qed

lemma type_tokens:
  "word_token ''BOOL'' = KW ''Bool''" "word_token ''INT'' = KW ''Int''" "word_token ''FLOAT'' = KW ''Float''" "word_token ''TEXT'' = KW ''Text''"
  "word_token ''BYTES'' = KW ''Bytes''" "word_token ''JSON'' = KW ''Json''" "word_token ''TIMESTAMP'' = KW ''Timestamp''" "word_token ''DATE'' = KW ''Date''"
  "word_token ''DECIMAL'' = KW ''Numeric''" "word_token ''UUID'' = KW ''Uuid''"
  by (simp_all add: word_token_def is_keyword_def keyword_table_def to_uppercase_def to_ascii_uppercase_def is_lower_def)

lemma type_words: "is_word (type_to_string t)" "word_token (type_to_string t) = type_token t"
  by (cases t; simp add: type_to_string_def is_word_def char_defs)
    (cases t; simp add: type_to_string_def type_token_def type_tokens keyword_tokens)

lemma emits_type: "ends_word rest \<Longrightarrow> emits (type_to_string t) [type_token t] rest"
  by (intro emits_kw type_words)

lemmas emit_rules = emits_append emits_lparen emits_rparen emits_comma emits_dot emits_star emits_space emits_quoted emits_op emits_type emits_kw lexesD

lemmas emit_simps = keyword_words keyword_tokens at_char_def

lemma lexes_list: "list_all2 lexes ss tss \<Longrightarrow> lexes (comma_join ss) (join_toks tss)"
proof (induction ss arbitrary: tss rule: comma_join.induct)
  case (3 s s' ss)
  obtain ts us uss where t: "tss = ts # us # uss" "lexes s ts" "list_all2 lexes (s' # ss) (us # uss)" using "3.prems" by (auto simp: list_all2_Cons1)
  have l: "lexes (comma_join (s' # ss)) (join_toks (us # uss))" using "3.IH" [OF t(3)] .
  have "lexes (s @ '','' @ '' '' @ comma_join (s' # ss)) (ts @ [Sym SComma] @ [] @ join_toks (us # uss))"
    by (rule lexesI) (rule emit_rules t(2) l | assumption | simp)+
  then show ?case using t(1) by simp
qed (auto simp: list_all2_Cons1 lexes_nil)

subsection \<open>Float literals\<close>

lemma number_span_rest:
  "number_span b s = (a, b', r) \<Longrightarrow> rest = [] \<or> hd rest \<noteq> CHR ''.'' \<and> \<not> is_ascii_digit (hd rest) \<Longrightarrow> number_span b (s @ rest) = (a, b', r @ rest)"
proof (induction s arbitrary: b a)
  case Nil
  then show ?case by (cases rest) auto
qed (auto split: if_splits prod.splits)

lemma exponent_span_rest:
  assumes "separates rest" and "exponent_span r = Some (e, [])"
  shows "exponent_span (r @ rest) = Some (e, rest)" and "peek_next (r @ rest) \<noteq> Some (CHR 0x27)"
proof -
  have w: "takeWhile is_ascii_digit (t @ rest) = t \<and> dropWhile is_ascii_digit (t @ rest) = rest" if "\<forall>c\<in>set t. is_ascii_digit c" for t
    using that separates_number(1) [OF assms(1)] by (cases rest) auto
  have d: "\<forall>c\<in>set t. is_ascii_digit c \<Longrightarrow> takeWhile is_ascii_digit t = t" for t by (simp add: takeWhile_eq_all_conv)
  have q: "\<not> is_ascii_digit (CHR 0x27)" by (simp add: is_ascii_digit_def)
  show "exponent_span (r @ rest) = Some (e, rest)"
    using assms(2) w by (auto simp: d exponent_span_def Let_def dropWhile_eq_Nil_conv split: list.splits if_splits)
  show "peek_next (r @ rest) \<noteq> Some (CHR 0x27)"
    using assms(2) q by (auto simp: exponent_span_def Let_def peek_next_def split: list.splits if_splits)
qed

lemma read_hex_blob_token: "read_hex_blob r = Inr (t, r') \<Longrightarrow> \<exists>bs. t = HexBlob bs"
  by (auto simp: read_hex_blob_def rbind_eq_Inr split: list.splits if_splits)

definition reads_float :: "string \<Rightarrow> u64 \<Rightarrow> bool" where
  "reads_float s f \<longleftrightarrow> s \<noteq> [] \<and> is_ascii_digit (hd s) \<and> read_number s = Inr (FloatLit f, [])"

lemma read_number_rest:
  assumes "read_number s = Inr (FloatLit f, [])" and rest: "separates rest"
  shows "read_number (s @ rest) = Inr (FloatLit f, rest)"
proof -
  obtain a b r where n: "number_span False s = (a, b, r)" by (cases "number_span False s")
  have nr: "number_span False (s @ rest) = (a, b, r @ rest)" by (rule number_span_rest [OF n separates_number(1) [OF rest]])
  have h: "\<not> (a = ''0'' \<and> peek_next r = Some (CHR 0x27))" using assms(1) n read_hex_blob_token [of r "FloatLit f" "[]"] by (auto simp: read_number_def)
  show ?thesis
  proof (cases "exponent_span r")
    case None
    then have r: "r = []" "b" "f = parse_f64 a" using assms(1) n h by (auto simp: read_number_def split: if_splits option.splits)
    then show ?thesis using nr separates_number(2,3) [OF rest] by (simp add: read_number_def)
  next
    case (Some x)
    then obtain e where e: "exponent_span r = Some (e, [])" "f = parse_f64 (a @ e)" using assms(1) n h by (cases x) (auto simp: read_number_def)
    then show ?thesis using nr exponent_span_rest [OF rest e(1)] by (simp add: read_number_def)
  qed
qed

lemma lexes_float:
  assumes "reads_float s f"
  shows "lexes s [FloatLit f]"
  unfolding lexes_def
proof (intro allI impI)
  fix rest assume rest: "separates rest"
  obtain c cs where c: "s = c # cs" "is_ascii_digit c" using assms by (cases s) (auto simp: reads_float_def)
  have "read_number (s @ rest) = Inr (FloatLit f, rest)" using assms rest by (intro read_number_rest) (simp_all add: reads_float_def)
  then show "emits s [FloatLit f] rest" using c by (intro emits_token) (simp_all add: digit_scan)
qed

subsection \<open>Printable expressions\<close>

text \<open>
  Expressions that the printer can write down. Left out are the constructors that it replaces by \<open>NULL\<close> (queries, windows,
  \<open>DEFAULT\<close>) or writes without their mark (\<open>JsonPath\<close>), strings with a quote or a backslash, names that are keywords, and the
  smallest integer, whose absolute value is no \<open>i64\<close>. A float is printable when the lexer reads its text back.
\<close>

definition is_name :: "string \<Rightarrow> bool" where
  "is_name n \<longleftrightarrow> is_word n \<and> is_keyword n = None"

definition is_column_name :: "string \<Rightarrow> bool" where
  "is_column_name c \<longleftrightarrow> is_word c \<and> (case is_keyword c of None \<Rightarrow> True | Some t \<Rightarrow> (case t of KW k \<Rightarrow> ident_keyword k = Some c | _ \<Rightarrow> False))"

definition printable_literal :: "(u64 \<Rightarrow> string) \<Rightarrow> literal_value \<Rightarrow> bool" where
  "printable_literal fl l = (case l of
     LInteger n \<Rightarrow> sint n \<noteq> - (2 ^ 63)
   | LFloat f \<Rightarrow> (if at_char CHR ''-'' (fl f) then reads_float (tl (fl f)) (f XOR push_bit 63 1) else reads_float (fl f) f)
   | LString s \<Rightarrow> plain_string s
   | _ \<Rightarrow> True)"

definition is_number :: "expr \<Rightarrow> bool" where
  "is_number e \<longleftrightarrow> (case e of Literal (LInteger _) \<Rightarrow> True | Literal (LFloat _) \<Rightarrow> True | _ \<Rightarrow> False)"

inductive printable :: "(u64 \<Rightarrow> string) \<Rightarrow> expr \<Rightarrow> bool" for fl where
  literal: "printable_literal fl l \<Longrightarrow> printable fl (Literal l)"
| column: "is_name n \<Longrightarrow> printable fl (Column n)"
| qualified_column: "is_name t \<Longrightarrow> is_column_name c \<Longrightarrow> printable fl (QualifiedColumn t c)"
| binary: "printable fl l \<Longrightarrow> printable fl r \<Longrightarrow> printable fl (BinaryOp l b r)"
| negation: "printable fl e \<Longrightarrow> printable fl (UnaryOp UNot e)"
| minus: "printable fl e \<Longrightarrow> \<not> is_number e \<Longrightarrow> printable fl (UnaryOp UNeg e)"
| call_star: "is_name n \<Longrightarrow> printable fl (Function n [Column ''*''])"
| call: "is_name n \<Longrightarrow> \<forall>a\<in>set args. printable fl a \<Longrightarrow> printable fl (Function n args)"
| is_null: "printable fl e \<Longrightarrow> printable fl (IsNull e)"
| is_not_null: "printable fl e \<Longrightarrow> printable fl (IsNotNull e)"
| in_list: "printable fl e \<Longrightarrow> es \<noteq> [] \<Longrightarrow> \<forall>a\<in>set es. printable fl a \<Longrightarrow> printable fl (InList e es)"
| between: "printable fl e \<Longrightarrow> printable fl a \<Longrightarrow> printable fl b \<Longrightarrow> printable fl (Between e a b)"
| case_when: "\<forall>e\<in>set_option operand. printable fl e \<Longrightarrow> \<forall>(w, t)\<in>set whens. printable fl w \<and> printable fl t \<Longrightarrow>
    \<forall>e\<in>set_option els. printable fl e \<Longrightarrow> operand \<noteq> None \<or> whens \<noteq> [] \<Longrightarrow> printable fl (Case operand whens els)"
| cast: "printable fl e \<Longrightarrow> printable fl (Cast e t)"
| interval: "plain_string s \<Longrightarrow> printable fl (Interval s)"

lemma choose_list: "\<forall>a\<in>set as. \<exists>t. P t a \<Longrightarrow> \<exists>ts. list_all2 P ts as"
proof (induction as)
  case (Cons a as)
  then obtain t ts where "P t a" "list_all2 P ts as" by auto
  then have "list_all2 P (t # ts) (a # as)" by simp
  then show ?case by blast
qed simp

text \<open>The text of an expression is read as tokens that parse as the expression.\<close>

definition reads_back :: "(u64 \<Rightarrow> string) \<Rightarrow> token list \<Rightarrow> expr \<Rightarrow> bool" where
  "reads_back fl ts e \<longleftrightarrow> lexes (write_expr fl e) ts \<and> parses ts e"

lemma reads_backD:
  assumes "reads_back fl ts e"
  shows "lexes (write_expr fl e) ts" "parses ts e" "exprs ts e" "starts ts"
  using assms parses_exprs [of ts e] parses_starts [of ts e] by (simp_all add: reads_back_def)

lemma reads_back_list:
  assumes "list_all2 (reads_back fl) tss es"
  shows "list_all2 lexes (map (write_expr fl) es) tss" "list_all2 exprs tss es" "list_all starts tss"
  using assms by (induction rule: list_all2_induct) (simp_all add: reads_backD)

lemma back_paren:
  assumes "write_expr fl e = ''('' @ s @ '')''" and "lexes s ts" and "exprs ts e" and "starts ts"
  shows "reads_back fl (Sym SLParen # ts @ [Sym SRParen]) e"
proof -
  have "lexes (''('' @ s @ '')'') ([Sym SLParen] @ ts @ [Sym SRParen])" by (rule lexesI) (rule emit_rules assms(2) | assumption | simp)+
  then show ?thesis using assms(1) parses_paren [OF assms(3,4)] by (simp add: reads_back_def)
qed

lemma back_integer:
  assumes "sint n \<noteq> - (2 ^ 63)"
  shows "\<exists>ts. reads_back fl ts (Literal (LInteger n))"
proof -
  let ?k = "nat \<bar>sint n\<bar>"
  have n: "?k < 2 ^ 63" using assms sint_ge [of n] sint_lt [of n] by auto
  have k: "of_nat ?k = (if sint n < 0 then - n else n)" by (simp add: abs_if)
  show ?thesis
  proof (cases "sint n < 0")
    case True
    have "\<not> at_char CHR ''-'' (dec_digits ?k @ rest)" for rest
      using dec_digits_digits [of ?k] by (cases "dec_digits ?k") (auto simp: at_char_def is_ascii_digit_def)
    then have "emits (''-'' @ dec_digits ?k) ([Sym SMinus] @ [IntLit (- n)]) rest" if "separates rest" for rest
      using that lexes_number [OF n] True k by (intro emits_append emits_minus lexesD) simp_all
    then have "lexes (int_to_string n) [Sym SMinus, IntLit (- n)]" using True by (simp add: lexes_def int_to_string_def)
    moreover have "parses [Sym SMinus, IntLit (- n)] (Literal (LInteger n))"
      using parses_negated [OF parses_literals(1) [of "- n"]] by (simp add: negate_expr_def)
    ultimately show ?thesis by (auto simp: reads_back_def)
  next
    case False
    then show ?thesis using lexes_number [OF n] k parses_literals(1) [of n] by (auto simp: reads_back_def int_to_string_def)
  qed
qed

lemma back_negative_float:
  assumes r: "reads_float s (f XOR push_bit 63 1)" and s: "fl f = CHR ''-'' # s"
  shows "\<exists>ts. reads_back fl ts (Literal (LFloat f))"
proof -
  let ?g = "f XOR push_bit 63 1"
  have "\<not> at_char CHR ''-'' (s @ rest)" for rest
    using r by (cases s) (auto simp: reads_float_def at_char_def is_ascii_digit_def)
  then have "emits (''-'' @ s) ([Sym SMinus] @ [FloatLit ?g]) rest" if "separates rest" for rest
    using that lexes_float [OF r] by (intro emits_append emits_minus lexesD) simp_all
  then have "lexes (fl f) [Sym SMinus, FloatLit ?g]" by (simp add: lexes_def s)
  moreover have "parses [Sym SMinus, FloatLit ?g] (Literal (LFloat f))"
    using parses_negated [OF parses_literals(2) [of ?g]] by (simp add: negate_expr_def xor.assoc)
  ultimately show ?thesis by (auto simp: reads_back_def)
qed

lemma back_literal:
  assumes "printable_literal fl l"
  shows "\<exists>ts. reads_back fl ts (Literal l)"
proof (cases l)
  case (LInteger n)
  then show ?thesis using assms back_integer by (simp add: printable_literal_def)
next
  case (LFloat f)
  then show ?thesis using assms back_negative_float [of "tl (fl f)" f fl] lexes_float [of "fl f" f] parses_literals(2) [of f]
    by (cases "fl f") (auto simp: printable_literal_def at_char_def reads_back_def split: if_splits)
next
  case (LString s)
  then have "lexes (quote_string s) [StringLit s]" using assms emits_quoted by (simp add: printable_literal_def lexes_def)
  then show ?thesis using LString parses_literals(3) by (auto simp: reads_back_def)
next
  case (LBool b)
  have "lexes (if b then ''TRUE'' else ''FALSE'') [BoolLit b]" using lexes_word [of "''TRUE''"] lexes_word [of "''FALSE''"] by (simp add: emit_simps)
  then show ?thesis using LBool parses_literals(4) [of b] by (auto simp: reads_back_def)
next
  case LNull
  then show ?thesis using lexes_word [of "''NULL''"] parses_literals(5) by (auto simp: emit_simps reads_back_def)
next
  case (LHexBlob bs)
  then show ?thesis using emits_hex [of bs] parses_literals(6) [of bs] by (auto simp: reads_back_def lexes_def)
qed

lemma name_token: "is_name n \<Longrightarrow> is_word n \<and> word_token n = Ident n"
  by (simp add: is_name_def word_token_def)

lemma column_token: "is_column_name c \<Longrightarrow> is_word c \<and> names_column (word_token c) c"
  by (auto simp: is_column_name_def word_token_def names_column_def split: option.splits token.splits)

lemma back_column: "is_name n \<Longrightarrow> reads_back fl [Ident n] (Column n)"
  using lexes_word [of n] name_token [of n] parses_column by (simp add: reads_back_def)

lemma back_qualified:
  assumes "is_name t" and "is_column_name c"
  shows "reads_back fl [Ident t, Sym SDot, word_token c] (QualifiedColumn t c)"
proof -
  note t = name_token [OF assms(1)] and c = column_token [OF assms(2)]
  have "lexes (t @ ''.'' @ c) ([Ident t] @ [Sym SDot] @ [word_token c])"
    by (rule lexesI) (rule emit_rules | simp add: t c separates_ends_word)+
  then show ?thesis using parses_qualified c by (simp add: reads_back_def)
qed

lemma back_interval:
  assumes "plain_string s"
  shows "reads_back fl [KW ''Interval'', StringLit s] (Interval s)"
proof -
  have "lexes (''INTERVAL'' @ '' '' @ quote_string s) ([KW ''Interval''] @ [] @ [StringLit s])"
    by (rule lexesI) (rule emit_rules | simp add: assms emit_simps)+
  then show ?thesis using parses_interval by (simp add: reads_back_def)
qed

lemma back_binary:
  assumes "reads_back fl ls l" and "reads_back fl rs r"
  shows "reads_back fl (Sym SLParen # (ls @ op_token b # rs) @ [Sym SRParen]) (BinaryOp l b r)"
proof (rule back_paren)
  note l = reads_backD [OF assms(1)] and r = reads_backD [OF assms(2)]
  have "binop_sql b \<noteq> [] \<and> hd (binop_sql b) \<noteq> CHR 0x27" by (cases b) (simp_all add: binop_sql.simps)
  then have sep: "separates (CHR '' '' # binop_sql b @ s)" for s by (cases "binop_sql b") simp_all
  have "lexes (write_expr fl l @ '' '' @ binop_sql b @ '' '' @ write_expr fl r) (ls @ [] @ [op_token b] @ [] @ rs)"
    by (intro lexesI) (rule emit_rules l(1) r(1) | assumption | simp add: sep at_char_def)+
  then show "lexes (write_expr fl l @ '' '' @ binop_sql b @ '' '' @ write_expr fl r) (ls @ op_token b # rs)" by simp
  show "exprs (ls @ op_token b # rs) (BinaryOp l b r)" by (rule exprs_binary [OF l(2) r(2)])
  show "starts (ls @ op_token b # rs)" by (rule starts_append [OF l(4)])
qed simp

lemma back_not:
  assumes "reads_back fl ts e"
  shows "reads_back fl (Sym SLParen # (KW ''Not'' # ts) @ [Sym SRParen]) (UnaryOp UNot e)"
proof (rule back_paren)
  note e = reads_backD [OF assms]
  have "lexes (''NOT'' @ '' '' @ write_expr fl e) ([KW ''Not''] @ [] @ ts)"
    by (intro lexesI) (rule emit_rules e(1) | assumption | simp add: emit_simps)+
  then show "lexes (''NOT '' @ write_expr fl e) (KW ''Not'' # ts)" by simp
  show "exprs (KW ''Not'' # ts) (UnaryOp UNot e)" by (rule parses_exprs [OF parses_not [OF e(2)]])
qed (simp_all add: starts_def)

lemma not_minus:
  assumes "printable fl e" and "\<not> is_number e"
  shows "\<not> at_char CHR ''-'' (write_expr fl e @ rest)"
proof -
  have n: "\<not> at_char CHR ''-'' (n @ r)" if "is_name n" for n r
    using that by (cases n) (auto simp: is_name_def is_word_def at_char_def char_defs)
  show ?thesis using assms
  proof (cases rule: printable.cases)
    case (literal l)
    then show ?thesis using assms(2) by (cases l) (auto simp: is_number_def at_char_def quote_string_def)
  next
    case (column c)
    then show ?thesis using n by simp
  next
    case (qualified_column t c)
    then show ?thesis using n [of t] by simp
  next
    case (call_star f)
    then show ?thesis using n [of f] by simp
  next
    case (call f as)
    then show ?thesis using n [of f] by simp
  qed (auto simp: at_char_def split: unary_op.split)
qed

lemma back_minus:
  assumes "reads_back fl ts e" and "printable fl e" and "\<not> is_number e"
  shows "reads_back fl (Sym SLParen # (Sym SMinus # ts) @ [Sym SRParen]) (UnaryOp UNeg e)"
proof (rule back_paren)
  note e = reads_backD [OF assms(1)]
  have "emits (''-'' @ write_expr fl e) ([Sym SMinus] @ ts) rest" if "separates rest" for rest
    using that e(1) not_minus [OF assms(2,3)] by (intro emits_append emits_minus lexesD)
  then show "lexes (''-'' @ write_expr fl e) (Sym SMinus # ts)" by (simp add: lexes_def)
  have "negate_expr e = UnaryOp UNeg e" using assms(3) by (auto simp: negate_expr_def is_number_def split: expr.splits literal_value.splits)
  then show "exprs (Sym SMinus # ts) (UnaryOp UNeg e)" using parses_exprs [OF parses_negated [OF e(2)]] by simp
qed (simp_all add: starts_def)

lemma back_is_null:
  assumes "reads_back fl ts e"
  shows "reads_back fl (Sym SLParen # (ts @ KW ''Is'' # [NullLit]) @ [Sym SRParen]) (IsNull e)"
proof (rule back_paren)
  note e = reads_backD [OF assms]
  have "lexes (write_expr fl e @ '' '' @ ''IS'' @ '' '' @ ''NULL'') (ts @ [] @ [KW ''Is''] @ [] @ [NullLit])"
    by (intro lexesI) (rule emit_rules e(1) | assumption | simp add: emit_simps separates_ends_word)+
  then show "lexes (write_expr fl e @ '' IS NULL'') (ts @ KW ''Is'' # [NullLit])" by simp
  show "exprs (ts @ KW ''Is'' # [NullLit]) (IsNull e)" by (rule exprs_is_null [OF e(2)])
  show "starts (ts @ KW ''Is'' # [NullLit])" by (rule starts_append [OF e(4)])
qed simp

lemma back_is_not_null:
  assumes "reads_back fl ts e"
  shows "reads_back fl (Sym SLParen # (ts @ KW ''Is'' # [KW ''Not'', NullLit]) @ [Sym SRParen]) (IsNotNull e)"
proof (rule back_paren)
  note e = reads_backD [OF assms]
  have "lexes (write_expr fl e @ '' '' @ ''IS'' @ '' '' @ ''NOT'' @ '' '' @ ''NULL'') (ts @ [] @ [KW ''Is''] @ [] @ [KW ''Not''] @ [] @ [NullLit])"
    by (intro lexesI) (rule emit_rules e(1) | assumption | simp add: emit_simps separates_ends_word)+
  then show "lexes (write_expr fl e @ '' IS NOT NULL'') (ts @ KW ''Is'' # [KW ''Not'', NullLit])" by simp
  show "exprs (ts @ KW ''Is'' # [KW ''Not'', NullLit]) (IsNotNull e)" by (rule exprs_is_not_null [OF e(2)])
  show "starts (ts @ KW ''Is'' # [KW ''Not'', NullLit])" by (rule starts_append [OF e(4)])
qed simp

lemma back_between:
  assumes "reads_back fl ts e" and "reads_back fl as a" and "reads_back fl bs b"
  shows "reads_back fl (Sym SLParen # (ts @ KW ''Between'' # as @ KW ''And'' # bs) @ [Sym SRParen]) (Between e a b)"
proof (rule back_paren)
  note e = reads_backD [OF assms(1)] and a = reads_backD [OF assms(2)] and b = reads_backD [OF assms(3)]
  have "lexes (write_expr fl e @ '' '' @ ''BETWEEN'' @ '' '' @ write_expr fl a @ '' '' @ ''AND'' @ '' '' @ write_expr fl b)
      (ts @ [] @ [KW ''Between''] @ [] @ as @ [] @ [KW ''And''] @ [] @ bs)"
    by (intro lexesI) (rule emit_rules e(1) a(1) b(1) | assumption | simp add: emit_simps)+
  then show "lexes (write_expr fl e @ '' BETWEEN '' @ write_expr fl a @ '' AND '' @ write_expr fl b) (ts @ KW ''Between'' # as @ KW ''And'' # bs)" by simp
  show "exprs (ts @ KW ''Between'' # as @ KW ''And'' # bs) (Between e a b)" by (rule exprs_between [OF e(2) a(2) b(2)])
  show "starts (ts @ KW ''Between'' # as @ KW ''And'' # bs)" by (rule starts_append [OF e(4)])
qed simp

lemma back_in_list:
  assumes "reads_back fl ts e" and "list_all2 (reads_back fl) tss es" and "es \<noteq> []"
  shows "reads_back fl (Sym SLParen # (ts @ KW ''In'' # Sym SLParen # join_toks tss @ [Sym SRParen]) @ [Sym SRParen]) (InList e es)"
proof (rule back_paren)
  note e = reads_backD [OF assms(1)] and es = reads_back_list [OF assms(2)]
  note l = lexes_list [OF es(1)]
  let ?s = "comma_join (map (write_expr fl) es)"
  have "lexes (write_expr fl e @ '' '' @ ''IN'' @ '' '' @ ''('' @ ?s @ '')'') (ts @ [] @ [KW ''In''] @ [] @ [Sym SLParen] @ join_toks tss @ [Sym SRParen])"
    by (intro lexesI) (rule emit_rules e(1) l | assumption | simp add: emit_simps)+
  then show "lexes (write_expr fl e @ '' IN ('' @ ?s @ '')'') (ts @ KW ''In'' # Sym SLParen # join_toks tss @ [Sym SRParen])" by simp
  show "exprs (ts @ KW ''In'' # Sym SLParen # join_toks tss @ [Sym SRParen]) (InList e es)" by (rule exprs_in_list [OF e(2) es(2) assms(3) es(3)])
  show "starts (ts @ KW ''In'' # Sym SLParen # join_toks tss @ [Sym SRParen])" by (rule starts_append [OF e(4)])
qed simp

lemma back_call:
  assumes "is_name n" and "lexes s us" and "parses (Ident n # Sym SLParen # us @ [Sym SRParen]) (Function n es)" and "s = comma_join (map (write_expr fl) es)"
  shows "reads_back fl (Ident n # Sym SLParen # us @ [Sym SRParen]) (Function n es)"
proof -
  note n = name_token [OF assms(1)]
  have "lexes (n @ ''('' @ s @ '')'') ([Ident n] @ [Sym SLParen] @ us @ [Sym SRParen])"
    by (intro lexesI) (rule emit_rules assms(2) | assumption | simp add: n)+
  then show ?thesis using assms(3,4) by (simp add: reads_back_def)
qed

lemma back_call_args:
  assumes "is_name n" and "list_all2 (reads_back fl) tss es"
  shows "reads_back fl (Ident n # Sym SLParen # join_toks tss @ [Sym SRParen]) (Function n es)"
proof (rule back_call [OF assms(1) lexes_list [OF reads_back_list(1) [OF assms(2)]] _ refl])
  show "parses (Ident n # Sym SLParen # join_toks tss @ [Sym SRParen]) (Function n es)"
    using parses_call [OF reads_back_list(2) [OF assms(2)] _ reads_back_list(3) [OF assms(2)]] parses_call_fixed [of "join_toks tss" es n] assms(2)
    by (cases es) auto
qed

lemma back_call_star:
  assumes "is_name n"
  shows "reads_back fl (Ident n # Sym SLParen # [Sym SStar] @ [Sym SRParen]) (Function n [Column ''*''])"
  by (rule back_call [OF assms, of "''*''"]) (simp_all add: lexes_def emits_star parses_call_fixed del: append_Cons append_Nil)

lemma back_cast:
  assumes "reads_back fl ts e"
  shows "reads_back fl (KW ''Cast'' # Sym SLParen # ts @ [KW ''As'', type_token t, Sym SRParen]) (Cast e t)"
proof -
  note e = reads_backD [OF assms]
  have "lexes (''CAST'' @ ''('' @ write_expr fl e @ '' '' @ ''AS'' @ '' '' @ type_to_string t @ '')'')
      ([KW ''Cast''] @ [Sym SLParen] @ ts @ [] @ [KW ''As''] @ [] @ [type_token t] @ [Sym SRParen])"
    by (intro lexesI) (rule emit_rules e(1) | assumption | simp add: emit_simps type_words)+
  then show ?thesis using parses_cast [OF e(3)] by (simp add: reads_back_def)
qed

subsection \<open>\<open>CASE\<close>\<close>

abbreviation when_text :: "(u64 \<Rightarrow> string) \<Rightarrow> expr \<times> expr \<Rightarrow> string" where
  "when_text fl \<equiv> \<lambda>(w, t). '' WHEN '' @ write_expr fl w @ '' THEN '' @ write_expr fl t"

definition back_pair :: "(u64 \<Rightarrow> string) \<Rightarrow> token list \<times> token list \<Rightarrow> expr \<times> expr \<Rightarrow> bool" where
  "back_pair fl a b \<longleftrightarrow> reads_back fl (fst a) (fst b) \<and> reads_back fl (snd a) (snd b)"

lemma separates_whens: "separates rest \<Longrightarrow> separates (concat (map (when_text fl) ws) @ rest)"
  by (cases ws) (auto split: prod.split)

lemma lexes_whens:
  assumes "list_all2 (back_pair fl) wts ws"
  shows "lexes (concat (map (when_text fl) ws)) (when_toks wts)"
  using assms
proof (induction wts ws rule: list_all2_induct)
  case (Cons wt wts w ws)
  obtain cs rs c r where w: "wt = (cs, rs)" "w = (c, r)" by (cases wt; cases w)
  have "reads_back fl cs c" "reads_back fl rs r" using Cons.hyps(1) w by (simp_all add: back_pair_def)
  note c = reads_backD [OF this(1)] and r = reads_backD [OF this(2)]
  let ?rest = "concat (map (when_text fl) ws)"
  have "lexes ('' '' @ ''WHEN'' @ '' '' @ write_expr fl c @ '' '' @ ''THEN'' @ '' '' @ write_expr fl r @ ?rest)
      ([] @ [KW ''When''] @ [] @ cs @ [] @ [KW ''Then''] @ [] @ rs @ when_toks wts)"
    by (intro lexesI) (rule emit_rules c(1) r(1) Cons.IH separates_whens | assumption | simp add: emit_simps)+
  then show "lexes (concat (map (when_text fl) (w # ws))) (when_toks (wt # wts))" using w by simp
qed (simp_all add: lexes_nil)

lemma back_pairs: "list_all2 (back_pair fl) wts ws \<Longrightarrow> list_all2 expr_pair wts ws"
  by (erule list_all2_mono) (use reads_backD(3) in \<open>auto simp: back_pair_def expr_pair_def\<close>)

definition back_opt :: "(u64 \<Rightarrow> string) \<Rightarrow> (token list \<times> expr) option \<Rightarrow> bool" where
  "back_opt fl a \<longleftrightarrow> (case a of None \<Rightarrow> True | Some (ts, e) \<Rightarrow> reads_back fl ts e)"

lemma back_opt_ok: "back_opt fl a \<Longrightarrow> opt_ok a"
  using reads_backD by (auto simp: back_opt_def opt_ok_def split: option.splits)

lemma lexes_operand:
  assumes "back_opt fl op"
  shows "lexes (case map_option snd op of None \<Rightarrow> [] | Some e \<Rightarrow> '' '' @ write_expr fl e) (opt_toks None op)"
proof (cases op)
  case (Some a)
  obtain ts e where a: "a = (ts, e)" by (cases a)
  then have l: "lexes (write_expr fl e) ts" using assms Some reads_backD by (auto simp: back_opt_def)
  have "lexes ('' '' @ write_expr fl e) ([] @ ts)" by (intro lexesI) (rule emit_rules l | assumption)+
  then show ?thesis using Some a by (simp add: opt_toks_def)
qed (simp add: opt_toks_def lexes_nil)

lemma lexes_else:
  assumes "back_opt fl els"
  shows "lexes (case map_option snd els of None \<Rightarrow> [] | Some e \<Rightarrow> '' ELSE '' @ write_expr fl e) (opt_toks (Some ''Else'') els)"
proof (cases els)
  case (Some a)
  obtain ts e where a: "a = (ts, e)" by (cases a)
  then have l: "lexes (write_expr fl e) ts" using assms Some reads_backD by (auto simp: back_opt_def)
  have "lexes ('' '' @ ''ELSE'' @ '' '' @ write_expr fl e) ([] @ [KW ''Else''] @ [] @ ts)"
    by (intro lexesI) (rule emit_rules l | assumption | simp add: emit_simps)+
  then show ?thesis using Some a by (simp add: opt_toks_def)
qed (simp add: opt_toks_def lexes_nil)

lemma back_case:
  assumes "back_opt fl op" and "list_all2 (back_pair fl) wts ws" and "back_opt fl els" and "op \<noteq> None \<or> ws \<noteq> []"
  shows "reads_back fl (KW ''Case'' # opt_toks None op @ when_toks wts @ opt_toks (Some ''Else'') els @ [KW ''End''])
    (Case (map_option snd op) ws (map_option snd els))"
proof -
  let ?o = "case map_option snd op of None \<Rightarrow> [] | Some e \<Rightarrow> '' '' @ write_expr fl e"
  let ?w = "concat (map (when_text fl) ws)"
  let ?e = "case map_option snd els of None \<Rightarrow> [] | Some e \<Rightarrow> '' ELSE '' @ write_expr fl e"
  note l = lexes_operand [OF assms(1)] lexes_whens [OF assms(2)] lexes_else [OF assms(3)]
  have s1: "separates (?e @ '' '' @ ''END'' @ rest)" for rest by (simp split: option.split)
  have s2: "separates (?w @ ?e @ '' '' @ ''END'' @ rest)" for rest using separates_whens [OF s1] by simp
  have s3: "ends_word (?o @ ?w @ ?e @ '' '' @ ''END'' @ rest)" for rest
    using separates_ends_word [OF s2] by (simp split: option.split)
  have "emits (''CASE'' @ ?o @ ?w @ ?e @ '' '' @ ''END'') ([KW ''Case''] @ opt_toks None op @ when_toks wts @ opt_toks (Some ''Else'') els @ [] @ [KW ''End'']) rest"
    if "separates rest" for rest
    using s1 [of rest] s2 [of rest] s3 [of rest] l that separates_ends_word [OF that]
    by (intro emits_append emits_space emits_kw lexesD) (simp_all add: emit_simps)
  then have "lexes (''CASE'' @ ?o @ ?w @ ?e @ '' END'') (KW ''Case'' # opt_toks None op @ when_toks wts @ opt_toks (Some ''Else'') els @ [KW ''End''])"
    by (simp add: lexes_def)
  moreover have "parses (KW ''Case'' # opt_toks None op @ when_toks wts @ opt_toks (Some ''Else'') els @ [KW ''End'']) (Case (map_option snd op) ws (map_option snd els))"
    by (rule parses_case [OF back_opt_ok [OF assms(1)] back_pairs [OF assms(2)] back_opt_ok [OF assms(3)]]) (use assms(4) in auto)
  ultimately show ?thesis by (simp add: reads_back_def)
qed

lemma choose_option: "\<forall>e\<in>set_option a. \<exists>ts. reads_back fl ts e \<Longrightarrow> \<exists>b. back_opt fl b \<and> map_option snd b = a"
proof (cases a)
  case (Some e)
  assume "\<forall>e\<in>set_option a. \<exists>ts. reads_back fl ts e"
  then obtain ts where "reads_back fl ts e" using Some by auto
  then have "back_opt fl (Some (ts, e)) \<and> map_option snd (Some (ts, e)) = a" using Some by (simp add: back_opt_def)
  then show ?thesis by blast
qed (auto simp: back_opt_def)

lemma back_case_ex:
  assumes "\<forall>e\<in>set_option operand. \<exists>ts. reads_back fl ts e" and "\<forall>(w, t)\<in>set ws. (\<exists>ts. reads_back fl ts w) \<and> (\<exists>ts. reads_back fl ts t)"
    and "\<forall>e\<in>set_option els. \<exists>ts. reads_back fl ts e" and "operand \<noteq> None \<or> ws \<noteq> []"
  shows "\<exists>ts. reads_back fl ts (Case operand ws els)"
proof -
  obtain op el where o: "back_opt fl op" "map_option snd op = operand" "back_opt fl el" "map_option snd el = els"
    using choose_option [OF assms(1)] choose_option [OF assms(3)] by blast
  have "\<forall>w\<in>set ws. \<exists>wt. back_pair fl wt w" using assms(2) by (fastforce simp: back_pair_def)
  then obtain wts where "list_all2 (back_pair fl) wts ws" using choose_list by blast
  then show ?thesis using back_case [OF o(1) _ o(3), of wts ws] o(2,4) assms(4) by auto
qed

lemma printable_reads_back: "printable fl e \<Longrightarrow> \<exists>ts. reads_back fl ts e"
proof (induction rule: printable.induct)
  case (literal l)
  then show ?case by (rule back_literal)
next
  case (call n args)
  then obtain tss where "list_all2 (reads_back fl) tss args" using choose_list [of args "reads_back fl"] by auto
  then show ?case using back_call_args call.hyps(1) by blast
next
  case (in_list e es)
  then obtain tss where "list_all2 (reads_back fl) tss es" using choose_list [of es "reads_back fl"] by auto
  then show ?case using back_in_list in_list by blast
next
  case (case_when operand whens els)
  then show ?case by (intro back_case_ex) auto
qed (blast intro: back_column back_qualified back_interval back_binary back_not back_minus back_is_null back_is_not_null back_between back_call_star back_cast)+

subsection \<open>The round trip\<close>

lemma parse_reads_back:
  assumes "lexes s ts" and "exprs ts e"
  shows "parse_expression s = Inr e"
proof -
  have "tokenize [] = Inr [Eof]" by (subst tokenize.simps, subst next_token.simps) (simp add: skip_whitespace_def is_comment_def)
  then have t: "tokenize s = Inr (ts @ [Eof])" using lexesD [OF assms(1), of "[]"] by (simp add: emits_def)
  define p where "p = \<lparr>tokens = ts @ [Eof], pos = 0, last_data_type_serial = False\<rparr>"
  have v: "view p = ts @ [Eof]" by (simp add: p_def view_def)
  have "ends_expr Eof" by (simp add: ends_expr_def)
  then obtain q where "parse_or_expr (calls_n (2 * remaining p + 1)) p = Inr (e, q)" using exprsD [OF assms(2) v, of "2 * remaining p + 1"] by (auto simp: remaining_view)
  then have "parse_expr p = Inr (e, q)" by (simp add: parse_expr_def depth_def flip: calls_n_simps) (simp add: calls_n_def)
  then show ?thesis using t by (simp add: parse_expression_def parser_new_def p_def)
qed

text \<open>C37. Parsing the text that \<open>expr_to_sql\<close> writes for a printable expression gives the expression back. The server stores the
  conditions of \<open>CHECK\<close> constraints as such texts and parses them when a database is opened.\<close>

theorem expr_text_roundtrip:
  assumes "printable fl e"
  shows "parse_expression (expr_to_sql fl e) = Inr e"
proof -
  obtain ts where "reads_back fl ts e" using printable_reads_back [OF assms] by blast
  then show ?thesis unfolding expr_to_sql_def by (intro parse_reads_back reads_backD)
qed

theorem expr_text_roundtrip_witness:
  "parse_expression (expr_to_sql (\<lambda>f. ''1.5'')
      (BinaryOp (Between (Column ''PRICE'') (Literal (LInteger 0)) (UnaryOp UNeg (Column ''LOW''))) BAnd (InList (QualifiedColumn ''T'' ''KIND'') [Literal (LString ''a b''), Literal LNull])))
   = Inr (BinaryOp (Between (Column ''PRICE'') (Literal (LInteger 0)) (UnaryOp UNeg (Column ''LOW''))) BAnd (InList (QualifiedColumn ''T'' ''KIND'') [Literal (LString ''a b''), Literal LNull]))"
proof (rule expr_text_roundtrip)
  have n: "is_name ''PRICE''" "is_name ''LOW''" "is_name ''T''" "is_name ''KIND''"
    by (simp_all add: is_name_def is_word_def char_defs is_keyword_def keyword_table_def to_uppercase_def to_ascii_uppercase_def is_lower_def)
  then have "is_column_name ''KIND''" by (simp add: is_column_name_def is_name_def)
  with n show "printable (\<lambda>f. ''1.5'') (BinaryOp (Between (Column ''PRICE'') (Literal (LInteger 0)) (UnaryOp UNeg (Column ''LOW''))) BAnd
      (InList (QualifiedColumn ''T'' ''KIND'') [Literal (LString ''a b''), Literal LNull]))"
    by (auto intro!: printable.intros simp: printable_literal_def plain_string_def is_number_def)
qed

section \<open>Texts that are not read as meant\<close>

text \<open>A zero, a comma and a string are read as one blob: \<open>read_number\<close> looks one character too far for the quote.\<close>

lemma zero_comma_string: "next_token (''0,'' @ [CHR 0x27] @ ''ab'' @ [CHR 0x27]) = Inr (HexBlob [0xAB], [])"
proof -
  have d: "is_ascii_digit (CHR ''0'')" "\<not> is_ascii_digit (CHR '','')" by (simp_all add: is_ascii_digit_def)
  have h: "hex_body (''ab'' @ [CHR 0x27]) = Inr (''ab'', [])" by (simp add: is_ascii_hexdigit_def)
  have "decode_hex ''ab'' = [0xAB]" by (simp add: hex_char_to_nibble_def to_ascii_lowercase_def is_upper_def is_ascii_digit_def)
  then have "read_number (CHR ''0'' # CHR '','' # CHR 0x27 # ''ab'' @ [CHR 0x27]) = Inr (HexBlob [0xAB], [])"
    using h d by (simp add: read_number_def peek_next_def read_hex_blob_def at_char_def)
  then show ?thesis using digit_scan [OF d(1)] by simp
qed

text \<open>A quote inside a string is doubled by the printer, but the lexer ends the string at it.\<close>

lemma doubled_quote: "parse_expression (expr_to_sql fl (Literal (LString [CHR 0x27]))) = Inr (Literal (LString []))"
proof -
  let ?e = "[CHR 0x27, CHR 0x27]"
  have e: "emits ?e [StringLit []] rest" for rest using emits_quoted [of "[]" rest] by (simp add: plain_string_def quote_string_def)
  have "tokenize [] = Inr [Eof]" by (subst tokenize.simps, subst next_token.simps) (simp add: skip_whitespace_def is_comment_def)
  moreover have "emits (?e @ ?e) ([StringLit []] @ [StringLit []]) []" by (intro emits_append e)
  ultimately have t: "tokenize (?e @ ?e) = Inr [StringLit [], StringLit [], Eof]" by (simp add: emits_def)
  have "expr_to_sql fl (Literal (LString [CHR 0x27])) = ?e @ ?e" by (simp add: expr_to_sql_def quote_string_def)
  with t show ?thesis
    by (simp add: parse_expression_def parser_new_def parse_expr_def depth_def remaining_def parse_or_expr_def parse_and_expr_def parse_comparison_def
        parse_addition_def parse_multiplication_def parse_unary_def parse_primary_def primary_head_def comparison_step_def current_def advance_def
        mul_op_def add_op_def cmp_op_def and_op_def or_op_def eval_nat_numeral)
qed

text \<open>\<open>parse\<close> ignores what follows a statement: with a misspelt \<open>WHERE\<close> every row is deleted.\<close>

lemma misspelt_where:
  "\<exists>p. parse_tokens fl \<lparr>tokens = [KW ''Delete'', KW ''From'', Ident ''t'', Ident ''were'', Ident ''x'', Sym SEq, IntLit 1, Eof], pos = 0, last_data_type_serial = False\<rparr>
   = Inr (Delete \<lparr>d_table = ''t'', d_where = None, d_returning = None\<rparr>, p)"
  by (simp add: parse_tokens_def remaining_def current_def advance_def parse_delete_def expect_def expect_ident_def opt_clause_def parse_returning_def set_op_def)

text \<open>\<open>ANALYZE TABLE t\<close> analyses every table: the keyword is no identifier, so the name is not looked at.\<close>

lemma analyze_table:
  "\<exists>p. parse_tokens fl \<lparr>tokens = [KW ''Analyze'', KW ''Table'', Ident ''t'', Eof], pos = 0, last_data_type_serial = False\<rparr> = Inr (Analyze None, p)"
  by (simp add: parse_tokens_def remaining_def current_def advance_def parse_analyze_def at_word_def set_op_def)

end
