(* ===== verification/Like.thy ===== *)
theory Like
  imports Prelude
begin

text \<open>
  The \<open>LIKE\<close> and \<open>ILIKE\<close> operators, \<open>bytedb-query/src/executor/engine.rs\<close>. A Rust string is the list of its characters, as code
  points. The loop walks over text and pattern with two indices and returns to the last \<open>%\<close> when it is stuck; it is a partial function
  here, and \<open>like_match_correct\<close> shows that it returns, and that it decides whether the text matches the pattern, provided that the text
  has no \<open>%\<close> itself. \<open>like_percent_in_text\<close> is a text with a \<open>%\<close> on which it goes wrong.
\<close>

type_synonym ustring = "nat list"

section \<open>The model\<close>

definition to_ascii_lower :: "nat \<Rightarrow> nat" where
  "to_ascii_lower c = (if 65 \<le> c \<and> c \<le> 90 then c + 32 else c)"

definition ascii_eq :: "bool \<Rightarrow> nat \<Rightarrow> nat \<Rightarrow> bool" where
  "ascii_eq case_insensitive a b = (if case_insensitive then to_ascii_lower a = to_ascii_lower b else a = b)"

text \<open>The loop of \<open>like_match_ascii\<close> and \<open>like_match_inner\<close>, which differ in the comparison of two characters.\<close>

partial_function (option) like_loop :: "(nat \<Rightarrow> nat \<Rightarrow> bool) \<Rightarrow> ustring \<Rightarrow> ustring \<Rightarrow> nat \<Rightarrow> nat \<Rightarrow> (nat \<times> nat) option \<Rightarrow> bool option" where
  "like_loop eq s p si pi star =
     (if si < length s
      then if pi < length p \<and> (p ! pi = 95 \<or> eq (p ! pi) (s ! si)) then like_loop eq s p (si + 1) (pi + 1) star
           else if pi < length p \<and> p ! pi = 37 then like_loop eq s p si (pi + 1) (Some (pi, si))
           else (case star of
                   Some (sp, ss) \<Rightarrow> like_loop eq s p (ss + 1) (sp + 1) (Some (sp, ss + 1))
                 | None \<Rightarrow> Some False)
      else Some (list_all (\<lambda>c. c = 37) (drop pi p)))"

definition like_match_ascii :: "ustring \<Rightarrow> ustring \<Rightarrow> bool \<Rightarrow> bool option" where
  "like_match_ascii s p case_insensitive = like_loop (ascii_eq case_insensitive) s p 0 0 None"

definition like_match_inner :: "ustring \<Rightarrow> ustring \<Rightarrow> bool option" where
  "like_match_inner s p = like_loop (=) s p 0 0 None"

definition is_ascii :: "ustring \<Rightarrow> bool" where
  "is_ascii s = list_all (\<lambda>c. c < 128) s"

definition like_match :: "ustring \<Rightarrow> ustring \<Rightarrow> bool option" where
  "like_match s pattern =
     (if is_ascii pattern \<and> is_ascii s then like_match_ascii s pattern False else like_match_inner s pattern)"

text \<open>\<open>lower\<close> is \<open>char::to_lowercase\<close>, which may give several characters.\<close>

definition ilike_match :: "(nat \<Rightarrow> ustring) \<Rightarrow> ustring \<Rightarrow> ustring \<Rightarrow> bool option" where
  "ilike_match lower s pattern =
     (if is_ascii pattern \<and> is_ascii s then like_match_ascii s pattern True
      else like_match_inner (concat (map lower s)) (concat (map lower pattern)))"

section \<open>What a pattern matches\<close>

text \<open>\<open>%\<close> stands for any text, \<open>_\<close> for any character, and every other character for itself.\<close>

fun matches :: "(nat \<Rightarrow> nat \<Rightarrow> bool) \<Rightarrow> ustring \<Rightarrow> ustring \<Rightarrow> bool" where
  "matches eq [] s \<longleftrightarrow> s = []"
| "matches eq (c # p) s \<longleftrightarrow>
     (if c = 37 then list_ex (\<lambda>k. matches eq p (drop k s)) [0..<Suc (length s)]
      else (case s of [] \<Rightarrow> False | x # xs \<Rightarrow> (c = 95 \<or> eq c x) \<and> matches eq p xs))"

section \<open>The loop decides it\<close>

lemma matches_percent: "matches eq (37 # p) s \<longleftrightarrow> (\<exists>k\<le>length s. matches eq p (drop k s))"
  by (simp add: list_ex_iff Bex_def less_Suc_eq_le del: upt_Suc)

lemma matches_empty: "matches eq p [] \<longleftrightarrow> list_all (\<lambda>c. c = 37) p"
  by (induction p) auto

lemma matches_percent_drop:
  assumes "j \<le> k" and "k \<le> length s" and "matches eq (37 # p) (drop k s)"
  shows "matches eq (37 # p) (drop j s)"
proof -
  obtain i where i: "i \<le> length s - k" "matches eq p (drop (k + i) s)" using assms(3) by (auto simp: matches_percent add.commute simp del: matches.simps)
  then have "(k - j) + i \<le> length s - j" "drop ((k - j) + i) (drop j s) = drop (k + i) s" using assms by (simp_all add: add.commute)
  then show ?thesis using i(2) unfolding matches_percent by (metis length_drop)
qed

text \<open>A segment of the pattern without \<open>%\<close> takes one character of the text for each of its own.\<close>

lemma matches_segment:
  assumes "37 \<notin> set seg" and "matches eq (seg @ p) s"
  shows "length seg \<le> length s \<and> matches eq p (drop (length seg) s)"
  using assms by (induction seg arbitrary: s) (auto split: list.splits)

text \<open>
  What the loop keeps: after a \<open>%\<close> at \<open>sp\<close>, first reached at \<open>ss\<close>, the pattern up to \<open>pi\<close> has no other \<open>%\<close>, and the text matches when the
  rest of it matches here, or the text behind a later position than \<open>ss\<close> matches the pattern behind the \<open>%\<close>.
\<close>

definition like_inv :: "(nat \<Rightarrow> nat \<Rightarrow> bool) \<Rightarrow> ustring \<Rightarrow> ustring \<Rightarrow> nat \<Rightarrow> nat \<Rightarrow> (nat \<times> nat) option \<Rightarrow> bool" where
  "like_inv eq s p si pi star \<longleftrightarrow> si \<le> length s \<and> pi \<le> length p \<and>
     (case star of None \<Rightarrow> matches eq p s = matches eq (drop pi p) (drop si s)
      | Some (sp, ss) \<Rightarrow> ss \<le> si \<and> sp + 1 + (si - ss) = pi \<and> 37 \<notin> set (take (si - ss) (drop (sp + 1) p)) \<and>
          matches eq p s = (matches eq (drop pi p) (drop si s) \<or> (\<exists>k. ss < k \<and> k \<le> length s \<and> matches eq (drop (sp + 1) p) (drop k s))))"

lemma later_segment:
  assumes "like_inv eq s p si pi (Some (sp, ss))" and "ss < k" and "k \<le> length s" and "matches eq (drop (sp + 1) p) (drop k s)"
  shows "k + (si - ss) \<le> length s \<and> matches eq (drop pi p) (drop (k + (si - ss)) s)"
proof -
  let ?seg = "take (si - ss) (drop (sp + 1) p)"
  have i: "ss \<le> si" "sp + 1 + (si - ss) = pi" "pi \<le> length p" "37 \<notin> set ?seg" using assms(1) by (auto simp: like_inv_def)
  then have l: "length ?seg = si - ss" by auto
  have "drop (sp + 1) p = ?seg @ drop pi p" using i(2) by (metis append_take_drop_id drop_drop add.commute)
  then have "matches eq (?seg @ drop pi p) (drop k s)" using assms(4) by simp
  from matches_segment [OF i(4) this] show ?thesis using assms(3) l by (auto simp: add.commute)
qed

lemma step_match:
  assumes inv: "like_inv eq s p si pi star" and "si < length s" and "pi < length p" and c: "p ! pi = 95 \<or> eq (p ! pi) (s ! si)" and n: "p ! pi \<noteq> 37"
  shows "like_inv eq s p (si + 1) (pi + 1) star"
proof -
  have m: "matches eq (drop pi p) (drop si s) = matches eq (drop (pi + 1) p) (drop (si + 1) s)"
    using assms(2-5) by (simp add: Cons_nth_drop_Suc [symmetric])
  show ?thesis
  proof (cases star)
    case None
    then show ?thesis using inv m assms(2,3) by (simp add: like_inv_def)
  next
    case (Some a)
    obtain sp ss where a: "star = Some (sp, ss)" using Some by (cases a) auto
    then have i: "ss \<le> si" "sp + 1 + (si - ss) = pi" using inv by (auto simp: like_inv_def)
    then have "take (si + 1 - ss) (drop (sp + 1) p) = take (si - ss) (drop (sp + 1) p) @ [p ! pi]"
      using assms(3) by (simp add: Suc_diff_le take_Suc_conv_app_nth)
    then show ?thesis using inv m a i n assms(2,3) by (simp add: like_inv_def Suc_diff_le)
  qed
qed

lemma step_percent:
  assumes inv: "like_inv eq s p si pi star" and "pi < length p" and "p ! pi = 37"
  shows "like_inv eq s p si (pi + 1) (Some (pi, si))"
proof -
  have d: "drop pi p = 37 # drop (pi + 1) p" using assms(2,3) by (simp add: Cons_nth_drop_Suc [symmetric])
  have s: "si \<le> length s" using inv by (simp add: like_inv_def)
  have "matches eq p s = matches eq (drop pi p) (drop si s)"
  proof (cases star)
    case None
    then show ?thesis using inv by (simp add: like_inv_def)
  next
    case (Some a)
    obtain sp ss where a: "star = Some (sp, ss)" using Some by (cases a) auto
    have "matches eq (drop pi p) (drop si s)" if "ss < k" "k \<le> length s" "matches eq (drop (sp + 1) p) (drop k s)" for k
    proof -
      have "k + (si - ss) \<le> length s" "matches eq (37 # drop (pi + 1) p) (drop (k + (si - ss)) s)"
        using later_segment [of eq s p si pi sp ss, OF _ that] inv a d by simp_all
      then show ?thesis using matches_percent_drop [of si "k + (si - ss)" s eq "drop (pi + 1) p"] that(1) d by simp
    qed
    then show ?thesis using inv a by (auto simp: like_inv_def)
  qed
  also have "\<dots> = (\<exists>k\<le>length s - si. matches eq (drop (pi + 1) p) (drop (si + k) s))" unfolding d matches_percent by (simp add: add.commute)
  also have "\<dots> = (matches eq (drop (pi + 1) p) (drop si s) \<or> (\<exists>k. si < k \<and> k \<le> length s \<and> matches eq (drop (pi + 1) p) (drop k s)))"
    (is "?l = ?r")
  proof
    assume ?l
    then obtain k where k: "k \<le> length s - si" "matches eq (drop (pi + 1) p) (drop (si + k) s)" by blast
    show ?r using k s by (cases "k = 0") (simp, rule disjI2, rule exI [of _ "si + k"], simp)
  next
    assume ?r
    then show ?l
    proof
      assume "matches eq (drop (pi + 1) p) (drop si s)"
      then show ?l by (intro exI [of _ 0]) simp
    next
      assume "\<exists>k. si < k \<and> k \<le> length s \<and> matches eq (drop (pi + 1) p) (drop k s)"
      then obtain k where "si < k" "k \<le> length s" "matches eq (drop (pi + 1) p) (drop k s)" by blast
      then show ?l by (intro exI [of _ "k - si"]) simp
    qed
  qed
  finally show ?thesis using s assms(2) by (simp add: like_inv_def)
qed

lemma ex_next: "(\<exists>k. a < k \<and> P k) \<longleftrightarrow> P (Suc a) \<or> (\<exists>k. Suc a < k \<and> P k)"
  using Suc_lessI Suc_lessD by blast

lemma step_back:
  assumes inv: "like_inv eq s p si pi (Some (sp, ss))" and "si < length s" and "\<not> matches eq (drop pi p) (drop si s)"
  shows "like_inv eq s p (ss + 1) (sp + 1) (Some (sp, ss + 1))"
proof -
  have i: "ss \<le> si" "sp + 1 + (si - ss) = pi" "pi \<le> length p" using inv by (auto simp: like_inv_def)
  have "matches eq p s = (\<exists>k. ss < k \<and> k \<le> length s \<and> matches eq (drop (sp + 1) p) (drop k s))" using inv assms(3) by (auto simp: like_inv_def)
  also have "\<dots> = (matches eq (drop (sp + 1) p) (drop (ss + 1) s) \<or> (\<exists>k. ss + 1 < k \<and> k \<le> length s \<and> matches eq (drop (sp + 1) p) (drop k s)))"
    using ex_next [of ss "\<lambda>k. k \<le> length s \<and> matches eq (drop (sp + 1) p) (drop k s)"] i(1) assms(2) by simp
  finally show ?thesis using i assms(2) by (simp add: like_inv_def)
qed

lemma end_match:
  assumes inv: "like_inv eq s p (length s) pi star"
  shows "matches eq p s = matches eq (drop pi p) []"
proof (cases star)
  case None
  then show ?thesis using inv by (simp add: like_inv_def)
next
  case (Some a)
  obtain sp ss where a: "star = Some (sp, ss)" using Some by (cases a) auto
  have "\<not> matches eq (drop (sp + 1) p) (drop k s)" if "ss < k" "k \<le> length s" for k
  proof
    assume "matches eq (drop (sp + 1) p) (drop k s)"
    then have "k + (length s - ss) \<le> length s" using later_segment [of eq s p "length s" pi sp ss k] inv a that by simp
    moreover have "ss \<le> length s" using that by simp
    ultimately show False using that by simp
  qed
  then show ?thesis using inv a by (auto simp: like_inv_def)
qed

text \<open>A round moves on in the pattern, or the place to return to moves on in the text.\<close>

definition like_measure :: "ustring \<Rightarrow> ustring \<Rightarrow> nat \<Rightarrow> (nat \<times> nat) option \<Rightarrow> nat" where
  "like_measure s p pi star = (case star of None \<Rightarrow> Suc (length s) | Some (_, ss) \<Rightarrow> length s - ss) * Suc (length p) + (length p - pi)"

lemma percent_measure:
  assumes "like_inv eq s p si pi star" and "pi < length p"
  shows "like_measure s p (pi + 1) (Some (pi, si)) < like_measure s p pi star"
proof -
  have "length s - si \<le> (case star of None \<Rightarrow> Suc (length s) | Some (_, ss) \<Rightarrow> length s - ss)"
    using assms(1) by (auto simp: like_inv_def split: option.splits)
  moreover have "length p - (pi + 1) < length p - pi" using assms(2) by simp
  ultimately show ?thesis unfolding like_measure_def by (simp only: option.case prod.case) (intro add_le_less_mono mult_le_mono1)
qed

lemma back_measure:
  assumes "like_inv eq s p si pi (Some (sp, ss))" and "si < length s"
  shows "like_measure s p (sp + 1) (Some (sp, ss + 1)) < like_measure s p pi (Some (sp, ss))"
proof -
  have "ss < length s" using assms by (auto simp: like_inv_def)
  then have "(length s - ss) * Suc (length p) = (length s - (ss + 1)) * Suc (length p) + Suc (length p)"
    by (metis Suc_diff_Suc Suc_eq_plus1 mult_Suc add.commute)
  then show ?thesis by (simp add: like_measure_def)
qed

lemma like_loop_correct:
  assumes "like_inv eq s p si pi star" and no: "\<forall>x\<in>set s. \<not> eq 37 x"
  shows "like_loop eq s p si pi star = Some (matches eq p s)"
  using assms(1)
proof (induction "like_measure s p pi star" arbitrary: si pi star rule: less_induct)
  case less
  note inv = less.prems
  show ?case
  proof (cases "si < length s")
    case False
    then have "si = length s" using inv by (simp add: like_inv_def)
    then show ?thesis using end_match [of eq s p pi star] inv by (simp add: like_loop.simps matches_empty)
  next
    case si: True
    show ?thesis
    proof (cases "pi < length p \<and> (p ! pi = 95 \<or> eq (p ! pi) (s ! si))")
      case True
      then have "p ! pi \<noteq> 37" using no nth_mem [OF si] by auto
      then have "like_inv eq s p (si + 1) (pi + 1) star" using step_match inv si True by blast
      moreover have "like_measure s p (pi + 1) star < like_measure s p pi star"
        using True unfolding like_measure_def by (intro add_strict_left_mono diff_less_mono2) auto
      ultimately show ?thesis using less.hyps si True by (subst like_loop.simps) simp
    next
      case no_match: False
      show ?thesis
      proof (cases "pi < length p \<and> p ! pi = 37")
        case True
        then have "like_inv eq s p si (pi + 1) (Some (pi, si))" using step_percent inv by blast
        moreover have "like_measure s p (pi + 1) (Some (pi, si)) < like_measure s p pi star" using percent_measure [OF inv] True by blast
        ultimately show ?thesis using less.hyps si no_match True by (subst like_loop.simps) simp
      next
        case False
        have nm: "\<not> matches eq (drop pi p) (drop si s)"
          using si no_match False by (cases "pi < length p") (auto simp: Cons_nth_drop_Suc [symmetric])
        show ?thesis
        proof (cases star)
          case None
          then show ?thesis using inv nm si no_match False by (subst like_loop.simps) (auto simp: like_inv_def)
        next
          case (Some a)
          obtain sp ss where a: "star = Some (sp, ss)" using Some by (cases a) auto
          then have "like_inv eq s p (ss + 1) (sp + 1) (Some (sp, ss + 1))" using step_back inv si nm by blast
          moreover have "like_measure s p (sp + 1) (Some (sp, ss + 1)) < like_measure s p pi star" using back_measure inv si a by blast
          ultimately show ?thesis using less.hyps a si no_match False by (subst like_loop.simps) auto
        qed
      qed
    qed
  qed
qed

lemma like_inv_start: "like_inv eq s p 0 0 None"
  by (simp add: like_inv_def)

section \<open>Properties\<close>

text \<open>C39. On a text without \<open>%\<close> the loop of \<open>LIKE\<close> ends and decides whether the text matches the pattern, for ASCII and for other
  texts.\<close>

theorem like_match_correct:
  assumes "37 \<notin> set s"
  shows "like_match s p = Some (matches (=) p s)"
proof -
  have "ascii_eq False = (=)" by (simp add: ascii_eq_def fun_eq_iff)
  then show ?thesis using like_loop_correct [OF like_inv_start, of s "(=)" p] assms
    by (auto simp: like_match_def like_match_ascii_def like_match_inner_def)
qed

theorem like_match_correct_witness: "like_match [97, 98, 97, 99] [37, 97, 95] = Some True"
  using like_match_correct [of "[97, 98, 97, 99]" "[37, 97, 95]"] by (simp add: upt_rec)

text \<open>\<open>ILIKE\<close> on ASCII texts ignores case.\<close>

lemma ilike_match_correct:
  assumes "37 \<notin> set s" and "is_ascii s" and "is_ascii p"
  shows "ilike_match lower s p = Some (matches (ascii_eq True) p s)"
proof -
  have "\<not> ascii_eq True 37 x" if "x \<in> set s" for x
    using that assms(1) by (cases "65 \<le> x \<and> x \<le> 90") (auto simp: ascii_eq_def to_ascii_lower_def)
  then show ?thesis using like_loop_correct [OF like_inv_start, of s "ascii_eq True" p] assms
    by (simp add: ilike_match_def like_match_ascii_def)
qed

text \<open>The text \<open>%ab\<close> matches the pattern \<open>%b\<close>, but the loop takes the first \<open>%\<close> for a character.\<close>

lemma like_percent_in_text: "matches (=) [37, 98] [37, 97, 98] \<and> like_match [37, 97, 98] [37, 98] = Some False"
  by (simp add: upt_rec like_match_def is_ascii_def like_match_ascii_def like_loop.simps ascii_eq_def)

end
