(* ===== verification/DbStore.thy ===== *)
theory DbStore
  imports Tuples "HOL-Library.AList" "HOL-Library.Char_ord"
begin

text \<open>
  The files of a server: \<open>bytedb-core/src/dbstore\<close> (table files, table logs, the catalogue of a database, the registry of databases)
  and \<open>bytedb-query/src/executor/diskstore.rs\<close>, which puts them together.

  The file system maps paths to contents; a directory is the paths that start with its name. An operation is the list of its effects on
  the files, so that a crash is a point in this list, or within the bytes of a write. A string is the list of its UTF-8 bytes as
  characters. \<open>crc\<close> is the checksum function and \<open>lib\<close> the JSON form of a catalogue. Errors of the device are not modelled.
\<close>

section \<open>Files\<close>

type_synonym files = "string \<Rightarrow> bytes option"

datatype effect = Create string | Append string bytes | Rename string string | Remove string | RemoveDir string

definition in_dir :: "string \<Rightarrow> string \<Rightarrow> bool" where
  "in_dir d p \<longleftrightarrow> take (length d + 1) p = d @ ''/''"

fun apply_effect :: "effect \<Rightarrow> files \<Rightarrow> files" where
  "apply_effect (Create p) f = f(p \<mapsto> [])"
| "apply_effect (Append p d) f = f(p \<mapsto> (case f p of None \<Rightarrow> d | Some c \<Rightarrow> c @ d))"
| "apply_effect (Rename p q) f = f(p := None, q := f p)"
| "apply_effect (Remove p) f = f(p := None)"
| "apply_effect (RemoveDir d) f = (\<lambda>p. if in_dir d p then None else f p)"

definition run_effects :: "effect list \<Rightarrow> files \<Rightarrow> files" where
  "run_effects es f = fold apply_effect es f"

text \<open>A crash after \<open>k\<close> effects and \<open>n\<close> bytes of the next one.\<close>

definition crash_in :: "effect list \<Rightarrow> nat \<Rightarrow> nat \<Rightarrow> files \<Rightarrow> files" where
  "crash_in es k n f =
     (case drop k es of
        Append p d # _ \<Rightarrow> apply_effect (Append p (take n d)) (run_effects (take k es) f)
      | _ \<Rightarrow> run_effects (take k es) f)"

definition is_cont_char :: "char \<Rightarrow> bool" where
  "is_cont_char c \<longleftrightarrow> 128 \<le> (of_char c :: nat) \<and> (of_char c :: nat) < 192"

definition safe_char :: "char \<Rightarrow> bool" where
  "safe_char c \<longleftrightarrow>
     (let n = (of_char c :: nat)
      in 97 \<le> n \<and> n \<le> 122 \<or> 65 \<le> n \<and> n \<le> 90 \<or> 48 \<le> n \<and> n \<le> 57 \<or> n = 95 \<or> n = 45 \<or> n = 46)"

text \<open>One \<open>_\<close> for every other character; the continuation bytes of UTF-8 belong to the character before them.\<close>

definition sanitize :: "string \<Rightarrow> string" where
  "sanitize name = map (\<lambda>c. if safe_char c then c else CHR ''_'') (filter (\<lambda>c. \<not> is_cont_char c) name)"

section \<open>Table logs\<close>

type_synonym delta = "u8 \<times> bytes \<times> bytes"

definition LOG_MAGIC :: bytes where "LOG_MAGIC = [66, 84, 76, 71]"
definition LOG_VERSION :: u32 where "LOG_VERSION = 1"
definition OP_PUT :: u8 where "OP_PUT = 0"
definition OP_DEL :: u8 where "OP_DEL = 1"

definition log_path :: "string \<Rightarrow> string \<Rightarrow> string" where
  "log_path dir t = dir @ ''/tables/'' @ sanitize t @ ''.log''"

fun delta_body :: "delta \<Rightarrow> bytes" where
  "delta_body (op, key, value) = op # put_lp key @ put_lp value"

definition log_frame :: "(bytes \<Rightarrow> u32) \<Rightarrow> delta \<Rightarrow> bytes" where
  "log_frame crc d =
     (let body = delta_body d in to_le (of_nat (length body) :: u32) @ to_le (crc body) @ body)"

definition log_append :: "(bytes \<Rightarrow> u32) \<Rightarrow> string \<Rightarrow> string \<Rightarrow> delta list \<Rightarrow> files \<Rightarrow> effect list" where
  "log_append crc dir t deltas f =
     (if deltas = [] then []
      else
        let path = log_path dir t;
            fresh = (case f path of None \<Rightarrow> True | Some c \<Rightarrow> c = []);
            hdr = (if fresh then LOG_MAGIC @ to_le LOG_VERSION else [])
        in [Append path (hdr @ concat (map (log_frame crc) deltas))])"

definition decode_body :: "bytes \<Rightarrow> delta option" where
  "decode_body body =
     (if body = [] then None
      else if 5 > length body then None
      else
        let op = body ! 0; kl = unat (from_le (rd_range 1 4 body) :: u32)
        in if 5 + kl > length body then None
           else
             let key = rd_range 5 kl body
             in if 9 + kl > length body then None
                else
                  let vl = unat (from_le (rd_range (5 + kl) 4 body) :: u32)
                  in if 9 + kl + vl > length body then None
                     else Some (op, key, rd_range (9 + kl) vl body))"

text \<open>The loop of \<open>load\<close>; \<open>s\<close> is the file from \<open>cur\<close> on.\<close>

function log_scan :: "(bytes \<Rightarrow> u32) \<Rightarrow> bytes \<Rightarrow> delta list" where
  "log_scan crc s =
     (if length s < 8 then []
      else
        let len = unat (from_le (rd_range 0 4 s) :: u32); c = from_le (rd_range 4 4 s) :: u32
        in if 8 + len > length s then []
           else
             let body = rd_range 8 len s
             in if crc body \<noteq> c then []
                else (case decode_body body of None \<Rightarrow> [] | Some d \<Rightarrow> d # log_scan crc (drop (8 + len) s)))"
  by pat_completeness auto
termination by (relation "measure (\<lambda>(crc, s). length s)") auto

declare log_scan.simps [simp del]

definition log_parse :: "(bytes \<Rightarrow> u32) \<Rightarrow> bytes \<Rightarrow> delta list result" where
  "log_parse crc all =
     (if length all < 8 then Inr []
      else if rd_range 0 4 all \<noteq> LOG_MAGIC then Inl (Internal ''table log: bad magic'')
      else if from_le (rd_range 4 4 all) \<noteq> LOG_VERSION then Inl (Internal ''table log: unsupported version'')
      else Inr (log_scan crc (drop 8 all)))"

definition log_load :: "(bytes \<Rightarrow> u32) \<Rightarrow> string \<Rightarrow> string \<Rightarrow> files \<Rightarrow> delta list result" where
  "log_load crc dir t f = (case f (log_path dir t) of None \<Rightarrow> Inr [] | Some all \<Rightarrow> log_parse crc all)"

definition log_truncate :: "string \<Rightarrow> string \<Rightarrow> files \<Rightarrow> effect list" where
  "log_truncate dir t f = (if f (log_path dir t) = None then [] else [Remove (log_path dir t)])"

definition log_size_bytes :: "string \<Rightarrow> string \<Rightarrow> files \<Rightarrow> nat" where
  "log_size_bytes dir t f = (case f (log_path dir t) of None \<Rightarrow> 0 | Some c \<Rightarrow> length c)"

text \<open>A \<open>HashMap\<close> is an association list; nothing is claimed about its order.\<close>

fun fold_delta :: "delta \<Rightarrow> (bytes \<times> bytes) list \<Rightarrow> (bytes \<times> bytes) list" where
  "fold_delta (op, key, value) m = (if op = OP_DEL then AList.delete key m else AList.update key value m)"

definition log_fold :: "(bytes \<times> bytes) list \<Rightarrow> delta list \<Rightarrow> (bytes \<times> bytes) list" where
  "log_fold base deltas =
     (if deltas = [] then base
      else fold fold_delta deltas (fold (\<lambda>(k, v) m. AList.update k v m) base []))"

section \<open>Table files\<close>

definition TABLE_MAGIC :: bytes where "TABLE_MAGIC = [66, 84, 66, 76]"
definition TABLE_VERSION :: u32 where "TABLE_VERSION = 2"
definition TABLE_VERSION_LEGACY :: u32 where "TABLE_VERSION_LEGACY = 1"

definition table_path :: "string \<Rightarrow> string \<Rightarrow> string" where
  "table_path dir t = dir @ ''/tables/'' @ sanitize t @ ''.tbl''"

definition truncated :: "'a result" where
  "truncated = Inl (Internal ''table file: truncated'')"

text \<open>A length and that many bytes.\<close>

definition table_field :: "bytes \<Rightarrow> (bytes \<times> bytes) result" where
  "table_field s =
     (if length s < 4 then truncated
      else
        let n = unat (from_le (take 4 s) :: u32); r = drop 4 s
        in if length r < n then truncated else Inr (take n r, drop n r))"

definition table_payload :: "bytes \<Rightarrow> (bytes \<times> bytes) list result" where
  "table_payload payload =
     (if length payload < 8 then truncated
      else
        let count = unat (from_le (take 8 payload) :: u64)
        in rbind (read_many (read_pair table_field table_field) count (drop 8 payload)) (\<lambda>(out, _). Inr out))"

definition table_check :: "(bytes \<Rightarrow> u32) \<Rightarrow> bytes \<Rightarrow> bytes result" where
  "table_check crc payload =
     (if length payload < 4 then Inl (Internal ''table file: truncated trailer'')
      else
        let trailer_pos = length payload - 4;
            stored = from_le (drop trailer_pos payload) :: u32;
            payload' = take trailer_pos payload
        in if stored \<noteq> crc payload' then Inl (Internal ''table file: checksum mismatch (corruption)'') else Inr payload')"

definition table_parse :: "(bytes \<Rightarrow> u32) \<Rightarrow> bytes \<Rightarrow> (bytes \<times> bytes) list result" where
  "table_parse crc file =
     rbind (read_exact 4 file) (\<lambda>(magic, s1).
       if magic \<noteq> TABLE_MAGIC then Inl (Internal ''table file: bad magic'')
       else rbind (read_exact 4 s1) (\<lambda>(v, s2).
         let version = from_le v :: u32
         in if version \<noteq> TABLE_VERSION \<and> version \<noteq> TABLE_VERSION_LEGACY then Inl (Internal ''table file: unsupported version'')
            else if version = TABLE_VERSION then rbind (table_check crc s2) table_payload
            else table_payload s2))"

definition table_load :: "(bytes \<Rightarrow> u32) \<Rightarrow> string \<Rightarrow> string \<Rightarrow> files \<Rightarrow> (bytes \<times> bytes) list result" where
  "table_load crc dir t f = (case f (table_path dir t) of None \<Rightarrow> Inr [] | Some c \<Rightarrow> table_parse crc c)"

definition table_bytes :: "(bytes \<Rightarrow> u32) \<Rightarrow> (bytes \<times> bytes) list \<Rightarrow> bytes" where
  "table_bytes crc entries =
     (let payload = to_le (of_nat (length entries) :: u64) @ concat (map (put_pair put_lp put_lp) entries)
      in TABLE_MAGIC @ to_le TABLE_VERSION @ payload @ to_le (crc payload))"

definition table_save :: "(bytes \<Rightarrow> u32) \<Rightarrow> string \<Rightarrow> string \<Rightarrow> (bytes \<times> bytes) list \<Rightarrow> effect list" where
  "table_save crc dir t entries =
     (let path = table_path dir t; tmp = path @ ''.tmp''
      in [Create tmp, Append tmp (table_bytes crc entries), Rename tmp path])"

definition table_delete :: "string \<Rightarrow> string \<Rightarrow> files \<Rightarrow> effect list" where
  "table_delete dir t f = (if f (table_path dir t) = None then [] else [Remove (table_path dir t)])"

section \<open>The catalogue of a database\<close>

definition CATALOG_MAGIC :: bytes where "CATALOG_MAGIC = [66, 67, 65, 84]"
definition CATALOG_VERSION :: u32 where "CATALOG_VERSION = 2"
definition CATALOG_VERSION_LEGACY :: u32 where "CATALOG_VERSION_LEGACY = 1"

record index_def =
  ix_name :: string
  ix_columns :: "string list"
  ix_unique :: bool

record 'j table_catalog =
  tc_name :: string
  tc_id :: u32
  tc_schema :: "'j schema"
  tc_sequences :: "(string \<times> u64) list"
  tc_indexes :: "index_def list"

type_synonym 'j db_catalog = "'j table_catalog list"

record 'j catalog_lib =
  cat_ser :: "'j db_catalog \<Rightarrow> bytes"
  cat_de :: "bytes \<Rightarrow> 'j db_catalog option"
  cat_crc :: "bytes \<Rightarrow> u32"

definition catalog_path :: "string \<Rightarrow> string" where
  "catalog_path dir = dir @ ''/catalog.bin''"

definition catalog_parse :: "'j catalog_lib \<Rightarrow> bytes \<Rightarrow> 'j db_catalog result" where
  "catalog_parse lib file =
     rbind (read_exact 4 file) (\<lambda>(magic, s1).
       if magic \<noteq> CATALOG_MAGIC then Inl (Internal ''catalog: bad magic'')
       else rbind (read_le 4 s1) (\<lambda>(version :: u32, s2).
         if version \<noteq> CATALOG_VERSION \<and> version \<noteq> CATALOG_VERSION_LEGACY then Inl (Internal ''catalog: unsupported version'')
         else rbind (read_le 4 s2) (\<lambda>(n :: u32, s3). rbind (read_exact (unat n) s3) (\<lambda>(b, s4).
           rbind (if version = CATALOG_VERSION
                  then rbind (read_le 4 s4) (\<lambda>(stored :: u32, _).
                    if stored \<noteq> cat_crc lib b then Inl (Internal ''catalog: checksum mismatch (corruption)'') else Inr ())
                  else Inr ()) (\<lambda>_.
             case cat_de lib b of None \<Rightarrow> Inl (Internal ''catalog parse'') | Some c \<Rightarrow> Inr c)))))"

definition catalog_load :: "'j catalog_lib \<Rightarrow> string \<Rightarrow> files \<Rightarrow> 'j db_catalog result" where
  "catalog_load lib dir f = (case f (catalog_path dir) of None \<Rightarrow> Inr [] | Some c \<Rightarrow> catalog_parse lib c)"

definition catalog_bytes :: "'j catalog_lib \<Rightarrow> 'j db_catalog \<Rightarrow> bytes" where
  "catalog_bytes lib cat =
     (let payload = cat_ser lib cat
      in CATALOG_MAGIC @ to_le CATALOG_VERSION @ to_le (of_nat (length payload) :: u32) @ payload @ to_le (cat_crc lib payload))"

definition catalog_save :: "'j catalog_lib \<Rightarrow> string \<Rightarrow> 'j db_catalog \<Rightarrow> effect list" where
  "catalog_save lib dir cat =
     (let tmp = dir @ ''/catalog.tmp''
      in [Create tmp, Append tmp (catalog_bytes lib cat), Rename tmp (catalog_path dir)])"

definition catalog_find :: "string \<Rightarrow> 'j db_catalog \<Rightarrow> 'j table_catalog option" where
  "catalog_find name cat = find (\<lambda>t. tc_name t = name) cat"

text \<open>Replaces the first entry with the name of the new one.\<close>

fun replace_named :: "'j table_catalog \<Rightarrow> 'j db_catalog \<Rightarrow> 'j db_catalog" where
  "replace_named t [] = []"
| "replace_named t (x # xs) = (if tc_name x = tc_name t then t # xs else x # replace_named t xs)"

definition catalog_upsert :: "'j table_catalog \<Rightarrow> 'j db_catalog \<Rightarrow> 'j db_catalog" where
  "catalog_upsert t cat = (case catalog_find (tc_name t) cat of Some _ \<Rightarrow> replace_named t cat | None \<Rightarrow> cat @ [t])"

definition catalog_remove :: "string \<Rightarrow> 'j db_catalog \<Rightarrow> 'j db_catalog \<times> bool" where
  "catalog_remove name cat =
     (let cat' = filter (\<lambda>t. tc_name t \<noteq> name) cat in (cat', length cat' \<noteq> length cat))"

section \<open>The registry of databases\<close>

definition SERVER_META_MAGIC :: bytes where "SERVER_META_MAGIC = [66, 83, 82, 86]"
definition SERVER_META_VERSION :: u32 where "SERVER_META_VERSION = 1"

text \<open>The set of databases is a \<open>BTreeSet\<close>: a sorted list without duplicates.\<close>

record registry =
  root :: string
  databases :: "string list"
  default_db :: string

definition meta_path :: "string \<Rightarrow> string" where
  "meta_path rt = rt @ ''/server.meta''"

definition db_dir :: "registry \<Rightarrow> string \<Rightarrow> string" where
  "db_dir r name = root r @ ''/databases/'' @ sanitize name"

definition as_bytes :: "string \<Rightarrow> bytes" where
  "as_bytes s = map of_char s"

definition of_bytes :: "bytes \<Rightarrow> string" where
  "of_bytes b = map (\<lambda>w. char_of (unat w)) b"

definition read_name :: "bytes \<Rightarrow> (string \<times> bytes) result" where
  "read_name s =
     rbind (read_lp s) (\<lambda>(nb, s1). if from_utf8 nb then Inr (of_bytes nb, s1) else Inl (Internal ''invalid utf-8''))"

definition read_meta :: "bytes \<Rightarrow> string list result" where
  "read_meta file =
     rbind (read_exact 4 file) (\<lambda>(magic, s1).
       if magic \<noteq> SERVER_META_MAGIC then Inl (Internal ''server.meta: bad magic'')
       else rbind (read_le 4 s1) (\<lambda>(version :: u32, s2).
         if version > SERVER_META_VERSION then Inl (Internal ''server.meta: unsupported version'')
         else rbind (read_le 4 s2) (\<lambda>(count :: u32, s3).
           rbind (read_many read_name (unat count) s3) (\<lambda>(names, _). Inr (fold insort_insert names [])))))"

definition meta_bytes :: "string list \<Rightarrow> bytes" where
  "meta_bytes dbs =
     SERVER_META_MAGIC @ to_le SERVER_META_VERSION @ to_le (of_nat (length dbs) :: u32) @ concat (map (\<lambda>n. put_lp (as_bytes n)) dbs)"

definition write_meta :: "registry \<Rightarrow> effect list" where
  "write_meta r =
     (let tmp = root r @ ''/server.tmp''
      in [Create tmp, Append tmp (meta_bytes (databases r)), Rename tmp (meta_path (root r))])"

definition registry_open :: "string \<Rightarrow> string \<Rightarrow> files \<Rightarrow> (registry \<times> effect list) result" where
  "registry_open rt dflt f =
     rbind (case f (meta_path rt) of Some c \<Rightarrow> read_meta c | None \<Rightarrow> Inr []) (\<lambda>dbs.
       let r = \<lparr>root = rt, databases = insort_insert dflt dbs, default_db = dflt\<rparr> in Inr (r, write_meta r))"

definition registry_contains :: "string \<Rightarrow> registry \<Rightarrow> bool" where
  "registry_contains name r \<longleftrightarrow> name \<in> set (databases r)"

definition registry_create :: "string \<Rightarrow> registry \<Rightarrow> (bool \<times> registry \<times> effect list) result" where
  "registry_create name r =
     (if name = [] \<or> length name > 128 then Inl (Internal ''invalid database name: must be 1..=128 chars'')
      else if name \<in> set (databases r) then Inr (False, r, [])
      else let r' = r\<lparr>databases := insort_insert name (databases r)\<rparr> in Inr (True, r', write_meta r'))"

definition registry_drop :: "string \<Rightarrow> registry \<Rightarrow> (bool \<times> registry \<times> effect list) result" where
  "registry_drop name r =
     (if name = default_db r then Inl (Internal ''cannot drop default database'')
      else if name \<notin> set (databases r) then Inr (False, r, [])
      else let r' = r\<lparr>databases := remove1 name (databases r)\<rparr> in Inr (True, r', RemoveDir (db_dir r name) # write_meta r'))"

section \<open>The disk store\<close>

record 'j disk_store =
  ds_registry :: registry
  ds_catalog :: "'j db_catalog"
  ds_current :: string
  ds_files :: files

definition ds_dir :: "'j disk_store \<Rightarrow> string" where
  "ds_dir s = db_dir (ds_registry s) (ds_current s)"

definition perform :: "effect list \<Rightarrow> 'j disk_store \<Rightarrow> 'j disk_store" where
  "perform es s = s\<lparr>ds_files := run_effects es (ds_files s)\<rparr>"

definition ds_open :: "'j catalog_lib \<Rightarrow> string \<Rightarrow> string \<Rightarrow> files \<Rightarrow> 'j disk_store result" where
  "ds_open lib rt dflt f =
     rbind (registry_open rt dflt f) (\<lambda>(r, es).
       let f' = run_effects es f
       in rbind (catalog_load lib (db_dir r dflt) f') (\<lambda>cat.
         Inr \<lparr>ds_registry = r, ds_catalog = cat, ds_current = dflt, ds_files = f'\<rparr>))"

definition ds_create_database :: "string \<Rightarrow> 'j disk_store \<Rightarrow> (bool \<times> 'j disk_store) result" where
  "ds_create_database name s =
     rbind (registry_create name (ds_registry s)) (\<lambda>(b, r, es). Inr (b, perform es (s\<lparr>ds_registry := r\<rparr>)))"

definition ds_drop_database :: "string \<Rightarrow> 'j disk_store \<Rightarrow> (bool \<times> 'j disk_store) result" where
  "ds_drop_database name s =
     rbind (registry_drop name (ds_registry s)) (\<lambda>(b, r, es). Inr (b, perform es (s\<lparr>ds_registry := r\<rparr>)))"

definition ds_switch_database :: "'j catalog_lib \<Rightarrow> string \<Rightarrow> 'j disk_store \<Rightarrow> ('j db_catalog \<times> 'j disk_store) result" where
  "ds_switch_database lib name s =
     (if \<not> registry_contains name (ds_registry s) then Inl (Internal ''Database not found'')
      else rbind (catalog_load lib (db_dir (ds_registry s) name) (ds_files s)) (\<lambda>cat.
             Inr (cat, s\<lparr>ds_current := name, ds_catalog := cat\<rparr>)))"

definition save_catalog :: "'j catalog_lib \<Rightarrow> 'j db_catalog \<Rightarrow> 'j disk_store \<Rightarrow> 'j disk_store" where
  "save_catalog lib cat s = perform (catalog_save lib (ds_dir s) cat) (s\<lparr>ds_catalog := cat\<rparr>)"

definition ds_upsert_table :: "'j catalog_lib \<Rightarrow> string \<Rightarrow> u32 \<Rightarrow> 'j schema \<Rightarrow> (string \<times> u64) list \<Rightarrow> 'j disk_store \<Rightarrow> 'j disk_store" where
  "ds_upsert_table lib name tid sch seqs s =
     (let ixs = (case catalog_find name (ds_catalog s) of Some t \<Rightarrow> tc_indexes t | None \<Rightarrow> []);
          entry = \<lparr>tc_name = name, tc_id = tid, tc_schema = sch, tc_sequences = seqs, tc_indexes = ixs\<rparr>
      in save_catalog lib (catalog_upsert entry (ds_catalog s)) s)"

definition ds_upsert_table_indexes :: "'j catalog_lib \<Rightarrow> string \<Rightarrow> index_def list \<Rightarrow> 'j disk_store \<Rightarrow> 'j disk_store" where
  "ds_upsert_table_indexes lib table ixs s =
     (case catalog_find table (ds_catalog s) of
        Some t \<Rightarrow> save_catalog lib (replace_named (t\<lparr>tc_indexes := ixs\<rparr>) (ds_catalog s)) s
      | None \<Rightarrow> s)"

definition ds_flush_table_sequences :: "'j catalog_lib \<Rightarrow> string \<Rightarrow> (string \<times> u64) list \<Rightarrow> 'j disk_store \<Rightarrow> 'j disk_store" where
  "ds_flush_table_sequences lib table seqs s =
     (case catalog_find table (ds_catalog s) of
        Some t \<Rightarrow> save_catalog lib (replace_named (t\<lparr>tc_sequences := seqs\<rparr>) (ds_catalog s)) s
      | None \<Rightarrow> s)"

definition ds_drop_table :: "'j catalog_lib \<Rightarrow> string \<Rightarrow> 'j disk_store \<Rightarrow> 'j disk_store" where
  "ds_drop_table lib name s =
     (let (cat, removed) = catalog_remove name (ds_catalog s)
      in if removed
         then let s1 = save_catalog lib cat s;
                  s2 = perform (table_delete (ds_dir s1) name (ds_files s1)) s1
              in perform (log_truncate (ds_dir s2) name (ds_files s2)) s2
         else s\<lparr>ds_catalog := cat\<rparr>)"

text \<open>\<open>flush_table_data\<close> and \<open>compact_table\<close> have the same body.\<close>

definition flush_effects :: "(bytes \<Rightarrow> u32) \<Rightarrow> string \<Rightarrow> string \<Rightarrow> (bytes \<times> bytes) list \<Rightarrow> files \<Rightarrow> effect list" where
  "flush_effects crc dir t entries f = table_save crc dir t entries @ log_truncate dir t (run_effects (table_save crc dir t entries) f)"

definition ds_flush_table_data :: "(bytes \<Rightarrow> u32) \<Rightarrow> string \<Rightarrow> (bytes \<times> bytes) list \<Rightarrow> 'j disk_store \<Rightarrow> 'j disk_store" where
  "ds_flush_table_data crc table entries s = perform (flush_effects crc (ds_dir s) table entries (ds_files s)) s"

definition ds_compact_table :: "(bytes \<Rightarrow> u32) \<Rightarrow> string \<Rightarrow> (bytes \<times> bytes) list \<Rightarrow> 'j disk_store \<Rightarrow> 'j disk_store" where
  "ds_compact_table crc table entries s = perform (flush_effects crc (ds_dir s) table entries (ds_files s)) s"

definition ds_append_table_log :: "(bytes \<Rightarrow> u32) \<Rightarrow> string \<Rightarrow> delta list \<Rightarrow> 'j disk_store \<Rightarrow> 'j disk_store" where
  "ds_append_table_log crc table deltas s = perform (log_append crc (ds_dir s) table deltas (ds_files s)) s"

definition ds_table_log_bytes :: "string \<Rightarrow> 'j disk_store \<Rightarrow> nat" where
  "ds_table_log_bytes table s = log_size_bytes (ds_dir s) table (ds_files s)"

definition load_table :: "(bytes \<Rightarrow> u32) \<Rightarrow> string \<Rightarrow> string \<Rightarrow> files \<Rightarrow> (bytes \<times> bytes) list result" where
  "load_table crc dir t f = rbind (table_load crc dir t f) (\<lambda>base. rbind (log_load crc dir t f) (\<lambda>deltas. Inr (log_fold base deltas)))"

definition ds_load_table_data :: "(bytes \<Rightarrow> u32) \<Rightarrow> string \<Rightarrow> 'j disk_store \<Rightarrow> (bytes \<times> bytes) list result" where
  "ds_load_table_data crc table s = load_table crc (ds_dir s) table (ds_files s)"

section \<open>Reading back a log\<close>

definition delta_fits :: "delta \<Rightarrow> bool" where
  "delta_fits d \<longleftrightarrow> (case d of (op, key, value) \<Rightarrow> length key + length value + 9 < 2 ^ 32)"

lemma delta_fitsD:
  assumes "delta_fits (op, key, value)"
  shows "fits32 key" "fits32 value" "length (delta_body (op, key, value)) < 2 ^ 32"
  using assms by (simp_all add: delta_fits_def fits32_def put_lp_def)

lemma decode_delta: "delta_fits d \<Longrightarrow> decode_body (delta_body d) = Some d"
proof -
  obtain op key v where d: "d = (op, key, v)" by (cases d)
  assume "delta_fits d"
  note f = delta_fitsD [OF this [unfolded d]]
  let ?kl = "to_le (of_nat (length key) :: u32)" and ?vl = "to_le (of_nat (length v) :: u32)"
  have b: "delta_body d = [op] @ ?kl @ key @ ?vl @ v" by (simp add: d put_lp_def)
  have b2: "delta_body d = ([op] @ ?kl @ key) @ ?vl @ v" and b3: "delta_body d = ([op] @ ?kl @ key @ ?vl) @ v" by (simp_all add: b)
  have "rd_range 1 4 (delta_body d) = ?kl" "rd_range 5 (length key) (delta_body d) = key" by (simp_all add: b rd_range_def)
  moreover have "rd_range (5 + length key) 4 (delta_body d) = ?vl" unfolding b2 by (subst rd_range_append_right) simp_all
  moreover have "rd_range (9 + length key) (length v) (delta_body d) = v" unfolding b3 by (subst rd_range_append_right) simp_all
  moreover have "length (delta_body d) = 9 + length key + length v" "delta_body d ! 0 = op" by (simp_all add: b)
  ultimately show ?thesis using f by (simp add: decode_body_def d)
qed

lemma log_frame_eq: "log_frame crc d = to_le (of_nat (length (delta_body d)) :: u32) @ to_le (crc (delta_body d)) @ delta_body d"
  by (simp add: log_frame_def Let_def)

lemma unat_body: "delta_fits d \<Longrightarrow> unat (of_nat (length (delta_body d)) :: u32) = length (delta_body d)"
proof -
  assume "delta_fits d"
  then have "length (delta_body d) < 2 ^ 32" using delta_fitsD(3) by (cases d) blast
  then show ?thesis by (simp add: unat_of_nat)
qed

lemma frame_ranges:
  "rd_range 0 4 (log_frame crc d @ s) = to_le (of_nat (length (delta_body d)) :: u32)"
  "rd_range 4 4 (log_frame crc d @ s) = to_le (crc (delta_body d))"
  "rd_range 8 (length (delta_body d)) (log_frame crc d @ s) = delta_body d"
  by (simp_all add: log_frame_eq rd_range_def)

lemma log_scan_frame:
  assumes "delta_fits d"
  shows "log_scan crc (log_frame crc d @ s) = d # log_scan crc s"
proof -
  have "length (log_frame crc d) = 8 + length (delta_body d)" by (simp add: log_frame_eq)
  then show ?thesis using assms
    by (subst log_scan.simps) (simp add: frame_ranges unat_body decode_delta)
qed

lemma log_scan_frames: "\<forall>d\<in>set ds. delta_fits d \<Longrightarrow> log_scan crc (concat (map (log_frame crc) ds) @ s) = ds @ log_scan crc s"
  by (induction ds) (simp_all add: log_scan_frame)

lemma log_scan_short: "length s < 8 \<Longrightarrow> log_scan crc s = []"
  by (subst log_scan.simps) simp

lemma log_scan_torn:
  assumes "delta_fits d" and "n < length (log_frame crc d)"
  shows "log_scan crc (take n (log_frame crc d)) = []"
proof (cases "n < 8")
  case False
  then have "rd_range 0 4 (take n (log_frame crc d)) = to_le (of_nat (length (delta_body d)) :: u32)"
    by (simp add: log_frame_eq rd_range_def)
  moreover have "n < 8 + length (delta_body d)" using assms(2) by (simp add: log_frame_eq)
  ultimately show ?thesis using assms False by (subst log_scan.simps) (simp add: unat_body)
qed (simp add: log_scan_short)

text \<open>Of a cut sequence of frames the complete ones are read.\<close>

lemma log_scan_take:
  "\<forall>d\<in>set ds. delta_fits d \<Longrightarrow> \<exists>j. log_scan crc (take n (concat (map (log_frame crc) ds))) = take j ds"
proof (induction ds arbitrary: n)
  case (Cons d ds)
  show ?case
  proof (cases "n < length (log_frame crc d)")
    case True
    then have "log_scan crc (take n (concat (map (log_frame crc) (d # ds)))) = take 0 (d # ds)" using log_scan_torn Cons.prems by simp
    then show ?thesis by blast
  next
    case False
    obtain j where "log_scan crc (take (n - length (log_frame crc d)) (concat (map (log_frame crc) ds))) = take j ds" using Cons by fastforce
    then have "log_scan crc (take n (concat (map (log_frame crc) (d # ds)))) = take (Suc j) (d # ds)"
      using False Cons.prems log_scan_frame by simp
    then show ?thesis by blast
  qed
qed (simp add: log_scan_short)

definition log_header :: bytes where
  "log_header = LOG_MAGIC @ to_le LOG_VERSION"

lemma log_header_parse: "log_parse crc (log_header @ s) = Inr (log_scan crc s)"
  by (simp add: log_parse_def log_header_def LOG_MAGIC_def rd_range_def)

lemma length_log_header [simp]: "length log_header = 8"
  by (simp add: log_header_def LOG_MAGIC_def)

lemma log_header_ne [simp]: "log_header \<noteq> []"
  by (simp add: log_header_def LOG_MAGIC_def)

section \<open>Reading back a table file\<close>

interpretation tfc: codec put_lp table_field fits32
  by unfold_locales (simp add: put_lp_def table_field_def)

interpretation tec: codec "put_pair put_lp put_lp" "read_pair table_field table_field" "\<lambda>p. fits32 (fst p) \<and> fits32 (snd p)"
  by (rule codec_pair) (rule tfc.codec_axioms)+

definition entries_fit :: "(bytes \<times> bytes) list \<Rightarrow> bool" where
  "entries_fit es \<longleftrightarrow> (\<forall>p\<in>set es. fits32 (fst p) \<and> fits32 (snd p)) \<and> length es < 2 ^ 64 \<and> distinct (map fst es)"

lemma table_parse_bytes:
  assumes "entries_fit es"
  shows "table_parse crc (table_bytes crc es) = Inr es"
proof -
  let ?p = "to_le (of_nat (length es) :: u64) @ concat (map (put_pair put_lp put_lp) es)"
  have c: "table_check crc (?p @ to_le (crc ?p)) = Inr ?p" by (simp add: table_check_def)
  have "read_many (read_pair table_field table_field) (length es) (concat (map (put_pair put_lp put_lp) es)) = Inr (es, [])"
    using tec.read_many_enc [of es "length es" "[]"] assms by (simp add: entries_fit_def)
  then have p: "table_payload ?p = Inr es" using assms by (simp add: table_payload_def entries_fit_def unat_of_nat)
  have "read_exact 4 (TABLE_MAGIC @ s) = Inr (TABLE_MAGIC, s)" for s by (simp add: TABLE_MAGIC_def read_exact_def)
  then show ?thesis using c p by (simp add: table_parse_def table_bytes_def Let_def)
qed

section \<open>The contents of a table\<close>

fun delta_map :: "delta \<Rightarrow> (bytes \<rightharpoonup> bytes) \<Rightarrow> (bytes \<rightharpoonup> bytes)" where
  "delta_map (op, key, value) m = (if op = OP_DEL then m(key := None) else m(key \<mapsto> value))"

lemma fold_delta_map: "map_of (fold fold_delta ds m) = fold delta_map ds (map_of m)"
proof (induction ds arbitrary: m)
  case (Cons d ds)
  have "map_of (fold_delta d m) = delta_map d (map_of m)" by (cases d) (simp add: update_conv' delete_conv' fun_eq_iff)
  then show ?case using Cons.IH by simp
qed simp

lemma fold_update_base: "distinct (map fst base) \<Longrightarrow> map_of (fold (\<lambda>(k, v) m. AList.update k v m) base m0) = map_of m0 ++ map_of base"
proof (induction base arbitrary: m0)
  case (Cons a base)
  obtain k v where a: "a = (k, v)" by (cases a)
  then have "map_of base k = None" using Cons.prems by (simp add: map_of_eq_None_iff)
  then show ?case using Cons a by (auto simp: update_conv' map_add_def fun_eq_iff split: option.split)
qed simp

lemma log_fold_map: "distinct (map fst base) \<Longrightarrow> map_of (log_fold base ds) = fold delta_map ds (map_of base)"
  using fold_update_base [of base "[]"] by (simp add: log_fold_def fold_delta_map)

text \<open>The last delta for a key decides, so that applying the deltas twice changes nothing.\<close>

lemma fold_delta_last:
  "fold delta_map ds m k = (case find (\<lambda>d. fst (snd d) = k) (rev ds) of None \<Rightarrow> m k | Some (op, _, v) \<Rightarrow> if op = OP_DEL then None else Some v)"
proof (induction ds rule: rev_induct)
  case (snoc d ds)
  then show ?case by (cases d) (auto split: option.split)
qed simp

lemma fold_delta_idem: "fold delta_map ds (fold delta_map ds m) = fold delta_map ds m"
  by (rule ext) (simp add: fold_delta_last split: option.split)

definition table_state :: "(bytes \<Rightarrow> u32) \<Rightarrow> string \<Rightarrow> string \<Rightarrow> (bytes \<times> bytes) list \<Rightarrow> delta list \<Rightarrow> files \<Rightarrow> bool" where
  "table_state crc dir t base ds f \<longleftrightarrow> entries_fit base \<and> (\<forall>d\<in>set ds. delta_fits d) \<and>
     (case f (table_path dir t) of None \<Rightarrow> base = [] | Some c \<Rightarrow> c = table_bytes crc base) \<and>
     (case f (log_path dir t) of None \<Rightarrow> ds = [] | Some c \<Rightarrow> c = log_header @ concat (map (log_frame crc) ds))"

lemma table_stateD:
  assumes "table_state crc dir t base ds f"
  shows "table_load crc dir t f = Inr base" "log_load crc dir t f = Inr ds" "distinct (map fst base)"
  using assms table_parse_bytes [of base crc] log_scan_frames [of ds crc "[]"]
  by (auto simp: table_state_def table_load_def log_load_def log_header_parse entries_fit_def log_scan_short split: option.splits)

lemma load_state:
  assumes "table_load crc dir t f = Inr base" and "log_load crc dir t f = Inr ds" and "distinct (map fst base)"
  shows "\<exists>es. load_table crc dir t f = Inr es \<and> map_of es = fold delta_map ds (map_of base)"
  using assms log_fold_map by (simp add: load_table_def)

section \<open>Appending and flushing\<close>

lemma table_paths [simp]:
  "table_path dir t \<noteq> log_path dir t" "log_path dir t \<noteq> table_path dir t"
  "table_path dir t @ ''.tmp'' \<noteq> log_path dir t" "log_path dir t \<noteq> table_path dir t @ ''.tmp''"
  "table_path dir t @ ''.tmp'' \<noteq> table_path dir t" "table_path dir t \<noteq> table_path dir t @ ''.tmp''"
  by (simp_all add: table_path_def log_path_def)

lemma log_append_one:
  assumes "table_state crc dir t base ds f" and "ds' \<noteq> []"
  shows "\<exists>hdr. log_append crc dir t ds' f = [Append (log_path dir t) (hdr @ concat (map (log_frame crc) ds'))] \<and>
    (case f (log_path dir t) of None \<Rightarrow> ds = [] \<and> hdr = log_header | Some c \<Rightarrow> hdr = [] \<and> c = log_header @ concat (map (log_frame crc) ds))"
proof (cases "f (log_path dir t)")
  case None
  then show ?thesis using assms by (simp add: log_append_def log_header_def table_state_def)
next
  case (Some c)
  then have "c = log_header @ concat (map (log_frame crc) ds)" using assms(1) by (simp add: table_state_def)
  then show ?thesis using Some assms(2) by (simp add: log_append_def)
qed

lemma append_state:
  assumes "table_state crc dir t base ds f" and "\<forall>d\<in>set ds'. delta_fits d"
  shows "table_state crc dir t base (ds @ ds') (run_effects (log_append crc dir t ds' f) f)"
proof (cases "ds' = []")
  case True
  then show ?thesis using assms(1) by (simp add: log_append_def run_effects_def)
next
  case False
  let ?g = "run_effects (log_append crc dir t ds' f) f"
  obtain hdr where h: "log_append crc dir t ds' f = [Append (log_path dir t) (hdr @ concat (map (log_frame crc) ds'))]"
    "case f (log_path dir t) of None \<Rightarrow> ds = [] \<and> hdr = log_header | Some c \<Rightarrow> hdr = [] \<and> c = log_header @ concat (map (log_frame crc) ds)"
    using log_append_one [OF assms(1) False] by blast
  have "?g (log_path dir t) = Some (log_header @ concat (map (log_frame crc) (ds @ ds')))"
    using h by (cases "f (log_path dir t)") (simp_all add: run_effects_def)
  moreover have "?g (table_path dir t) = f (table_path dir t)" using h(1) by (simp add: run_effects_def)
  ultimately show ?thesis using assms by (simp add: table_state_def ball_Un)
qed

lemma append_crash:
  assumes "table_state crc dir t base ds f" and fits: "\<forall>d\<in>set ds'. delta_fits d"
  shows "\<exists>j. log_load crc dir t (crash_in (log_append crc dir t ds' f) k n f) = Inr (ds @ take j ds') \<and>
    table_load crc dir t (crash_in (log_append crc dir t ds' f) k n f) = Inr base"
proof (cases "ds' = [] \<or> 0 < k")
  case True
  then have "crash_in (log_append crc dir t ds' f) k n f = run_effects (log_append crc dir t ds' f) f"
    by (cases k) (auto simp: crash_in_def log_append_def Let_def)
  then show ?thesis using table_stateD [OF append_state [OF assms]] by (intro exI [of _ "length ds'"]) simp
next
  case False
  obtain hdr where h: "log_append crc dir t ds' f = [Append (log_path dir t) (hdr @ concat (map (log_frame crc) ds'))]"
    "case f (log_path dir t) of None \<Rightarrow> ds = [] \<and> hdr = log_header | Some c \<Rightarrow> hdr = [] \<and> c = log_header @ concat (map (log_frame crc) ds)"
    using log_append_one [OF assms(1)] False by blast
  let ?f = "crash_in (log_append crc dir t ds' f) k n f"
  have t: "?f (table_path dir t) = f (table_path dir t)" using h(1) False by (simp add: crash_in_def run_effects_def)
  have "\<exists>j. log_load crc dir t ?f = Inr (ds @ take j ds')"
  proof (cases "f (log_path dir t)")
    case None
    then have l: "?f (log_path dir t) = Some (take n (log_header @ concat (map (log_frame crc) ds')))" and e: "ds = []"
      using h False by (simp_all add: crash_in_def run_effects_def)
    show ?thesis
    proof (cases "n < 8")
      case True
      then have "log_load crc dir t ?f = Inr (ds @ take 0 ds')" using l e by (simp add: log_load_def log_parse_def)
      then show ?thesis by blast
    next
      case False
      then show ?thesis using l e log_scan_take [OF fits, of crc "n - 8"] by (auto simp: log_load_def log_header_parse)
    qed
  next
    case (Some c)
    then have l: "?f (log_path dir t) = Some (log_header @ concat (map (log_frame crc) ds) @ take n (concat (map (log_frame crc) ds')))"
      using h False by (simp add: crash_in_def run_effects_def)
    have "\<forall>d\<in>set ds. delta_fits d" using assms(1) by (simp add: table_state_def)
    then show ?thesis using l log_scan_take [OF fits, of crc n] log_scan_frames by (auto simp: log_load_def log_header_parse)
  qed
  moreover have "table_load crc dir t ?f = Inr base" using t table_stateD(1) [OF assms(1)] by (simp add: table_load_def)
  ultimately show ?thesis by blast
qed

lemma save_run:
  "run_effects (table_save crc dir t es) f (table_path dir t) = Some (table_bytes crc es)"
  "run_effects (table_save crc dir t es) f (log_path dir t) = f (log_path dir t)"
  by (simp_all add: table_save_def run_effects_def Let_def)

lemma flush_state:
  assumes "table_state crc dir t base ds f" and "entries_fit es"
  shows "table_state crc dir t es [] (run_effects (flush_effects crc dir t es f) f)"
proof -
  let ?g = "run_effects (table_save crc dir t es) f"
  have "run_effects (flush_effects crc dir t es f) f = run_effects (log_truncate dir t ?g) ?g" by (simp add: flush_effects_def run_effects_def)
  then show ?thesis using assms save_run [of crc dir t es f] by (auto simp: table_state_def log_truncate_def run_effects_def)
qed

text \<open>
  A crash within a flush: before the rename the old file and log are in place, between the rename and the removal
  of the log its deltas are applied to the flushed contents, and after that the flushed contents are there alone.
\<close>

lemma crash_save:
  assumes "k \<le> 2"
  shows "crash_in (table_save crc dir t es @ rest) k n f (table_path dir t) = f (table_path dir t)"
    and "crash_in (table_save crc dir t es @ rest) k n f (log_path dir t) = f (log_path dir t)"
proof -
  have "k = 0 \<or> k = 1 \<or> k = 2" using assms by auto
  then show "crash_in (table_save crc dir t es @ rest) k n f (table_path dir t) = f (table_path dir t)"
    and "crash_in (table_save crc dir t es @ rest) k n f (log_path dir t) = f (log_path dir t)"
    by (auto simp: crash_in_def table_save_def run_effects_def Let_def numeral_2_eq_2)
qed

lemma crash_between: "drop k es = [] \<or> drop k es = [Remove p] \<Longrightarrow> crash_in es k n f = run_effects (take k es) f"
  by (auto simp: crash_in_def)

lemma crash_truncate:
  assumes "3 \<le> k"
  shows "crash_in (table_save crc dir t es @ log_truncate dir t g) k n f =
    run_effects (take (k - 3) (log_truncate dir t g)) (run_effects (table_save crc dir t es) f)"
proof -
  have l: "length (table_save crc dir t es) = 3" by (simp add: table_save_def Let_def)
  have "drop k (table_save crc dir t es @ log_truncate dir t g) = drop (k - 3) (log_truncate dir t g)" using assms l by simp
  moreover have "drop i (log_truncate dir t g) = [] \<or> drop i (log_truncate dir t g) = [Remove (log_path dir t)]" for i
    by (cases i) (simp_all add: log_truncate_def)
  ultimately have "crash_in (table_save crc dir t es @ log_truncate dir t g) k n f = run_effects (take k (table_save crc dir t es @ log_truncate dir t g)) f"
    using crash_between by metis
  then show ?thesis using assms l by (simp add: run_effects_def)
qed

lemma flush_crash:
  assumes st: "table_state crc dir t base ds f" and es: "entries_fit es"
  shows "\<exists>out. load_table crc dir t (crash_in (flush_effects crc dir t es f) k n f) = Inr out \<and>
    map_of out \<in> {fold delta_map ds (map_of base), fold delta_map ds (map_of es), map_of es}"
proof (cases "k \<le> 2")
  case True
  let ?g = "crash_in (flush_effects crc dir t es f) k n f"
  have "?g (table_path dir t) = f (table_path dir t)" "?g (log_path dir t) = f (log_path dir t)"
    using crash_save [OF True] by (simp_all add: flush_effects_def)
  then have "load_table crc dir t ?g = load_table crc dir t f" by (simp add: load_table_def table_load_def log_load_def)
  then show ?thesis using load_state [OF table_stateD [OF st]] by auto
next
  case False
  let ?s = "run_effects (table_save crc dir t es) f" and ?u = "log_truncate dir t (run_effects (table_save crc dir t es) f)"
  have c: "crash_in (flush_effects crc dir t es f) k n f = run_effects (take (k - 3) ?u) ?s"
    using crash_truncate [of k] False by (simp add: flush_effects_def)
  show ?thesis
  proof (cases "take (k - 3) ?u = []")
    case True
    have "table_state crc dir t es ds ?s" using st es save_run [of crc dir t es f] by (simp add: table_state_def)
    from load_state [OF table_stateD [OF this]] obtain out where "load_table crc dir t ?s = Inr out" "map_of out = fold delta_map ds (map_of es)"
      by blast
    moreover have "crash_in (flush_effects crc dir t es f) k n f = ?s" unfolding c True by (simp add: run_effects_def)
    ultimately show ?thesis by simp
  next
    case False
    then have e: "run_effects (take (k - 3) ?u) ?s = run_effects (flush_effects crc dir t es f) f"
      by (cases "k - 3") (simp_all add: log_truncate_def flush_effects_def run_effects_def)
    obtain out where "load_table crc dir t (run_effects (flush_effects crc dir t es f) f) = Inr out" "map_of out = map_of es"
      using load_state [OF table_stateD [OF flush_state [OF st es]]] by auto
    then show ?thesis unfolding c e by simp
  qed
qed

section \<open>Histories of a table\<close>

datatype table_op = LogAppend "delta list" | Flush "(bytes \<times> bytes) list"

fun ds_do :: "(bytes \<Rightarrow> u32) \<Rightarrow> string \<Rightarrow> table_op \<Rightarrow> 'j disk_store \<Rightarrow> 'j disk_store" where
  "ds_do crc t (LogAppend ds) s = ds_append_table_log crc t ds s"
| "ds_do crc t (Flush es) s = ds_flush_table_data crc t es s"

text \<open>The effects of an operation, to cut them with a crash.\<close>

fun op_effects :: "(bytes \<Rightarrow> u32) \<Rightarrow> string \<Rightarrow> table_op \<Rightarrow> 'j disk_store \<Rightarrow> effect list" where
  "op_effects crc t (LogAppend ds) s = log_append crc (ds_dir s) t ds (ds_files s)"
| "op_effects crc t (Flush es) s = flush_effects crc (ds_dir s) t es (ds_files s)"

fun op_spec :: "table_op \<Rightarrow> (bytes \<rightharpoonup> bytes) \<Rightarrow> (bytes \<rightharpoonup> bytes)" where
  "op_spec (LogAppend ds) m = fold delta_map ds m"
| "op_spec (Flush es) m = map_of es"

text \<open>What the log holds: the deltas that were appended since the last flush.\<close>

fun op_pending :: "table_op \<Rightarrow> delta list \<Rightarrow> delta list" where
  "op_pending (LogAppend ds) p = p @ ds"
| "op_pending (Flush es) p = []"

fun op_fits :: "table_op \<Rightarrow> bool" where
  "op_fits (LogAppend ds) = list_all delta_fits ds"
| "op_fits (Flush es) = entries_fit es"

lemma ds_dir_perform [simp]: "ds_dir (perform es s) = ds_dir s"
  by (simp add: ds_dir_def perform_def)

lemma ds_do_dir [simp]: "ds_dir (ds_do crc t x s) = ds_dir s"
  by (cases x) (simp_all add: ds_append_table_log_def ds_flush_table_data_def)

lemma ds_run_dir [simp]: "ds_dir (fold (ds_do crc t) xs s) = ds_dir s"
  by (induction xs arbitrary: s) simp_all

lemma ds_do_state:
  assumes "table_state crc (ds_dir s) t base ds (ds_files s)" and "op_fits x"
  shows "\<exists>base'. table_state crc (ds_dir s) t base' (op_pending x ds) (ds_files (ds_do crc t x s)) \<and>
    fold delta_map (op_pending x ds) (map_of base') = op_spec x (fold delta_map ds (map_of base))"
proof (cases x)
  case (LogAppend ds')
  then show ?thesis using append_state [OF assms(1), of ds'] assms(2)
    by (intro exI [of _ base]) (simp add: ds_append_table_log_def perform_def list_all_iff)
next
  case (Flush es)
  then show ?thesis using flush_state [OF assms(1), of es] assms(2)
    by (intro exI [of _ es]) (simp add: ds_flush_table_data_def perform_def)
qed

lemma ds_run_state:
  assumes "table_state crc (ds_dir s) t base ds (ds_files s)" and "list_all op_fits xs"
  shows "\<exists>base'. table_state crc (ds_dir s) t base' (fold op_pending xs ds) (ds_files (fold (ds_do crc t) xs s)) \<and>
    fold delta_map (fold op_pending xs ds) (map_of base') = fold op_spec xs (fold delta_map ds (map_of base))"
  using assms
proof (induction xs arbitrary: s base ds)
  case (Cons x xs)
  let ?d = "op_pending x ds"
  obtain b where "table_state crc (ds_dir s) t b ?d (ds_files (ds_do crc t x s))" "fold delta_map ?d (map_of b) = op_spec x (fold delta_map ds (map_of base))"
    using ds_do_state [OF Cons.prems(1), of x] Cons.prems(2) by auto
  then show ?case using Cons.IH [of "ds_do crc t x s" b ?d] Cons.prems(2) by simp
qed auto

text \<open>The contents that a crash within an operation may leave, where \<open>p\<close> are the deltas in the log and \<open>m\<close> the contents before.\<close>

fun crash_spec :: "table_op \<Rightarrow> delta list \<Rightarrow> (bytes \<rightharpoonup> bytes) \<Rightarrow> (bytes \<rightharpoonup> bytes) set" where
  "crash_spec (LogAppend ds) p m = {fold delta_map (take j ds) m | j. j \<le> length ds}"
| "crash_spec (Flush es) p m = {m, fold delta_map p (map_of es), map_of es}"

lemma op_crash:
  assumes "table_state crc (ds_dir s) t base ds (ds_files s)" and "op_fits x"
  shows "\<exists>out. load_table crc (ds_dir s) t (crash_in (op_effects crc t x s) k n (ds_files s)) = Inr out \<and>
    map_of out \<in> crash_spec x ds (fold delta_map ds (map_of base))"
proof (cases x)
  case (LogAppend ds')
  let ?g = "crash_in (op_effects crc t x s) k n (ds_files s)"
  obtain j where "log_load crc (ds_dir s) t ?g = Inr (ds @ take j ds')" "table_load crc (ds_dir s) t ?g = Inr base"
    using append_crash [OF assms(1), of ds' k n] assms(2) LogAppend by (auto simp: list_all_iff)
  then obtain out where out: "load_table crc (ds_dir s) t ?g = Inr out" "map_of out = fold delta_map (ds @ take j ds') (map_of base)"
    using load_state table_stateD(3) [OF assms(1)] by blast
  have "take j ds' = take (min j (length ds')) ds'" by (simp add: min_def)
  then have "map_of out = fold delta_map (take (min j (length ds')) ds') (fold delta_map ds (map_of base))" using out(2) by simp
  then show ?thesis using out(1) unfolding LogAppend crash_spec.simps by (metis (mono_tags, lifting) mem_Collect_eq min.cobounded2)
next
  case (Flush es)
  then show ?thesis using flush_crash [OF assms(1), of es k n] assms(2) by simp
qed

section \<open>Properties\<close>

text \<open>C38. After any sequence of log appends and flushes (with keys and values that fit the formats, on a table without files) the files of a table load as the
  contents that the operations describe. If the server stops within a further operation, after any number of its effects and any number of bytes of a write,
  then the files still load. A crash within an append leaves the contents before with the first of the new deltas applied. A crash within a flush leaves
  the contents before, or the flushed contents with the deltas applied that were logged since the previous flush, or the flushed contents; so a flush of the current
  contents leaves these in every case.\<close>

theorem table_crash_safe:
  assumes "ds_files s (table_path (ds_dir s) t) = None" and "ds_files s (log_path (ds_dir s) t) = None"
    and "list_all op_fits xs" and "op_fits x"
  shows "let s1 = fold (ds_do crc t) xs s; m = fold op_spec xs Map.empty; f = crash_in (op_effects crc t x s1) k n (ds_files s1)
    in (\<exists>out. ds_load_table_data crc t s1 = Inr out \<and> map_of out = m) \<and>
       (\<exists>out. load_table crc (ds_dir s) t f = Inr out \<and> map_of out \<in> crash_spec x (fold op_pending xs []) m \<and>
          (\<forall>es. x = Flush es \<and> map_of es = m \<longrightarrow> map_of out = m))"
proof -
  let ?s1 = "fold (ds_do crc t) xs s" and ?p = "fold op_pending xs []" and ?m = "fold op_spec xs Map.empty"
  have "table_state crc (ds_dir s) t [] [] (ds_files s)" using assms(1,2) by (simp add: table_state_def entries_fit_def)
  then obtain base where st: "table_state crc (ds_dir s) t base ?p (ds_files ?s1)" and m: "fold delta_map ?p (map_of base) = ?m"
    using ds_run_state [OF _ assms(3)] by fastforce
  obtain out where out: "load_table crc (ds_dir s) t (crash_in (op_effects crc t x ?s1) k n (ds_files ?s1)) = Inr out" "map_of out \<in> crash_spec x ?p ?m"
    using op_crash [of crc ?s1 t base ?p x k n] st assms(4) unfolding m by auto
  have "fold delta_map ?p ?m = ?m" unfolding m [symmetric] by (rule fold_delta_idem)
  then have "map_of out = ?m" if "x = Flush es" "map_of es = ?m" for es using out(2) that by auto
  moreover have "\<exists>out. ds_load_table_data crc t ?s1 = Inr out \<and> map_of out = ?m"
    using load_state [OF table_stateD [OF st]] unfolding m by (simp add: ds_load_table_data_def)
  ultimately show ?thesis unfolding Let_def using out by blast
qed

definition sample_store :: "unit disk_store" where
  "sample_store = \<lparr>ds_registry = \<lparr>root = ''data'', databases = [''main''], default_db = ''main''\<rparr>, ds_catalog = [], ds_current = ''main'', ds_files = Map.empty\<rparr>"

theorem table_crash_safe_witness:
  "let s1 = fold (ds_do (\<lambda>_. 0) ''t'') [LogAppend [(OP_PUT, [1], [2])], Flush [([1], [2])], LogAppend [(OP_DEL, [1], [])]] sample_store;
       f = crash_in (op_effects (\<lambda>_. 0) ''t'' (Flush [([1], [2]), ([3], [4])]) s1) 3 0 (ds_files s1)
   in (\<exists>out. ds_load_table_data (\<lambda>_. 0) ''t'' s1 = Inr out \<and> map_of out = Map.empty) \<and>
      (\<exists>out. load_table (\<lambda>_. 0) (ds_dir sample_store) ''t'' f = Inr out \<and>
         map_of out \<in> {Map.empty, [[3] \<mapsto> [4]], [[1] \<mapsto> [2], [3] \<mapsto> [4]]})"
proof -
  let ?xs = "[LogAppend [(OP_PUT, [1], [2])], Flush [([1], [2])], LogAppend [(OP_DEL, [1], [])]]" and ?x = "Flush [([1], [2]), ([3], [4])]"
  have m: "fold op_spec ?xs Map.empty = Map.empty" "fold op_pending ?xs [] = [(OP_DEL, [1], [])]" by (simp_all add: OP_DEL_def)
  have c: "crash_spec ?x [(OP_DEL, [1], [])] Map.empty = {Map.empty, [[3] \<mapsto> [4]], [[1] \<mapsto> [2], [3] \<mapsto> [4]]}"
    by (simp add: OP_DEL_def fun_upd_twist)
  have f: "ds_files sample_store p = None" for p by (simp add: sample_store_def)
  have "list_all op_fits ?xs" "op_fits ?x" by (simp_all add: delta_fits_def entries_fit_def fits32_def)
  from table_crash_safe [OF f f this, where crc = "\<lambda>_. 0" and t = "''t''" and k = 3 and n = 0] show ?thesis unfolding Let_def m c by (elim conjE exE) (intro conjI exI)
qed

section \<open>The catalogue and the registry\<close>

definition catalog_lib_ok :: "'j catalog_lib \<Rightarrow> bool" where
  "catalog_lib_ok lib \<longleftrightarrow> (\<forall>c. cat_de lib (cat_ser lib c) = Some c)"

text \<open>Loading the catalogue after a crash in \<open>save\<close> gives the old one or the new one.\<close>

lemma catalog_parse_bytes:
  assumes "catalog_lib_ok lib" and "fits32 (cat_ser lib c)"
  shows "catalog_parse lib (catalog_bytes lib c) = Inr c"
proof -
  have "read_exact 4 (CATALOG_MAGIC @ s) = Inr (CATALOG_MAGIC, s)" for s by (simp add: CATALOG_MAGIC_def read_exact_def)
  then show ?thesis using assms u32c.dec_enc_end
    by (simp add: catalog_parse_def catalog_bytes_def Let_def u32c.dec_enc catalog_lib_ok_def)
qed

lemma catalog_crash:
  assumes "catalog_lib_ok lib" and "fits32 (cat_ser lib c)"
  shows "catalog_load lib dir (crash_in (catalog_save lib dir c) k n f) \<in> {catalog_load lib dir f, Inr c}"
proof -
  have p: "dir @ ''/catalog.tmp'' \<noteq> catalog_path dir" "catalog_path dir \<noteq> dir @ ''/catalog.tmp''" by (simp_all add: catalog_path_def)
  consider "k = 0" | "k = 1" | "k = 2" | "k > 2" by linarith
  then show ?thesis
  proof cases
    case 4
    then have "drop k (catalog_save lib dir c) = []" "take k (catalog_save lib dir c) = catalog_save lib dir c" by (simp_all add: catalog_save_def Let_def)
    then have "crash_in (catalog_save lib dir c) k n f = run_effects (catalog_save lib dir c) f" by (simp add: crash_in_def)
    then have "crash_in (catalog_save lib dir c) k n f (catalog_path dir) = Some (catalog_bytes lib c)"
      using p by (simp add: catalog_save_def run_effects_def Let_def)
    then show ?thesis using catalog_parse_bytes [OF assms] by (simp add: catalog_load_def)
  qed (use p in \<open>simp_all add: crash_in_def catalog_save_def run_effects_def catalog_load_def numeral_2_eq_2 Let_def\<close>)
qed

lemma find_replace: "find (\<lambda>x. tc_name x = tc_name t) cat = Some y \<Longrightarrow>
    find (\<lambda>x. tc_name x = n) (replace_named t cat) = (if n = tc_name t then Some t else find (\<lambda>x. tc_name x = n) cat)"
  by (induction cat) (auto split: if_splits)

lemma catalog_upsert_find: "catalog_find n (catalog_upsert t cat) = (if n = tc_name t then Some t else catalog_find n cat)"
proof (cases "catalog_find (tc_name t) cat")
  case None
  then have "find (\<lambda>x. tc_name x = n) (cat @ [t]) = (if n = tc_name t then Some t else find (\<lambda>x. tc_name x = n) cat)"
    unfolding catalog_find_def by (induction cat) (auto split: if_splits)
  then show ?thesis using None by (simp add: catalog_upsert_def catalog_find_def)
next
  case (Some y)
  then show ?thesis using find_replace [of t cat y n] by (simp add: catalog_upsert_def catalog_find_def)
qed

lemma catalog_remove_find: "catalog_find n (fst (catalog_remove m cat)) = (if n = m then None else catalog_find n cat)"
  unfolding catalog_remove_def catalog_find_def Let_def by (induction cat) auto

lemma of_bytes_as_bytes: "of_bytes (as_bytes s) = s"
proof -
  have "char_of (unat (of_char c :: u8)) = c" for c
    using unat_of_nat [where 'a = 8, of "of_char c"] nat_of_char_less_256 [of c] by (simp add: of_nat_of_char)
  then show ?thesis by (simp add: of_bytes_def as_bytes_def o_def)
qed

lemma fold_insort_sorted: "sorted_wrt (<) (ys @ xs) \<Longrightarrow> fold insort_insert xs ys = ys @ xs"
proof (induction xs arbitrary: ys)
  case (Cons x xs)
  have "insort_insert x ys = ys @ [x]"
  proof -
    have "\<forall>y\<in>set ys. y < x" using Cons.prems by (simp add: sorted_wrt_append)
    then show ?thesis by (induction ys) (auto simp: insort_insert_key_def)
  qed
  then show ?case using Cons by simp
qed simp

text \<open>The registry is read back as it was written.\<close>

lemma meta_roundtrip:
  assumes "sorted_wrt (<) dbs" and "length dbs < 2 ^ 32" and "\<forall>n\<in>set dbs. fits32 (as_bytes n) \<and> from_utf8 (as_bytes n)"
  shows "read_meta (meta_bytes dbs) = Inr dbs"
proof -
  have m: "read_exact 4 (SERVER_META_MAGIC @ s) = Inr (SERVER_META_MAGIC, s)" for s by (simp add: SERVER_META_MAGIC_def read_exact_def)
  have "read_many read_name (length dbs) (concat (map (\<lambda>n. put_lp (as_bytes n)) dbs)) = Inr (dbs, [])"
    using assms(3) by (induction dbs) (simp_all add: read_name_def lpc.dec_enc of_bytes_as_bytes)
  moreover have "unat (of_nat (length dbs) :: u32) = length dbs" using assms(2) by (simp add: unat_of_nat)
  ultimately show ?thesis using m fold_insort_sorted [of "[]" dbs] assms(1)
    by (simp add: read_meta_def meta_bytes_def u32c.dec_enc)
qed

section \<open>Divergences\<close>

lemma le_enc_4: "le_enc 4 x = [of_nat (x mod 256), of_nat (x div 256 mod 256), of_nat (x div 256 div 256 mod 256), of_nat (x div 256 div 256 div 256 mod 256)]"
proof -
  have "(4 :: nat) = Suc (Suc (Suc (Suc 0)))" by simp
  then show ?thesis by (simp only: le_enc.simps)
qed

text \<open>An append does not remove a torn end: what is appended behind it is not read again.\<close>

lemma append_after_torn_tail:
  fixes crc :: "bytes \<Rightarrow> u32"
  defines "d \<equiv> (OP_PUT, [1], [2])"
  assumes "f (log_path dir t) = Some (log_header @ log_frame crc d @ [0xAA])"
  shows "log_load crc dir t (run_effects (log_append crc dir t [d] f) f) = Inr [d]"
proof -
  have fits: "delta_fits d" by (simp add: d_def delta_fits_def)
  have "log_frame crc d = [11, 0, 0, 0] @ to_le (crc (delta_body d)) @ delta_body d" by (simp add: log_frame_eq d_def put_lp_def to_le_def le_enc_4)
  then have "log_scan crc (0xAA # log_frame crc d) = []"
    by (subst log_scan.simps) (simp add: rd_range_def from_le_def d_def put_lp_def)
  then show ?thesis using assms(2) log_scan_frame [OF fits] by (simp add: log_append_def run_effects_def log_load_def log_header_parse)
qed

text \<open>A crash within the first bytes of a new log leaves a file that is neither new nor readable once it has grown.\<close>

lemma append_after_torn_header:
  assumes "f (log_path dir t) = Some [66]"
  shows "log_load crc dir t (run_effects (log_append crc dir t [(OP_PUT, [1], [2])] f) f) = Inl (Internal ''table log: bad magic'')"
  using assms by (simp add: log_append_def run_effects_def log_load_def log_parse_def log_frame_eq put_lp_def to_le_def le_enc_4 rd_range_def LOG_MAGIC_def)

text \<open>Names with different characters outside the safe ones share their files.\<close>

lemma sanitize_collision: "table_path dir ''a b'' = table_path dir ''a+b'' \<and> log_path dir ''a b'' = log_path dir ''a+b''"
  by (simp add: table_path_def log_path_def sanitize_def safe_char_def is_cont_char_def)

end
