(* ===== verification/FreeSpace.thy ===== *)
theory FreeSpace
  imports Prelude "HOL-Library.AList" "HOL-Library.Multiset"
begin

text \<open>
  The free space map, \<open>bytedb-core/src/storage/fsm.rs\<close>, and the list of free pages, \<open>freelist.rs\<close>. The map of pages is a \<open>HashMap\<close>, here
  an association list; the buckets hold the pages by how full they are, so that a search starts at the first bucket that can have a page
  with enough space. Every call holds the locks of both, so that calls are steps. The product of \<open>bucket_index\<close> wraps around at the
  width of \<open>usize\<close>, as it does in a release build (a debug build panics), and so it is exact below \<open>2 ^ 60\<close> bytes.
\<close>

section \<open>The model\<close>

definition NUM_BUCKETS :: nat where "NUM_BUCKETS = 16"

record fsm =
  page_size :: nat
  pages :: "(u32 \<times> nat) list"
  buckets :: "u32 list list"

definition fsm_new :: "nat \<Rightarrow> fsm" where
  "fsm_new ps = \<lparr>page_size = ps, pages = [], buckets = replicate NUM_BUCKETS []\<rparr>"

definition bucket_index :: "nat \<Rightarrow> nat \<Rightarrow> nat" where
  "bucket_index ps free_bytes = (if ps = 0 then 0 else min (free_bytes * NUM_BUCKETS mod 2 ^ 64 div max ps 1) (NUM_BUCKETS - 1))"

text \<open>\<open>swap_remove\<close> at the position of the page: the last element takes its place.\<close>

fun index_of :: "'a \<Rightarrow> 'a list \<Rightarrow> nat option" where
  "index_of x [] = None"
| "index_of x (y # ys) = (if y = x then Some 0 else map_option Suc (index_of x ys))"

definition swap_remove :: "nat \<Rightarrow> 'a list \<Rightarrow> 'a list" where
  "swap_remove i xs = butlast (xs[i := last xs])"

definition take_out :: "u32 \<Rightarrow> u32 list \<Rightarrow> u32 list" where
  "take_out p b = (case index_of p b of Some pos \<Rightarrow> swap_remove pos b | None \<Rightarrow> b)"

definition fsm_record :: "u32 \<Rightarrow> nat \<Rightarrow> fsm \<Rightarrow> fsm" where
  "fsm_record page_id free_bytes s =
     (let new_idx = bucket_index (page_size s) free_bytes;
          s1 = s\<lparr>pages := AList.update page_id free_bytes (pages s)\<rparr>
      in case map_of (pages s) page_id of
           Some old_free \<Rightarrow>
             let old_idx = bucket_index (page_size s) old_free
             in if old_idx \<noteq> new_idx
                then let bs = (buckets s)[old_idx := take_out page_id (buckets s ! old_idx)]
                     in s1\<lparr>buckets := bs[new_idx := bs ! new_idx @ [page_id]]\<rparr>
                else s1
         | None \<Rightarrow> s1\<lparr>buckets := (buckets s)[new_idx := buckets s ! new_idx @ [page_id]]\<rparr>)"

definition fsm_forget :: "u32 \<Rightarrow> fsm \<Rightarrow> fsm" where
  "fsm_forget page_id s =
     (case map_of (pages s) page_id of
        Some fr \<Rightarrow>
          let idx = bucket_index (page_size s) fr
          in s\<lparr>pages := AList.delete page_id (pages s), buckets := (buckets s)[idx := take_out page_id (buckets s ! idx)]\<rparr>
      | None \<Rightarrow> s\<lparr>pages := AList.delete page_id (pages s)\<rparr>)"

definition find_with_at_least :: "nat \<Rightarrow> fsm \<Rightarrow> u32 option" where
  "find_with_at_least needed s =
     find (\<lambda>p. case map_of (pages s) p of Some fr \<Rightarrow> fr \<ge> needed | None \<Rightarrow> False)
       (concat (map rev (drop (bucket_index (page_size s) needed) (buckets s))))"

definition page_count :: "fsm \<Rightarrow> nat" where
  "page_count s = length (pages s)"

definition free_bytes_for :: "u32 \<Rightarrow> fsm \<Rightarrow> nat option" where
  "free_bytes_for p s = map_of (pages s) p"

definition total_free_bytes :: "fsm \<Rightarrow> nat" where
  "total_free_bytes s = sum_list (map snd (pages s))"

text \<open>The free list is a queue.\<close>

definition fl_push :: "u32 \<Rightarrow> u32 list \<Rightarrow> u32 list" where
  "fl_push p q = q @ [p]"

definition fl_pop :: "u32 list \<Rightarrow> u32 option \<times> u32 list" where
  "fl_pop q = (case q of [] \<Rightarrow> (None, []) | p # r \<Rightarrow> (Some p, r))"

section \<open>Buckets\<close>

lemma index_of_Some: "index_of x xs = Some i \<Longrightarrow> i < length xs \<and> xs ! i = x"
  by (induction xs arbitrary: i) (auto split: if_splits)

lemma index_of_None: "index_of x xs = None \<longleftrightarrow> x \<notin> set xs"
  by (induction xs) auto

lemma mset_swap_remove:
  assumes "i < length xs"
  shows "mset (swap_remove i xs) = mset xs - {#xs ! i#}"
proof -
  obtain ys x where xs: "xs = ys @ [x]" using assms by (cases xs rule: rev_cases) auto
  show ?thesis
  proof (cases "i = length ys")
    case True
    then show ?thesis by (simp add: swap_remove_def xs)
  next
    case False
    then show ?thesis using assms by (simp add: swap_remove_def xs list_update_append nth_append butlast_append mset_update)
  qed
qed

lemma mset_take_out: "mset (take_out p b) = mset b - {#p#}"
  by (auto simp: take_out_def mset_swap_remove index_of_None diff_single_trivial dest!: index_of_Some split: option.splits)

lemma set_take_out:
  assumes "distinct b"
  shows "distinct (take_out p b)" and "set (take_out p b) = set b - {p}"
proof -
  have "mset (take_out p b) = mset (remove1 p b)" by (simp add: mset_take_out)
  then have "distinct (take_out p b) = distinct (remove1 p b)" "set (take_out p b) = set (remove1 p b)"
    by (metis mset_eq_imp_distinct_iff, metis mset_eq_setD)
  then show "distinct (take_out p b)" and "set (take_out p b) = set b - {p}" using assms by auto
qed

text \<open>Every page is in the bucket of its free space, once, and in no other.\<close>

definition fsm_inv :: "fsm \<Rightarrow> bool" where
  "fsm_inv s \<longleftrightarrow> distinct (map fst (pages s)) \<and> length (buckets s) = NUM_BUCKETS \<and>
     (\<forall>i < NUM_BUCKETS. distinct (buckets s ! i) \<and>
        (\<forall>p. p \<in> set (buckets s ! i) \<longleftrightarrow> (\<exists>fr. map_of (pages s) p = Some fr \<and> bucket_index (page_size s) fr = i)))"

lemma bucket_bound [simp]: "bucket_index ps n < NUM_BUCKETS"
  by (auto simp: bucket_index_def NUM_BUCKETS_def min_def)

text \<open>The sizes for which the bucket is computed without wrap-around.\<close>

definition usable_size :: "nat \<Rightarrow> bool" where
  "usable_size n \<longleftrightarrow> n < 2 ^ 60"

lemma bucket_index_usable: "usable_size n \<Longrightarrow> bucket_index ps n = (if ps = 0 then 0 else min (n * 16 div ps) 15)"
  by (simp add: bucket_index_def usable_size_def NUM_BUCKETS_def)

lemma bucket_mono: "m \<le> n \<Longrightarrow> usable_size n \<Longrightarrow> bucket_index ps m \<le> bucket_index ps n"
  using div_le_mono [of "m * 16" "n * 16" ps] by (auto simp: bucket_index_usable usable_size_def min_def)

text \<open>Beyond that a page with much space is filed as if it had none.\<close>

lemma bucket_index_wraps: "bucket_index 8192 (2 ^ 60) = 0 \<and> bucket_index 8192 8192 = 15"
  by (simp add: bucket_index_def NUM_BUCKETS_def)

lemma fsm_new_inv: "fsm_inv (fsm_new ps)"
  by (simp add: fsm_inv_def fsm_new_def)

lemma fsm_invD:
  assumes "fsm_inv s"
  shows "distinct (map fst (pages s))" and "length (buckets s) = NUM_BUCKETS" and "i < NUM_BUCKETS \<Longrightarrow> distinct (buckets s ! i)"
    and "i < NUM_BUCKETS \<Longrightarrow> p \<in> set (buckets s ! i) \<longleftrightarrow> (\<exists>fr. map_of (pages s) p = Some fr \<and> bucket_index (page_size s) fr = i)"
  using assms by (auto simp: fsm_inv_def)

lemma fsm_record_pages [simp]: "pages (fsm_record p n s) = AList.update p n (pages s)" "page_size (fsm_record p n s) = page_size s"
  by (auto simp: fsm_record_def Let_def split: option.splits)

lemma fsm_record_nth:
  assumes "fsm_inv s" and "i < NUM_BUCKETS"
  shows "buckets (fsm_record p n s) ! i =
    (let new = bucket_index (page_size s) n; b = buckets s ! i
     in case map_of (pages s) p of
          None \<Rightarrow> if i = new then b @ [p] else b
        | Some fr \<Rightarrow>
            let old = bucket_index (page_size s) fr
            in if old = new then b else if i = new then b @ [p] else if i = old then take_out p b else b)"
  using assms(2) fsm_invD(2) [OF assms(1)] by (cases "map_of (pages s) p") (simp_all add: fsm_record_def Let_def nth_list_update)

lemma fsm_record_bucket:
  assumes "fsm_inv s" and "i < NUM_BUCKETS"
  shows "distinct (buckets (fsm_record p n s) ! i) \<and>
    set (buckets (fsm_record p n s) ! i) = (if i = bucket_index (page_size s) n then insert p (set (buckets s ! i)) else set (buckets s ! i) - {p})"
proof -
  note d = fsm_invD(3) [OF assms] and m = fsm_invD(4) [OF assms, of p]
  show ?thesis
  proof (cases "map_of (pages s) p")
    case None
    then show ?thesis using d m by (auto simp: fsm_record_nth [OF assms] Let_def)
  next
    case (Some fr)
    then show ?thesis using d m by (auto simp: fsm_record_nth [OF assms] Let_def set_take_out)
  qed
qed

lemma fsm_record_inv:
  assumes "fsm_inv s"
  shows "fsm_inv (fsm_record p n s)"
proof -
  have "length (buckets (fsm_record p n s)) = NUM_BUCKETS"
    using fsm_invD(2) [OF assms] by (cases "map_of (pages s) p") (simp_all add: fsm_record_def Let_def)
  moreover have "q \<in> set (buckets (fsm_record p n s) ! i) \<longleftrightarrow>
    (\<exists>fr. map_of (pages (fsm_record p n s)) q = Some fr \<and> bucket_index (page_size (fsm_record p n s)) fr = i)"
    if "i < NUM_BUCKETS" for i q
    using fsm_record_bucket [OF assms that] fsm_invD(4) [OF assms that, of q] by (cases "q = p") (auto simp: update_conv')
  ultimately show ?thesis unfolding fsm_inv_def
    using fsm_invD(1) [OF assms] fsm_record_bucket [OF assms] by (simp add: distinct_update)
qed

lemma fsm_forget_pages [simp]: "pages (fsm_forget p s) = AList.delete p (pages s)" "page_size (fsm_forget p s) = page_size s"
  by (auto simp: fsm_forget_def Let_def split: option.splits)

lemma fsm_forget_bucket:
  assumes "fsm_inv s" and "i < NUM_BUCKETS"
  shows "distinct (buckets (fsm_forget p s) ! i) \<and> set (buckets (fsm_forget p s) ! i) = set (buckets s ! i) - {p}"
proof -
  note d = fsm_invD(3) [OF assms] and m = fsm_invD(4) [OF assms, of p]
  show ?thesis
    using assms(2) d m fsm_invD(2) [OF assms(1)]
    by (cases "map_of (pages s) p") (auto simp: fsm_forget_def Let_def nth_list_update set_take_out)
qed

lemma fsm_forget_inv:
  assumes "fsm_inv s"
  shows "fsm_inv (fsm_forget p s)"
proof -
  have "length (buckets (fsm_forget p s)) = NUM_BUCKETS"
    using fsm_invD(2) [OF assms] by (cases "map_of (pages s) p") (simp_all add: fsm_forget_def Let_def)
  moreover have "q \<in> set (buckets (fsm_forget p s) ! i) \<longleftrightarrow>
    (\<exists>fr. map_of (pages (fsm_forget p s)) q = Some fr \<and> bucket_index (page_size (fsm_forget p s)) fr = i)"
    if "i < NUM_BUCKETS" for i q
    using fsm_forget_bucket [OF assms that] fsm_invD(4) [OF assms that, of q] by (cases "q = p") (auto simp: delete_conv')
  ultimately show ?thesis unfolding fsm_inv_def
    using fsm_invD(1) [OF assms] fsm_forget_bucket [OF assms] by (simp add: distinct_delete)
qed

lemma in_drop_concat:
  assumes "k \<le> i" and "i < length bs" and "x \<in> set (bs ! i)"
  shows "x \<in> set (concat (map rev (drop k bs)))"
proof -
  have "drop k bs ! (i - k) = bs ! i" "i - k < length (drop k bs)" using assms(1,2) by auto
  then have "bs ! i \<in> set (drop k bs)" by (metis nth_mem)
  then show ?thesis using assms(3) by auto
qed

lemma find_exact:
  assumes "fsm_inv s" and usable: "\<forall>fr \<in> ran (map_of (pages s)). usable_size fr"
  shows "case find_with_at_least n s of
     Some p \<Rightarrow> (\<exists>fr. free_bytes_for p s = Some fr \<and> n \<le> fr)
   | None \<Rightarrow> (\<forall>p fr. free_bytes_for p s = Some fr \<longrightarrow> fr < n)"
proof (cases "find_with_at_least n s")
  case None
  have "fr < n" if "map_of (pages s) p = Some fr" for p fr
  proof (rule ccontr)
    assume "\<not> fr < n"
    then have "bucket_index (page_size s) n \<le> bucket_index (page_size s) fr"
      using usable that by (intro bucket_mono) (auto simp: ran_def)
    then have "p \<in> set (concat (map rev (drop (bucket_index (page_size s) n) (buckets s))))"
      using fsm_invD(2) [OF assms(1)] fsm_invD(4) [OF assms(1), of "bucket_index (page_size s) fr" p] that by (intro in_drop_concat) auto
    then show False using None that \<open>\<not> fr < n\<close> by (auto simp: find_with_at_least_def find_None_iff)
  qed
  then show ?thesis using None by (simp add: free_bytes_for_def)
next
  case (Some p)
  then have "case map_of (pages s) p of Some fr \<Rightarrow> fr \<ge> n | None \<Rightarrow> False"
    unfolding find_with_at_least_def find_Some_iff by blast
  then show ?thesis using Some by (simp add: free_bytes_for_def split: option.splits)
qed

section \<open>Histories\<close>

datatype fsm_op = Record u32 nat | Forget u32

fun fsm_do :: "fsm_op \<Rightarrow> fsm \<Rightarrow> fsm" where
  "fsm_do (Record p n) s = fsm_record p n s"
| "fsm_do (Forget p) s = fsm_forget p s"

fun fsm_spec :: "fsm_op \<Rightarrow> (u32 \<rightharpoonup> nat) \<Rightarrow> (u32 \<rightharpoonup> nat)" where
  "fsm_spec (Record p n) m = m(p \<mapsto> n)"
| "fsm_spec (Forget p) m = m(p := None)"

lemma fsm_do_inv: "fsm_inv s \<Longrightarrow> fsm_inv (fsm_do x s)"
  by (cases x) (simp_all add: fsm_record_inv fsm_forget_inv)

lemma fsm_do_spec: "map_of (pages (fsm_do x s)) = fsm_spec x (map_of (pages s))"
  by (cases x) (simp_all add: update_conv' delete_conv')

lemma fsm_run: "fsm_inv s \<Longrightarrow> fsm_inv (fold fsm_do xs s) \<and> map_of (pages (fold fsm_do xs s)) = fold fsm_spec xs (map_of (pages s))"
  by (induction xs arbitrary: s) (simp_all add: fsm_do_inv fsm_do_spec)

fun usable_op :: "fsm_op \<Rightarrow> bool" where
  "usable_op (Record p n) = usable_size n"
| "usable_op (Forget p) = True"

lemma fsm_spec_usable:
  assumes "list_all usable_op xs" and "\<forall>fr \<in> ran m. usable_size fr"
  shows "\<forall>fr \<in> ran (fold fsm_spec xs m). usable_size fr"
  using assms
proof (induction xs arbitrary: m)
  case (Cons x xs)
  have "\<forall>fr \<in> ran (fsm_spec x m). usable_size fr" using Cons.prems by (cases x) (auto simp: ran_def split: if_splits)
  then show ?case using Cons by simp
qed simp

text \<open>C40. After any sequence of \<open>record\<close> and \<open>forget\<close> the map knows exactly the pages that were recorded last and not forgotten, and
  \<open>find_with_at_least\<close> is exact although it skips buckets: it returns a page with enough space, and none only if no page has enough. The recorded sizes are below \<open>2 ^ 60\<close> bytes; the searched size is arbitrary.\<close>

theorem fsm_find_exact:
  assumes "list_all usable_op xs"
  shows "let s = fold fsm_do xs (fsm_new ps); m = fold fsm_spec xs Map.empty
   in free_bytes_for p s = m p \<and> card (dom m) = page_count s \<and>
      (case find_with_at_least n s of
         Some q \<Rightarrow> (\<exists>fr. m q = Some fr \<and> n \<le> fr)
       | None \<Rightarrow> \<not> (\<exists>q fr. m q = Some fr \<and> n \<le> fr))"
proof -
  have run: "fsm_inv (fold fsm_do xs (fsm_new ps))" "map_of (pages (fold fsm_do xs (fsm_new ps))) = fold fsm_spec xs Map.empty"
    using fsm_run [OF fsm_new_inv, of xs ps] by (simp_all add: fsm_new_def)
  have "card (dom (map_of (pages (fold fsm_do xs (fsm_new ps))))) = page_count (fold fsm_do xs (fsm_new ps))"
    using fsm_invD(1) [OF run(1)] by (simp add: dom_map_of_conv_image_fst page_count_def distinct_card flip: set_map)
  then show ?thesis using find_exact [OF run(1), of n] run(2) fsm_spec_usable [OF assms, of Map.empty]
    by (auto simp: Let_def free_bytes_for_def not_le split: option.splits)
qed

theorem fsm_find_exact_witness:
  "find_with_at_least 3000 (fold fsm_do [Record 1 8000, Record 2 4000, Record 1 100, Record 3 2000] (fsm_new 8192)) = Some 2 \<and>
   (\<exists>fr. fold fsm_spec [Record 1 8000, Record 2 4000, Record 1 100, Record 3 2000] Map.empty (2 :: u32) = Some fr \<and> 3000 \<le> fr)"
proof -
  let ?xs = "[Record 1 8000, Record 2 4000, Record 1 100, Record 3 2000]"
  have b: "bucket_index 8192 8000 = 15" "bucket_index 8192 4000 = 7" "bucket_index 8192 100 = 0" "bucket_index 8192 2000 = 3"
    "bucket_index 8192 3000 = 5" by (simp_all add: bucket_index_usable usable_size_def)
  have u: "(x # ys)[numeral k := y] = x # ys[pred_numeral k := y]" "replicate (numeral k) x = x # replicate (pred_numeral k) x"
    for x y :: "u32 list" and ys k by (simp_all add: numeral_eq_Suc)
  have "find_with_at_least 3000 (fold fsm_do ?xs (fsm_new 8192)) = Some 2"
    by (simp add: find_with_at_least_def fsm_record_def fsm_new_def b NUM_BUCKETS_def u take_out_def swap_remove_def)
  moreover have "list_all usable_op ?xs" by (simp add: usable_size_def)
  ultimately show ?thesis using fsm_find_exact [of ?xs 2 8192 3000] by (simp add: Let_def)
qed

text \<open>The free list returns the pages in the order in which they were pushed.\<close>

lemma fl_fifo: "fl_pop (fold fl_push ps q) = (case q @ ps of [] \<Rightarrow> (None, []) | p # r \<Rightarrow> (Some p, r))"
proof -
  have "fold fl_push ps q = q @ ps" by (induction ps arbitrary: q) (simp_all add: fl_push_def)
  then show ?thesis by (simp add: fl_pop_def)
qed

end
