(* ===== verification/Spec2Isabelle.thy ===== *)
theory Spec2Isabelle
  imports Page Secondary Tuples Locks Versions Recovery BufferPool ParserTotal SqlText Like DbStore FreeSpace
begin

text \<open>
  A verification library for ByteDB, a relational database server in Rust. Paths below are relative to \<open>src/\<close>.

  \<^bold>\<open>The program.\<close> \<open>bytedb-core\<close> is the storage engine: pages and the buffer pool over one database file, a B-link tree and secondary indexes,
  the byte format of rows, multi-version concurrency control with locks and serializable conflict tracking, the write-ahead log and its
  recovery, and the files of tables, catalogues and databases. \<open>bytedb-query\<close> is SQL: lexer, parser, planner and executor.
  \<open>bytedb-server\<close> and \<open>bytedb-client\<close> are the network server and a command line client.

  A statement comes in as text, is lexed and parsed into a syntax tree, planned and executed on tables. The rows of a table
  live in a B-link tree, keyed by primary key and serialised; secondary indexes are further trees over order-preserving keys;
  versions of rows that a running transaction wrote live in the version store beside the tree, and the snapshot of a reader decides
  which version it sees. Committed changes reach the write-ahead log and the table logs on disk, from which a restart rebuilds
  the tables.

  \<^bold>\<open>Conventions\<close> (theory \<open>Prelude\<close>). Machine integers are words, a signed one the word with the same bits read by \<open>sint\<close>, and
  \<open>usize\<close> is \<open>nat\<close>. \<open>Result<T, CoreError>\<close> is the sum \<open>core_error + 'a\<close>, in which a panic is the error \<open>Panic\<close>. Structs are records, enums are
  datatypes, a \<open>HashMap\<close> is an association list or a map. State is passed explicitly; an operation that holds the locks of its component
  throughout is one step, and where the code releases them in between (the acquire loop of the lock manager, the group commit of the log, the
  fetch of the buffer pool, the sequence generator) the steps are separate and theorems quantify over their interleavings.
  Library code that is not part of the repository (checksums, compression, JSON, number printing) is a
  parameter, and what is assumed of it is a hypothesis of the theorems that need it.

  \<^bold>\<open>Theories and source files.\<close>
  \<^item> \<open>Page\<close>: \<open>bytedb-core/src/storage/page.rs\<close>, the slotted page on its 8192 bytes. Any sequence of operations refines a list of slots;
    allocation and update succeed exactly when there is room; compaction keeps the slots and reclaims the dead space.
  \<^item> \<open>Disk\<close>, \<open>BufferPool\<close>: \<open>storage/disk_manager.rs\<close>, \<open>storage/buffer_pool.rs\<close>. Under any sequence of operations the pool is a map of page
    contents; a flush makes them survive a restart (with no guard alive that wrote, and a file below 4 GiB); the number of frames is kept.
  \<^item> \<open>FreeSpace\<close>: \<open>storage/fsm.rs\<close>, \<open>storage/freelist.rs\<close>. The bucketed search finds a page with enough space exactly if there is one,
    for sizes below \<open>2 ^ 60\<close> bytes, where the multiplication of \<open>bucket_index\<close> does not wrap around.
  \<^item> \<open>BTree\<close>: \<open>index/btree.rs\<close>, nodes as cells of a store. Insert, delete, search and the scans return, keep the invariant
    and agree with a finite map.
  \<^item> \<open>Values\<close>, \<open>OrderKey\<close>, \<open>Secondary\<close>: \<open>tuple/value.rs\<close>, \<open>index/order_key.rs\<close>, \<open>index/secondary.rs\<close>, \<open>index/iterator.rs\<close>. The bytes of a key sort as
    its columns do, so lookups in a secondary index return exactly the rows in question, and a unique index stays unique: for columns of one type, decimals of one scale, floats that
    are neither NaN nor zeros of different sign, and no JSON. On the values left out the keys are wrong (\<open>OrderKey.okey_ignores_scale\<close>, \<open>OrderKey.okey_zero_and_nan\<close>).
  \<^item> \<open>Schema\<close>, \<open>Tuples\<close>: \<open>tuple/schema.rs\<close>, \<open>tuple/tuple.rs\<close>, \<open>compress.rs\<close>. Stored rows read back, as a whole and by column; the filter on
    stored bytes agrees with the comparison of values; sequences increase under any interleaving that keeps away from the largest \<open>i64\<close>. Access by column assumes that the
    columns before it are stored uncompressed, since \<open>skip_value\<close> ends one byte too far on compressed ones, as a theorem there shows.
  \<^item> \<open>Locks\<close>, \<open>Transactions\<close>, \<open>Versions\<close>: \<open>mvcc/lock_manager.rs\<close>, \<open>mvcc/transaction.rs\<close>, \<open>mvcc/version_store.rs\<close>, \<open>mvcc/visibility.rs\<close>. Exclusive locks exclude, the
    deadlock search is exact, snapshots separate earlier commits from later ones, and neither writers nor garbage collection change what a snapshot reads.
  \<^item> \<open>Wal\<close>, \<open>Recovery\<close>: \<open>wal/log_record.rs\<close>, \<open>wal/log_manager.rs\<close>, \<open>wal/recovery.rs\<close>. After a crash the log returns a prefix of the appended records with
    every record reported durable, and recovery redoes the changes of every transaction whose commit was durable: for logs opened cleanly, appends that do not fail with an
    I/O error and no truncation. Lemmas at the end of \<open>Wal\<close> show that the guarantee is lost in each of the cases left out.
  \<^item> \<open>DbStore\<close>: \<open>bytedb-core/src/dbstore\<close> and \<open>bytedb-query/src/executor/diskstore.rs\<close>. Every operation is the list of its effects on the files, which a crash may cut
    anywhere: the files of a table still load, after an append with at most a tail of its deltas missing, after a flush with the old contents, the flushed ones, or these with the
    logged deltas applied.
  \<^item> \<open>Lexer\<close>, \<open>Ast\<close>, \<open>Parser\<close>, \<open>ParserTotal\<close>, \<open>SqlText\<close>: \<open>bytedb-query/src/parser\<close>. The parser returns on every input, and the text of a printable
    expression parses to the expression. The seven syntax tree types of \<open>ast.rs\<close> that refer to each other are one declaration, \<open>expr\<close>.
  \<^item> \<open>Like\<close>: the matchers of \<open>LIKE\<close> and \<open>ILIKE\<close> at the end of \<open>bytedb-query/src/executor/engine.rs\<close>, against a declarative meaning of patterns.

  Where a function of the source is cut into several definitions, the fragments are listed with the lines of that function.

  Each theory starts with its records, datatypes and operations, in the order of the source file, and then has the invariants and lemmas. The
  interfaces between components are locales, interpreted on the definitions of the model: \<open>codec\<close> for formats that read back,
  \<open>ordered_index\<close> for what \<open>Secondary\<close> relies on of the tree, \<open>atomic_ops\<close> and \<open>bounded_refinement\<close> for runs of pages and of the pool that refine their specifications. A lemma whose text names a shortcoming of the code (such as
  \<open>DbStore.append_after_torn_tail\<close>) is a proved counterexample on the model.

  \<^bold>\<open>Bounds.\<close> Loops whose termination needs an argument are \<open>partial_function (option)\<close> (the tree, \<open>LIKE\<close>), and the theorems say that they return.
  The parser bounds its recursion by a depth and its loops by the number of tokens; \<open>ParserTotal\<close> shows that neither bound is reached, since every
  recursive call has consumed a token. Other recursions have a measure.

  \<^bold>\<open>Not modelled.\<close>
  \<^item> The executor (\<open>bytedb-query/src/executor/engine.rs\<close>) apart from \<open>LIKE\<close>, with its \<open>batch.rs\<close> and \<open>context.rs\<close>, and the planner. Evaluating
    expressions uses floating point arithmetic, the printing of numbers and the calendar, and planning uses floating point costs; no model of these is part of the library.
    The purely structural operators (set operations, joins, sorting) are left out with it. The storage operations that the executor calls are modelled.
  \<^item> Node latches of the B-link tree and the effect of two threads inside one tree operation: an operation is a step.
  \<^item> Errors of the device in \<open>Disk\<close> and \<open>DbStore\<close> (the log models them), directories, and the clock.
  \<^item> The server, the client, the benchmarks, metrics, statistics, background workers, backup, snapshots, blobs, migration and fault injection: input and output, threads,
    timers and calls of the components above.
\<close>

end
